(* ===== verification/Prelude.thy ===== *)
theory Prelude
  imports Main "HOL-Library.Word" "HOL-Library.List_Lexorder" "HOL-Library.Sublist"
begin

text \<open>
  Prelude of the BriskDB development: the byte and integer types of the
  sources, the error kinds of \<open>core/error.rs\<close>, the result type and its
  sequencing, fixed-width little and big endian encodings with their round
  trips, the lexicographic order of byte strings (the order of Rust slices) and
  its interaction with prefix-free encodings, and the acceptance condition of
  \<open>core::str::from_utf8\<close>.
\<close>

named_theorems result_simps \<open>sequencing of fallible computations\<close>
named_theorems codec_simps \<open>fixed-width encodings: lengths and round trips\<close>
named_theorems order_simps \<open>lexicographic order of encodings\<close>

section \<open>Types of the sources\<close>

type_synonym byte = "8 word"
type_synonym bytes = "byte list"
type_synonym u16 = "16 word"
type_synonym u32 = "32 word"
type_synonym u64 = "64 word"

text \<open>The stable error categories.  The diagnostic text of an error is not
  part of the model.\<close>

datatype EngineErrorKind =
    InvalidArgument | NumericOutOfRange | InvalidTextEncoding | InvalidQuery
  | Unsupported | FailedPrecondition | IdempotencyConflict | TransactionAborted
  | TypeMismatch | ConstraintViolation | UniqueViolation | NotNullViolation
  | ForeignKeyViolation | CheckViolation | PermissionDenied | ReadOnly | Busy
  | Cancelled | DeadlineExceeded | LimitExceeded | ShuttingDown | StorageFull
  | OutOfMemory | StorageUnavailable | DataCorruption | Internal

fun is_retryable :: "EngineErrorKind \<Rightarrow> bool" where
  "is_retryable Busy = True"
| "is_retryable _ = False"

type_synonym 'a EngineResult = "EngineErrorKind + 'a"

section \<open>Sequencing of fallible computations\<close>

text \<open>\<open>and_then m f\<close> is the \<open>?\<close> operator: an error is returned at once.\<close>

fun and_then :: "'e + 'a \<Rightarrow> ('a \<Rightarrow> 'e + 'b) \<Rightarrow> 'e + 'b" where
  "and_then (Inl e) f = Inl e"
| "and_then (Inr x) f = f x"

definition check_that :: "bool \<Rightarrow> 'e \<Rightarrow> 'e + unit" where
  "check_that b e = (if b then Inr () else Inl e)"

lemma and_then_cong [fundef_cong]:
  "m = m' \<Longrightarrow> (\<And>x. m' = Inr x \<Longrightarrow> f x = f' x) \<Longrightarrow> and_then m f = and_then m' f'"
  by (cases m') auto

lemma and_then_Inr_iff [result_simps]:
  "and_then m f = Inr y \<longleftrightarrow> (\<exists>x. m = Inr x \<and> f x = Inr y)"
  by (cases m) auto

lemma and_then_Inl_iff [result_simps]:
  "and_then m f = Inl e \<longleftrightarrow> m = Inl e \<or> (\<exists>x. m = Inr x \<and> f x = Inl e)"
  by (cases m) auto

lemma check_that_Inr_iff [simp]: "check_that b e = Inr u \<longleftrightarrow> b"
  by (auto simp: check_that_def)

lemma check_that_Inl_iff [simp]: "check_that b e = Inl e' \<longleftrightarrow> \<not> b \<and> e = e'"
  by (auto simp: check_that_def)

lemma check_that_simps [simp]: "check_that True e = Inr ()" "check_that False e = Inl e"
  by (simp_all add: check_that_def)

text \<open>Collecting \<open>map\<close> over a fallible function, first error first.\<close>

fun try_map :: "('a \<Rightarrow> 'e + 'b) \<Rightarrow> 'a list \<Rightarrow> 'e + 'b list" where
  "try_map f [] = Inr []"
| "try_map f (x # xs) = and_then (f x) (\<lambda>y. and_then (try_map f xs) (\<lambda>ys. Inr (y # ys)))"

lemma try_map_Inr_iff:
  "try_map f xs = Inr ys \<longleftrightarrow> list_all2 (\<lambda>x y. f x = Inr y) xs ys"
  by (induction xs arbitrary: ys) (auto simp: result_simps list_all2_Cons1)

lemma try_map_cong [fundef_cong]:
  "xs = ys \<Longrightarrow> (\<And>x. x \<in> set ys \<Longrightarrow> f x = g x) \<Longrightarrow> try_map f xs = try_map g ys"
proof (induction ys arbitrary: xs)
  case (Cons y ys)
  then show ?case by (cases "g y") auto
qed simp

section \<open>Fixed-width byte encodings\<close>

primrec le_bytes :: "nat \<Rightarrow> nat \<Rightarrow> bytes" where
  "le_bytes 0 n = []"
| "le_bytes (Suc k) n = word_of_nat n # le_bytes k (n div 256)"

primrec le_nat :: "bytes \<Rightarrow> nat" where
  "le_nat [] = 0"
| "le_nat (b # bs) = unat b + 256 * le_nat bs"

definition be_bytes :: "nat \<Rightarrow> nat \<Rightarrow> bytes" where
  "be_bytes k n = rev (le_bytes k n)"

definition be_nat :: "bytes \<Rightarrow> nat" where
  "be_nat bs = le_nat (rev bs)"

lemma unat_byte_less [simp]: "unat (b :: byte) < 256"
  using unsigned_less [of b, where ?'a = nat] by simp

lemma unat_word_of_nat_byte [simp]: "unat (word_of_nat n :: byte) = n mod 256"
  by (simp add: unat_of_nat)

lemma word_of_nat_add_256 [simp]: "(word_of_nat (unat b + 256 * n) :: byte) = b"
  by (rule word_unat_eq_iff [THEN iffD2]) (simp only: unat_word_of_nat_byte, simp)

lemma unat_of_nat_eq:
  "n < 2 ^ LENGTH('a) \<Longrightarrow> unat (word_of_nat n :: 'a :: len word) = n"
  by (simp add: unat_of_nat)

lemma uint_word_of_int_small:
  "0 \<le> i \<Longrightarrow> i < 2 ^ LENGTH('a) \<Longrightarrow> uint (word_of_int i :: 'a :: len word) = i"
  by (simp add: uint_word_of_int_eq take_bit_int_eq_self)

lemma unat_ucast_up [simp]:
  fixes w :: "'a :: len word"
  assumes "LENGTH('a) \<le> LENGTH('b)"
  shows "unat (ucast w :: 'b :: len word) = unat w"
proof -
  have "unat w < 2 ^ LENGTH('b)"
    using unsigned_less [of w, where ?'a = nat] assms
    by (meson less_le_trans one_le_numeral power_increasing)
  then show ?thesis
    by (simp add: unsigned_ucast_eq take_bit_nat_eq_self)
qed

lemma uint_ucast_up [simp]:
  fixes w :: "'a :: len word"
  assumes "LENGTH('a) \<le> LENGTH('b)"
  shows "uint (ucast w :: 'b :: len word) = uint w"
  unfolding uint_nat by (simp only: unat_ucast_up [OF assms])

lemma unat_ucast_small:
  fixes w :: "'a :: len word"
  assumes "unat w < 2 ^ LENGTH('b)"
  shows "unat (ucast w :: 'b :: len word) = unat w"
  using assms by (simp add: unsigned_ucast_eq take_bit_nat_eq_self)

lemma length_le_bytes [codec_simps, simp]: "length (le_bytes k n) = k"
  by (induction k arbitrary: n) auto

lemma length_be_bytes [codec_simps, simp]: "length (be_bytes k n) = k"
  by (simp add: be_bytes_def)

lemma le_nat_le_bytes [codec_simps]: "le_nat (le_bytes k n) = n mod 256 ^ k"
proof (induction k arbitrary: n)
  case (Suc k)
  then show ?case by (simp add: mod_mult2_eq)
qed simp

lemma le_nat_less: "le_nat bs < 256 ^ length bs"
proof (induction bs)
  case (Cons b bs)
  have "unat b + 256 * le_nat bs < 256 + 256 * le_nat bs"
    by simp
  also have "\<dots> \<le> 256 * 256 ^ length bs"
    using Cons.IH by simp
  finally show ?case by simp
qed simp

lemma le_bytes_le_nat [codec_simps]: "le_bytes (length bs) (le_nat bs) = bs"
proof (induction bs)
  case (Cons b bs)
  have "(unat b + 256 * le_nat bs) div 256 = le_nat bs"
    by simp
  then show ?case
    using Cons by (simp only: le_nat.simps length_Cons le_bytes.simps word_of_nat_add_256)
qed simp

lemma be_nat_be_bytes [codec_simps]: "be_nat (be_bytes k n) = n mod 256 ^ k"
  by (simp add: be_nat_def be_bytes_def le_nat_le_bytes)

lemma be_bytes_be_nat [codec_simps]: "be_bytes (length bs) (be_nat bs) = bs"
  by (metis be_bytes_def be_nat_def le_bytes_le_nat length_rev rev_rev_ident)

lemma be_nat_less: "be_nat bs < 256 ^ length bs"
  using le_nat_less [of "rev bs"] by (simp add: be_nat_def)

lemma le_bytes_inject:
  "m < 256 ^ k \<Longrightarrow> n < 256 ^ k \<Longrightarrow> le_bytes k m = le_bytes k n \<longleftrightarrow> m = n"
  by (metis le_nat_le_bytes mod_less)

lemma be_bytes_inject:
  "m < 256 ^ k \<Longrightarrow> n < 256 ^ k \<Longrightarrow> be_bytes k m = be_bytes k n \<longleftrightarrow> m = n"
  by (simp add: be_bytes_def le_bytes_inject)

section \<open>The order of byte strings\<close>

lemma append_less_append_same_length [order_simps]:
  fixes a b x y :: "'a :: linorder list"
  shows "length a = length b \<Longrightarrow> a @ x < b @ y \<longleftrightarrow> a < b \<or> a = b \<and> x < y"
  by (induction a b rule: list_induct2) auto

lemma append_less_append_left [simp, order_simps]:
  fixes a x y :: "'a :: linorder list"
  shows "a @ x < a @ y \<longleftrightarrow> x < y"
  by (simp add: append_less_append_same_length)

text \<open>Two strings that are not prefixes of one another are ordered the same
  way whatever follows them.\<close>

lemma parallel_less_append:
  fixes a b x y :: "'a :: linorder list"
  assumes "a \<parallel> b"
  shows "a @ x < b @ y \<longleftrightarrow> a < b"
  using assms
proof (induction a arbitrary: b)
  case (Cons u a)
  then show ?case by (cases b) (auto simp: parallel_def)
qed (simp add: parallel_def)

lemma parallel_append:
  "a \<parallel> b \<Longrightarrow> a @ x \<parallel> b @ y"
  by (simp add: parallel_append)

lemma parallel_same_length:
  "length a = length b \<Longrightarrow> a \<parallel> b \<longleftrightarrow> a \<noteq> b"
  by (auto simp: parallel_def prefix_def)

lemma snoc_less_snoc_iff:
  fixes a b :: "'a :: linorder list"
  assumes "length a = length b"
  shows "a @ [x] < b @ [y] \<longleftrightarrow> a < b \<or> a = b \<and> x < y"
  using append_less_append_same_length [OF assms, of "[x]" "[y]"] by simp

lemma div_mod_less_iff:
  fixes m n d :: nat
  assumes "0 < d"
  shows "m < n \<longleftrightarrow> m div d < n div d \<or> m div d = n div d \<and> m mod d < n mod d"
proof -
  have *: "i * d + r < j * d + s \<longleftrightarrow> i < j \<or> i = j \<and> r < s" if "r < d" "s < d" for i j r s
  proof (cases i j rule: linorder_cases)
    case less
    then have "i * d + d \<le> j * d"
      by (metis Suc_leI add.commute mult_Suc mult_le_mono1)
    with less that show ?thesis by simp
  next
    case greater
    then have "j * d + d \<le> i * d"
      by (metis Suc_leI add.commute mult_Suc mult_le_mono1)
    with greater that show ?thesis by simp
  qed simp
  show ?thesis
    using * [of "m mod d" "n mod d" "m div d" "n div d"] assms by simp
qed

text \<open>Big endian encodings of a fixed width are ordered like the numbers.\<close>

lemma be_bytes_less_iff [order_simps]:
  "m < 256 ^ k \<Longrightarrow> n < 256 ^ k \<Longrightarrow> be_bytes k m < be_bytes k n \<longleftrightarrow> m < n"
proof (induction k arbitrary: m n)
  case (Suc k)
  have small: "m div 256 < 256 ^ k" "n div 256 < 256 ^ k"
    using Suc.prems by (simp_all add: less_mult_imp_div_less mult.commute)
  have "be_bytes (Suc k) m < be_bytes (Suc k) n
      \<longleftrightarrow> be_bytes k (m div 256) < be_bytes k (n div 256)
        \<or> be_bytes k (m div 256) = be_bytes k (n div 256)
          \<and> (word_of_nat m :: byte) < word_of_nat n"
    by (simp add: be_bytes_def snoc_less_snoc_iff)
  also have "\<dots> \<longleftrightarrow> m div 256 < n div 256 \<or> m div 256 = n div 256 \<and> m mod 256 < n mod 256"
    using Suc.IH [OF small] be_bytes_inject [OF small] by (simp add: word_less_nat_alt)
  also have "\<dots> \<longleftrightarrow> m < n"
    by (rule div_mod_less_iff [symmetric]) simp
  finally show ?case .
qed simp

section \<open>Signed words and complements\<close>

unbundle bit_operations_syntax

lemma int_xor_disjoint:
  fixes b :: int
  assumes "0 \<le> b" "b < 2 ^ k"
  shows "b XOR 2 ^ k = b + 2 ^ k" "(b + 2 ^ k) XOR 2 ^ k = b"
proof -
  have b: "take_bit k b = b"
    using assms by (simp add: take_bit_int_eq_self)
  have "take_bit k b AND push_bit k 1 = 0"
    by (rule bit_eqI) (auto simp: bit_simps)
  then have eq: "take_bit k b + push_bit k 1 = take_bit k b XOR push_bit k 1"
    by (rule disjunctive_add_eq_xor)
  then show one: "b XOR 2 ^ k = b + 2 ^ k"
    by (simp add: b push_bit_eq_mult)
  show "(b + 2 ^ k) XOR 2 ^ k = b"
    unfolding one [symmetric] by (simp add: xor.assoc)
qed

text \<open>Flipping the sign bit turns the signed into the unsigned order.\<close>

lemma uint_flip_sign:
  fixes w :: "'a :: len word"
  assumes "LENGTH('a) = Suc n"
  shows "uint (w XOR push_bit n 1) = sint w + 2 ^ n"
proof -
  have u: "0 \<le> uint w" "uint w < 2 ^ Suc n"
    using uint_bounded [of w] assms by simp_all
  have "uint (push_bit n 1 :: 'a word) = take_bit (Suc n) (push_bit n 1)"
    by (simp only: unsigned_push_bit_eq assms unsigned_1)
  then have p: "uint (push_bit n 1 :: 'a word) = 2 ^ n"
    by (simp add: push_bit_eq_mult take_bit_int_eq_self)
  have x: "uint (w XOR push_bit n 1) = uint w XOR 2 ^ n"
    by (simp only: unsigned_xor_eq p)
  have s: "sint w + 2 ^ n = take_bit (Suc n) (uint w + 2 ^ n)"
    using assms by (simp add: sint_uint signed_take_bit_eq_take_bit_shift)
  show ?thesis
  proof (cases "uint w < 2 ^ n")
    case True
    then show ?thesis
      using u int_xor_disjoint(1) [of "uint w" n] unfolding x s
      by (simp add: take_bit_int_eq_self)
  next
    case False
    have v: "uint w - 2 ^ n < 2 ^ n" "0 \<le> uint w - 2 ^ n"
      using False u by simp_all
    have "take_bit (Suc n) (uint w + 2 ^ n) = take_bit (Suc n) (uint w - 2 ^ n + 2 ^ Suc n)"
      by (simp add: add.commute)
    also have "\<dots> = uint w - 2 ^ n"
      using v by (subst take_bit_eq_mod, subst mod_add_self2) (simp add: mod_pos_pos_trivial)
    finally show ?thesis
      using int_xor_disjoint(2) [OF v(2,1)] unfolding x s by simp
  qed
qed

lemma flip_sign_less_iff:
  fixes v w :: "'a :: len word"
  assumes "LENGTH('a) = Suc n"
  shows "v XOR push_bit n 1 < w XOR push_bit n 1 \<longleftrightarrow> sint v < sint w"
  by (simp only: word_less_def uint_flip_sign [OF assms]) simp

lemma flip_sign_flip_sign [simp]: "(w XOR m) XOR m = (w :: 'a :: len word)"
  by (simp add: xor.assoc)

lemma flip_sign_eq_iff: "v XOR m = w XOR m \<longleftrightarrow> v = (w :: 'a :: len word)"
  by (metis flip_sign_flip_sign)

lemma uint_not: "uint (NOT w :: 'a :: len word) = 2 ^ LENGTH('a) - 1 - uint w"
proof -
  have "uint (- 1 :: 'a word) = 2 ^ LENGTH('a) - 1"
    by (simp add: unsigned_minus_1_eq_mask mask_eq_exp_minus_1)
  moreover have "NOT w = - 1 - w"
    by (simp add: not_eq_complement)
  moreover have "uint (- 1 - w) = uint (- 1 :: 'a word) - uint w"
    by (intro uint_sub_lem [THEN iffD1]) (use calculation uint_bounded [of w] in auto)
  ultimately show ?thesis by simp
qed

lemma not_less_not_iff: "NOT v < NOT w \<longleftrightarrow> w < (v :: 'a :: len word)"
  by (simp add: word_less_def uint_not)

lemma not_eq_not_iff [simp]: "NOT v = NOT w \<longleftrightarrow> v = (w :: 'a :: len word)"
  by (metis bit.double_compl)

section \<open>UTF-8 acceptance\<close>

abbreviation utf8_cont :: "byte \<Rightarrow> bool" where
  "utf8_cont b \<equiv> 0x80 \<le> b \<and> b \<le> 0xBF"

fun utf8_valid :: "bytes \<Rightarrow> bool" where
  "utf8_valid [] = True"
| "utf8_valid (a # bs) =
    (if a < 0x80 then utf8_valid bs
     else case bs of
       [] \<Rightarrow> False
     | b # bs \<Rightarrow>
         if 0xC2 \<le> a \<and> a \<le> 0xDF then utf8_cont b \<and> utf8_valid bs
         else case bs of
           [] \<Rightarrow> False
         | c # bs \<Rightarrow>
             if 0xE0 \<le> a \<and> a \<le> 0xEF then
               utf8_cont b \<and> (a = 0xE0 \<longrightarrow> 0xA0 \<le> b) \<and> (a = 0xED \<longrightarrow> b \<le> 0x9F)
               \<and> utf8_cont c \<and> utf8_valid bs
             else case bs of
               [] \<Rightarrow> False
             | d # bs \<Rightarrow>
                 0xF0 \<le> a \<and> a \<le> 0xF4
                 \<and> utf8_cont b \<and> (a = 0xF0 \<longrightarrow> 0x90 \<le> b) \<and> (a = 0xF4 \<longrightarrow> b \<le> 0x8F)
                 \<and> utf8_cont c \<and> utf8_cont d \<and> utf8_valid bs)"

section \<open>The digest function\<close>

text \<open>BLAKE3 is a parameter of the model; this is the documented contract the code relies on:
  32 bytes for every input.\<close>

definition digest_32 :: "(bytes \<Rightarrow> bytes) \<Rightarrow> bool" where
  "digest_32 blake3 \<longleftrightarrow> (\<forall>input. length (blake3 input) = 32)"

end
