(* ===== verification/Search.thy ===== *)
theory Search
  imports Prelude
begin

text \<open>
  The parts of the Rust standard library that several components share:
  \<open>Ordering\<close>, three-way comparison of a linear order and of slices, and the
  binary search of slices (the branchless loop of \<open>slice::binary_search_by\<close>)
  with its correctness on a slice sorted by its key.
\<close>

datatype Ordering = Less | Equal | Greater

fun reverse :: "Ordering \<Rightarrow> Ordering" where
  "reverse Less = Greater"
| "reverse Equal = Equal"
| "reverse Greater = Less"

fun then_with :: "Ordering \<Rightarrow> (unit \<Rightarrow> Ordering) \<Rightarrow> Ordering" where
  "then_with Equal f = f ()"
| "then_with Less f = Less"
| "then_with Greater f = Greater"

definition cmp :: "'a :: linorder \<Rightarrow> 'a \<Rightarrow> Ordering" where
  "cmp a b = (if a < b then Less else if a = b then Equal else Greater)"

lemma cmp_iff [simp]:
  "cmp a b = Less \<longleftrightarrow> a < b"
  "cmp a b = Equal \<longleftrightarrow> a = b"
  "cmp a b = Greater \<longleftrightarrow> b < a"
  by (auto simp: cmp_def)

lemma cmp_refl [simp]: "cmp a a = Equal"
  by simp

lemma reverse_cmp: "reverse (cmp a b) = cmp b a"
  by (auto simp: cmp_def)

lemma reverse_reverse [simp]: "reverse (reverse o1) = o1"
  by (cases o1) auto

lemma reverse_iff [simp]:
  "reverse r = Less \<longleftrightarrow> r = Greater"
  "reverse r = Equal \<longleftrightarrow> r = Equal"
  "reverse r = Greater \<longleftrightarrow> r = Less"
  by (cases r; simp)+

lemma then_with_iff [simp]:
  "then_with r f = Equal \<longleftrightarrow> r = Equal \<and> f () = Equal"
  "then_with r f = Less \<longleftrightarrow> r = Less \<or> r = Equal \<and> f () = Less"
  "then_with r f = Greater \<longleftrightarrow> r = Greater \<or> r = Equal \<and> f () = Greater"
  by (cases r; simp)+

lemma reverse_then_with: "reverse (then_with r f) = then_with (reverse r) (\<lambda>u. reverse (f u))"
  by (cases r) auto

section \<open>Binary search\<close>

text \<open>\<open>probe i\<close> is the comparison of element \<open>i\<close> with the target.\<close>

function search_loop :: "(nat \<Rightarrow> Ordering) \<Rightarrow> nat \<Rightarrow> nat \<Rightarrow> nat" where
  "search_loop probe base len =
    (if len \<le> 1 then base
     else let half = len div 2; mid = base + half in
       search_loop probe (if probe mid = Greater then base else mid) (len - half))"
  by pat_completeness auto
termination
  by (relation "measure (\<lambda>(_, _, len). len)") auto

declare search_loop.simps [simp del]

text \<open>\<open>Inr i\<close>: found at \<open>i\<close>; \<open>Inl i\<close>: absent, to be inserted at \<open>i\<close>.\<close>

definition binary_search_by :: "('a \<Rightarrow> Ordering) \<Rightarrow> 'a list \<Rightarrow> nat + nat" where
  "binary_search_by f xs =
    (if xs = [] then Inl 0
     else let base = search_loop (\<lambda>i. f (xs ! i)) 0 (length xs) in
       case f (xs ! base) of
         Equal \<Rightarrow> Inr base
       | Less \<Rightarrow> Inl (base + 1)
       | Greater \<Rightarrow> Inl base)"

definition binary_search_by_key :: "('a \<Rightarrow> 'k :: linorder) \<Rightarrow> 'k \<Rightarrow> 'a list \<Rightarrow> nat + nat" where
  "binary_search_by_key key k xs = binary_search_by (\<lambda>x. cmp (key x) k) xs"

lemma search_loop_correct:
  assumes "0 < len" "base + len \<le> n"
    and mono: "\<And>i j. i \<le> j \<Longrightarrow> j < n \<Longrightarrow> probe i = Greater \<Longrightarrow> probe j = Greater"
  shows "base \<le> search_loop probe base len \<and> search_loop probe base len < base + len
    \<and> (\<forall>i. search_loop probe base len < i \<longrightarrow> i < base + len \<longrightarrow> probe i = Greater)
    \<and> (probe base \<noteq> Greater \<longrightarrow> probe (search_loop probe base len) \<noteq> Greater)
    \<and> (probe base = Greater \<longrightarrow> search_loop probe base len = base)"
  using assms(1,2)
proof (induction len arbitrary: base rule: less_induct)
  case (less s)
  show ?case
  proof (cases "s \<le> 1")
    case True
    then have "search_loop probe base s = base"
      by (simp add: search_loop.simps)
    then show ?thesis using less.prems True by simp
  next
    case False
    define half where "half = s div 2"
    define mid where "mid = base + half"
    have half: "0 < half" "half < s" "half \<le> s - half"
      using False by (auto simp: half_def)
    show ?thesis
    proof (cases "probe mid = Greater")
      case True
      then have eq: "search_loop probe base s = search_loop probe base (s - half)"
        using False by (subst search_loop.simps) (simp add: Let_def half_def mid_def)
      define r where "r = search_loop probe base (s - half)"
      have upper: "probe i = Greater" if "\<not> i < base + (s - half)" "i < base + s" for i
        using mono [of mid i] True that less.prems half by (simp add: mid_def)
      have "s - half < s" "0 < s - half" "base + (s - half) \<le> n"
        using half less.prems by auto
      note IH = less.IH [OF this, folded r_def]
      then have "probe i = Greater" if "r < i" "i < base + s" for i
        using upper [of i] that by blast
      moreover have "r < base + s"
        using IH half by linarith
      ultimately show ?thesis
        unfolding eq r_def [symmetric] using IH by blast
    next
      case g: False
      then have eq: "search_loop probe base s = search_loop probe mid (s - half)"
        using False by (subst search_loop.simps) (simp add: Let_def half_def mid_def)
      have "probe base \<noteq> Greater"
        using mono [of base mid] g less.prems half by (auto simp: mid_def)
      moreover have "mid + (s - half) = base + s" "base \<le> mid"
        using half by (simp_all add: mid_def)
      moreover have "s - half < s" "0 < s - half" "mid + (s - half) \<le> n"
        using half less.prems by (simp_all add: mid_def)
      note IH = less.IH [OF this]
      ultimately show ?thesis
        unfolding eq using g IH by (metis le_trans)
    qed
  qed
qed

text \<open>On a list with strictly increasing keys the search finds the element with
  the key, or the number of smaller ones.\<close>

lemma search_base:
  fixes key :: "'a \<Rightarrow> 'k :: linorder" and k xs
  assumes sorted: "sorted_wrt (<) (map key xs)" and "xs \<noteq> []"
  defines "base \<equiv> search_loop (\<lambda>i. cmp (key (xs ! i)) k) 0 (length xs)"
  shows "base < length xs"
    and "\<And>i. base < i \<Longrightarrow> i < length xs \<Longrightarrow> k < key (xs ! i)"
    and "base \<noteq> 0 \<Longrightarrow> key (xs ! base) \<le> k"
proof -
  have nth: "key (xs ! i) < key (xs ! j)" if "i < j" "j < length xs" for i j
    using sorted that by (auto simp: sorted_wrt_iff_nth_less)
  have mono: "cmp (key (xs ! j)) k = Greater"
    if "i \<le> j" "j < length xs" "cmp (key (xs ! i)) k = Greater" for i j
    using nth [of i j] that by (cases "i = j") auto
  note c = search_loop_correct [of "length xs" 0 "length xs" "\<lambda>i. cmp (key (xs ! i)) k",
      folded base_def, OF _ _ mono]
  show "base < length xs" using c \<open>xs \<noteq> []\<close> by simp
  show "k < key (xs ! i)" if "base < i" "i < length xs" for i
    using c \<open>xs \<noteq> []\<close> that by simp
  show "key (xs ! base) \<le> k" if "base \<noteq> 0"
    using c \<open>xs \<noteq> []\<close> that by (auto simp: not_less)
qed

theorem binary_search_by_key_Inr:
  assumes "sorted_wrt (<) (map key xs)"
  shows "binary_search_by_key key k xs = Inr i \<longleftrightarrow> i < length xs \<and> key (xs ! i) = k"
proof (cases "xs = []")
  case False
  define base where "base = search_loop (\<lambda>i. cmp (key (xs ! i)) k) 0 (length xs)"
  note base = search_base [OF assms False, of k, folded base_def]
  have eq: "binary_search_by_key key k xs = (case cmp (key (xs ! base)) k of
      Equal \<Rightarrow> Inr base | Less \<Rightarrow> Inl (base + 1) | Greater \<Rightarrow> Inl base)"
    using False by (simp add: binary_search_by_key_def binary_search_by_def Let_def flip: base_def)
  have nth: "key (xs ! i) < key (xs ! j)" if "i < j" "j < length xs" for i j
    using assms that by (auto simp: sorted_wrt_iff_nth_less)
  have only: "i = base" if "i < length xs" "key (xs ! i) = k"
  proof (rule ccontr)
    assume "i \<noteq> base"
    then consider "base < i" | "i < base" by linarith
    then show False
    proof cases
      case 1
      then show False using base(2) [of i] that by simp
    next
      case 2
      then show False using nth [of i base] base(1,3) that by simp
    qed
  qed
  show ?thesis
  proof
    assume "binary_search_by_key key k xs = Inr i"
    then show "i < length xs \<and> key (xs ! i) = k"
      using base(1) by (auto simp: eq split: Ordering.splits)
  next
    assume "i < length xs \<and> key (xs ! i) = k"
    with only show "binary_search_by_key key k xs = Inr i"
      by (auto simp: eq split: Ordering.splits)
  qed
qed (simp add: binary_search_by_key_def binary_search_by_def)

theorem binary_search_by_key_Inl:
  assumes "sorted_wrt (<) (map key xs)" "binary_search_by_key key k xs = Inl i"
  shows "i \<le> length xs \<and> (\<forall>j < i. key (xs ! j) < k) \<and> (\<forall>j. i \<le> j \<longrightarrow> j < length xs \<longrightarrow> k < key (xs ! j))"
proof (cases "xs = []")
  case False
  define base where "base = search_loop (\<lambda>i. cmp (key (xs ! i)) k) 0 (length xs)"
  note base = search_base [OF assms(1) False, of k, folded base_def]
  have eq: "binary_search_by_key key k xs = (case cmp (key (xs ! base)) k of
      Equal \<Rightarrow> Inr base | Less \<Rightarrow> Inl (base + 1) | Greater \<Rightarrow> Inl base)"
    using False by (simp add: binary_search_by_key_def binary_search_by_def Let_def flip: base_def)
  have nth: "key (xs ! i) < key (xs ! j)" if "i < j" "j < length xs" for i j
    using assms(1) that by (auto simp: sorted_wrt_iff_nth_less)
  show ?thesis
  proof (cases "cmp (key (xs ! base)) k")
    case Less
    then have lt: "key (xs ! base) < k" by simp
    have i: "i = base + 1"
      using assms(2) unfolding eq Less by simp
    have "key (xs ! j) < k" if "j < i" for j
      using nth [of j base] base(1) lt that i by (cases "j = base") (auto intro: less_trans)
    then show ?thesis
      using base i by auto
  next
    case Equal
    then show ?thesis using assms(2) unfolding eq Equal by simp
  next
    case Greater
    then have gt: "k < key (xs ! base)" by simp
    have i: "i = base"
      using assms(2) unfolding eq Greater by simp
    from gt have "base = 0" using base(3) by fastforce
    moreover have "k < key (xs ! j)" if "j < length xs" for j
      using base(2) [of j] gt that \<open>base = 0\<close> by (cases "j = 0") auto
    ultimately show ?thesis
      using i by simp
  qed
qed (use assms in \<open>simp add: binary_search_by_key_def binary_search_by_def\<close>)

section \<open>Partition points\<close>

text \<open>\<open>partition_point\<close> of the standard library: a binary search for the first element
  that does not satisfy the predicate.\<close>

definition partition_point :: "('a \<Rightarrow> bool) \<Rightarrow> 'a list \<Rightarrow> nat" where
  "partition_point p xs =
    (case binary_search_by (\<lambda>x. if p x then Less else Greater) xs of Inl i \<Rightarrow> i | Inr i \<Rightarrow> i)"

definition partitioned :: "('a \<Rightarrow> bool) \<Rightarrow> 'a list \<Rightarrow> bool" where
  "partitioned p xs \<longleftrightarrow> sorted_wrt (\<lambda>x y. p y \<longrightarrow> p x) xs"

lemma partition_point_unique:
  assumes "k \<le> length xs" "\<forall>j < k. p (xs ! j)" "k < length xs \<longrightarrow> \<not> p (xs ! k)"
  shows "k = length (takeWhile p xs)"
  using assms
proof (induction xs arbitrary: k)
  case (Cons x xs)
  show ?case
  proof (cases k)
    case 0
    then show ?thesis using Cons.prems by simp
  next
    case (Suc m)
    then have "p x" using Cons.prems(2) by auto
    moreover have "m = length (takeWhile p xs)"
    proof (rule Cons.IH)
      show "\<forall>j < m. p (xs ! j)" using Cons.prems(2) Suc by (metis Suc_less_eq nth_Cons_Suc)
    qed (use Cons.prems Suc in auto)
    ultimately show ?thesis using Suc by simp
  qed
qed simp

lemma partition_point_eq:
  assumes "partitioned p xs"
  shows "partition_point p xs = length (takeWhile p xs)"
proof (cases "xs = []")
  case False
  define f where "f = (\<lambda>x. if p x then Less else Greater)"
  define base where "base = search_loop (\<lambda>i. f (xs ! i)) 0 (length xs)"
  have part: "p (xs ! i)" if "i \<le> j" "j < length xs" "p (xs ! j)" for i j
    using assms that by (cases "i = j") (auto simp: partitioned_def sorted_wrt_iff_nth_less le_less)
  have mono: "f (xs ! j) = Greater" if "i \<le> j" "j < length xs" "f (xs ! i) = Greater" for i j
    using part [OF that(1,2)] that(3) by (auto simp: f_def split: if_splits)
  have c: "0 \<le> base \<and> base < 0 + length xs \<and> (\<forall>i. base < i \<longrightarrow> i < 0 + length xs \<longrightarrow> f (xs ! i) = Greater)
      \<and> (f (xs ! 0) \<noteq> Greater \<longrightarrow> f (xs ! base) \<noteq> Greater) \<and> (f (xs ! 0) = Greater \<longrightarrow> base = 0)"
    unfolding base_def
  proof (rule search_loop_correct)
    show "f (xs ! j) = Greater" if "i \<le> j" "j < length xs" "f (xs ! i) = Greater" for i j
      using that by (rule mono)
  qed (use False in simp_all)
  have base: "base < length xs" and above: "\<And>i. base < i \<Longrightarrow> i < length xs \<Longrightarrow> \<not> p (xs ! i)"
    and zero: "\<not> p (xs ! 0) \<Longrightarrow> base = 0" and low: "p (xs ! 0) \<Longrightarrow> p (xs ! base)"
    using c by (auto simp: f_def split: if_splits)
  have eq: "partition_point p xs = (if p (xs ! base) then base + 1 else base)"
    using False by (simp add: partition_point_def binary_search_by_def Let_def flip: f_def base_def)
      (simp add: f_def)
  show ?thesis
  proof (cases "p (xs ! base)")
    case True
    then have "\<forall>j < base + 1. p (xs ! j)"
      using part [of _ base] base by (simp add: less_Suc_eq_le)
    then show ?thesis
      unfolding eq using True base above by (simp, intro partition_point_unique) auto
  next
    case n: False
    then have "base = 0" using zero low by blast
    then show ?thesis
      unfolding eq using n partition_point_unique [of 0 xs p] by simp
  qed
qed (simp add: partition_point_def binary_search_by_def)

end
