(* ===== verification/Ordered_Code.thy ===== *)
theory Ordered_Code
  imports Search
begin

unbundle bit_operations_syntax

text \<open>
  Order-preserving prefix-free byte encodings, the interface between the key
  codecs and the stores that keep keys in byte order: if two values compare equal
  they have the same encoding, and otherwise their encodings are ordered like the
  values whatever follows them.
\<close>

lemma always_less_parallel:
  fixes a b :: "'a :: linorder list"
  assumes "\<And>r s. a @ r < b @ s"
  shows "a \<parallel> b \<and> a < b"
proof -
  have "\<not> prefix a b"
    using assms [of _ "[]"] by (auto simp: prefix_def)
  moreover have "\<not> prefix b a"
    using assms [of "[]"] by (auto simp: prefix_def)
  moreover have "a < b"
    using assms [of "[]" "[]"] by simp
  ultimately show ?thesis by (simp add: parallel_def)
qed

lemma cmp_append_same_length:
  fixes a b :: "'a :: linorder list"
  shows "length a = length b \<Longrightarrow> cmp (a @ r) (b @ s) = then_with (cmp a b) (\<lambda>_. cmp r s)"
  by (cases "cmp a b") (auto simp: cmp_def append_less_append_same_length split: if_splits)

lemma cmp_Cons:
  fixes x y :: "'a :: linorder"
  shows "cmp (x # xs) (y # ys) = then_with (cmp x y) (\<lambda>_. cmp xs ys)"
  by (auto simp: cmp_def)

lemma complement_less:
  fixes a b :: "'a :: len word list"
  assumes "a \<parallel> b" "a < b"
  shows "map (\<lambda>x. NOT x) b @ s < map (\<lambda>x. NOT x) a @ r"
  using assms
proof (induction a arbitrary: b)
  case (Cons x a)
  then show ?case by (cases b) (auto simp: parallel_def not_less_not_iff)
qed (simp add: parallel_def)

locale ordered_code =
  fixes ok :: "'a \<Rightarrow> bool"
    and enc :: "'a \<Rightarrow> bytes"
    and vcmp :: "'a \<Rightarrow> 'a \<Rightarrow> Ordering"
  assumes code_equal: "ok x \<Longrightarrow> ok y \<Longrightarrow> vcmp x y = Equal \<Longrightarrow> enc x = enc y"
    and code_less: "ok x \<Longrightarrow> ok y \<Longrightarrow> vcmp x y = Less \<Longrightarrow> enc x @ r < enc y @ s"
    and code_greater: "ok x \<Longrightarrow> ok y \<Longrightarrow> vcmp x y = Greater \<Longrightarrow> enc y @ s < enc x @ r"
begin

lemma cmp_append:
  assumes "ok x" "ok y"
  shows "cmp (enc x @ r) (enc y @ s) = then_with (vcmp x y) (\<lambda>_. cmp r s)"
proof (cases "vcmp x y")
  case Less
  then show ?thesis using code_less [OF assms] by simp
next
  case Equal
  then show ?thesis using code_equal [OF assms] by (simp add: cmp_def)
next
  case Greater
  then show ?thesis using code_greater [OF assms] by simp
qed

lemma cmp_append_complement:
  assumes "ok x" "ok y"
  shows "cmp (map (\<lambda>b. NOT b) (enc x) @ r) (map (\<lambda>b. NOT b) (enc y) @ s)
    = then_with (reverse (vcmp x y)) (\<lambda>_. cmp r s)"
proof (cases "vcmp x y")
  case Less
  then have "enc x \<parallel> enc y" "enc x < enc y"
    using always_less_parallel code_less [OF assms] by blast+
  then show ?thesis using complement_less Less by simp
next
  case Equal
  then show ?thesis using code_equal [OF assms] by (simp add: cmp_def)
next
  case Greater
  then have "enc y \<parallel> enc x" "enc y < enc x"
    using always_less_parallel code_greater [OF assms] by blast+
  then show ?thesis using complement_less Greater by simp
qed

lemma cmp_enc:
  "ok x \<Longrightarrow> ok y \<Longrightarrow> cmp (enc x) (enc y) = vcmp x y"
  using cmp_append [of x y "[]" "[]"] by (cases "vcmp x y") (simp_all add: cmp_def)

lemma enc_inject:
  "ok x \<Longrightarrow> ok y \<Longrightarrow> enc x = enc y \<longleftrightarrow> vcmp x y = Equal"
  using cmp_enc [of x y] by (metis cmp_iff(2))

end

end
