(* ===== verification/Float64.thy ===== *)
theory Float64
  imports Search
begin

unbundle bit_operations_syntax

text \<open>
  The \<open>f64\<close> type of the sources as its 64-bit pattern, IEEE 754 binary64: sign bit,
  eleven exponent bits, 52 fraction bits.  \<open>f64_scaled\<close> is the value of a pattern
  multiplied by \<open>2 ^ 1074\<close>, which is an integer for every finite value; the two
  infinities get the value their exponent field stands for, beyond every finite
  one, so that the comparison of values is the comparison of these integers.
\<close>

type_synonym f64 = u64

definition f64_sign :: "f64 \<Rightarrow> bool" where
  "f64_sign v \<longleftrightarrow> bit v 63"

definition f64_exponent :: "f64 \<Rightarrow> nat" where
  "f64_exponent v = unat v div 2 ^ 52 mod 2 ^ 11"

definition f64_fraction :: "f64 \<Rightarrow> nat" where
  "f64_fraction v = unat v mod 2 ^ 52"

definition f64_is_nan :: "f64 \<Rightarrow> bool" where
  "f64_is_nan v \<longleftrightarrow> f64_exponent v = 2047 \<and> f64_fraction v \<noteq> 0"

definition f64_is_infinite :: "f64 \<Rightarrow> bool" where
  "f64_is_infinite v \<longleftrightarrow> f64_exponent v = 2047 \<and> f64_fraction v = 0"

definition f64_is_zero :: "f64 \<Rightarrow> bool" where
  "f64_is_zero v \<longleftrightarrow> f64_exponent v = 0 \<and> f64_fraction v = 0"

text \<open>The magnitude of the pattern with the exponent and fraction fields \<open>b\<close>.\<close>

definition scaled_magnitude :: "nat \<Rightarrow> nat" where
  "scaled_magnitude b =
    (if b div 2 ^ 52 = 0 then b mod 2 ^ 52
     else (2 ^ 52 + b mod 2 ^ 52) * 2 ^ (b div 2 ^ 52 - 1))"

definition f64_scaled :: "f64 \<Rightarrow> int" where
  "f64_scaled v =
    (if f64_sign v then - int (scaled_magnitude (unat v mod 2 ^ 63))
     else int (scaled_magnitude (unat v mod 2 ^ 63)))"

text \<open>The order of a sorted column: numbers by value, then every NaN.\<close>

definition f64_total_cmp :: "f64 \<Rightarrow> f64 \<Rightarrow> Ordering" where
  "f64_total_cmp a b =
    (if f64_is_nan a then (if f64_is_nan b then Equal else Greater)
     else if f64_is_nan b then Less
     else cmp (f64_scaled a) (f64_scaled b))"

lemma scaled_magnitude_Suc: "scaled_magnitude b < scaled_magnitude (Suc b)"
proof (cases "Suc (b mod 2 ^ 52) < 2 ^ 52")
  case True
  then have m: "Suc b mod 2 ^ 52 = Suc (b mod 2 ^ 52)"
    by (simp add: mod_Suc)
  then have "Suc b div 2 ^ 52 = b div 2 ^ 52"
    by (simp add: div_Suc)
  with m show ?thesis
    by (simp add: scaled_magnitude_def)
next
  case False
  have "b mod 2 ^ 52 < 2 ^ 52" by simp
  with False have f: "b mod 2 ^ 52 = 2 ^ 52 - 1" by linarith
  then have m: "Suc b mod 2 ^ 52 = 0"
    by (simp add: mod_Suc)
  then have d: "Suc b div 2 ^ 52 = Suc (b div 2 ^ 52)"
    by (simp add: div_Suc)
  show ?thesis
  proof (cases "b div 2 ^ 52")
    case 0
    then show ?thesis
      using f m d by (simp add: scaled_magnitude_def)
  next
    case (Suc e)
    have "scaled_magnitude b = (2 ^ 52 + (2 ^ 52 - 1)) * 2 ^ e"
      by (simp only: scaled_magnitude_def Suc f) simp
    also have "\<dots> < 2 ^ 52 * 2 ^ Suc e"
      by simp
    also have "\<dots> = scaled_magnitude (Suc b)"
      by (simp only: scaled_magnitude_def d m Suc) simp
    finally show ?thesis .
  qed
qed

lemma scaled_magnitude_less_iff: "scaled_magnitude a < scaled_magnitude b \<longleftrightarrow> a < b"
  using strict_mono_less [of scaled_magnitude a b] scaled_magnitude_Suc
  by (simp add: strict_mono_Suc_iff)

lemma scaled_magnitude_eq_iff: "scaled_magnitude a = scaled_magnitude b \<longleftrightarrow> a = b"
  using scaled_magnitude_less_iff by (metis less_irrefl linorder_neqE_nat)

lemma scaled_magnitude_0 [simp]: "scaled_magnitude 0 = 0"
  by (simp add: scaled_magnitude_def)

lemma scaled_magnitude_pos_iff: "0 < scaled_magnitude b \<longleftrightarrow> 0 < b"
  using scaled_magnitude_less_iff [of 0 b] by simp

text \<open>The pattern split into sign and magnitude.\<close>

lemma f64_sign_iff: "f64_sign v \<longleftrightarrow> 2 ^ 63 \<le> unat v"
proof -
  have "bit v 63 \<longleftrightarrow> bit (unat v) 63"
    by (simp add: bit_unsigned_iff)
  also have "\<dots> \<longleftrightarrow> odd (unat v div 2 ^ 63)"
    by (rule bit_iff_odd)
  also have "\<dots> \<longleftrightarrow> 2 ^ 63 \<le> unat v"
  proof (cases "2 ^ 63 \<le> unat v")
    case True
    have "unat v < 2 ^ 64" using unsigned_less [of v, where ?'a = nat] by simp
    with True have "unat v div 2 ^ 63 = 1"
      by (simp add: div_nat_eqI)
    with True show ?thesis by simp
  qed simp
  finally show ?thesis by (simp add: f64_sign_def)
qed

lemma unat_f64: "unat v = (if f64_sign v then 2 ^ 63 else 0) + unat v mod 2 ^ 63"
proof -
  have "unat v < 2 ^ 64" using unsigned_less [of v, where ?'a = nat] by simp
  then show ?thesis
    by (cases "2 ^ 63 \<le> unat v") (simp_all add: f64_sign_iff le_mod_geq)
qed

lemma f64_magnitude: "unat v mod 2 ^ 63 = 2 ^ 52 * f64_exponent v + f64_fraction v"
  using mod_mult2_eq [of "unat v" "2 ^ 52" "2 ^ 11"]
  by (simp add: f64_exponent_def f64_fraction_def)

lemma f64_fields_less: "f64_exponent v < 2 ^ 11" "f64_fraction v < 2 ^ 52"
  by (simp_all add: f64_exponent_def f64_fraction_def)

lemma f64_is_nan_iff: "f64_is_nan v \<longleftrightarrow> 2047 * 2 ^ 52 < unat v mod 2 ^ 63"
  using f64_fields_less [of v] unfolding f64_is_nan_def f64_magnitude by auto

lemma f64_is_zero_iff: "f64_is_zero v \<longleftrightarrow> unat v mod 2 ^ 63 = 0"
  unfolding f64_is_zero_def f64_magnitude by auto

lemma f64_is_zero_scaled: "f64_is_zero v \<longleftrightarrow> f64_scaled v = 0"
  using scaled_magnitude_pos_iff [of "unat v mod 2 ^ 63"]
  by (auto simp: f64_is_zero_iff f64_scaled_def)

text \<open>Comparing values is comparing signs and magnitudes.\<close>

lemma f64_scaled_less_iff:
  "f64_scaled a < f64_scaled b \<longleftrightarrow>
    (if f64_sign a
     then (if f64_sign b then unat b mod 2 ^ 63 < unat a mod 2 ^ 63
           else \<not> (f64_is_zero a \<and> f64_is_zero b))
     else \<not> f64_sign b \<and> unat a mod 2 ^ 63 < unat b mod 2 ^ 63)"
  using scaled_magnitude_less_iff [of "unat a mod 2 ^ 63" "unat b mod 2 ^ 63"]
    scaled_magnitude_less_iff [of "unat b mod 2 ^ 63" "unat a mod 2 ^ 63"]
    scaled_magnitude_pos_iff [of "unat a mod 2 ^ 63"] scaled_magnitude_pos_iff [of "unat b mod 2 ^ 63"]
  unfolding f64_scaled_def f64_is_zero_iff by (auto simp del: mod_greater_zero_iff_not_dvd)

end
