(* ===== verification/Types.thy ===== *)
theory Types
  imports Float64
begin

text \<open>
  Protocol-neutral values, \<open>core/types.rs\<close>.  Signed integers are two's complement
  words, floats bit patterns, text and decimal literals their UTF-8 bytes.
\<close>

datatype DataType =
    TUnknown | TNull | TBoolean | TInt64 | TUInt64 | TFloat64 | TDecimal | TText | TBinary

datatype Value =
    VNull | VBoolean bool | VInt64 u64 | VUInt64 u64 | VFloat64 f64
  | VDecimal bytes | VText bytes | VInvalidText bytes | VBinary bytes

fun data_type :: "Value \<Rightarrow> DataType" where
  "data_type VNull = TNull"
| "data_type (VBoolean _) = TBoolean"
| "data_type (VInt64 _) = TInt64"
| "data_type (VUInt64 _) = TUInt64"
| "data_type (VFloat64 _) = TFloat64"
| "data_type (VDecimal _) = TDecimal"
| "data_type (VText _) = TText"
| "data_type (VInvalidText _) = TText"
| "data_type (VBinary _) = TBinary"

end
