(* ===== verification/Routing.thy ===== *)
theory Routing
  imports Prelude
begin

text \<open>
  Versioned key routing, \<open>core/routing.rs\<close>: the routing catalog loaded from a
  manifest snapshot, the hash of a key (its first eight BLAKE3 digest bytes), the
  virtual bucket of a hash and the generation-one owner of a bucket.  The hash
  function is the parameter \<open>blake3\<close>.  A panic of the source (an index out of
  range, a failed \<open>expect\<close>, a division by zero, an \<open>unreachable!\<close>) is \<open>None\<close>;
  \<open>debug_assert!\<close> is not part of the release behaviour and is collected in
  \<open>validated_parts\<close>, what the storage boundary promises of a catalog.
\<close>

definition HASH_VERSION :: u32 where "HASH_VERSION = 1"
definition KEY_ENCODING_VERSION :: u32 where "KEY_ENCODING_VERSION = 1"
definition BUCKET_ALGORITHM_VERSION :: u32 where "BUCKET_ALGORITHM_VERSION = 1"
definition VIRTUAL_BUCKET_COUNT :: u16 where "VIRTUAL_BUCKET_COUNT = 4096"
definition INITIAL_MAP_GENERATION :: u64 where "INITIAL_MAP_GENERATION = 1"

record RoutingCatalog =
  initial_shard_count :: u16
  hash_version :: u32
  key_encoding_version :: u32
  bucket_algorithm_version :: u32
  map_generation :: u64
  buckets :: "u16 list"

definition from_validated_parts ::
    "u16 \<Rightarrow> u32 \<Rightarrow> u32 \<Rightarrow> u32 \<Rightarrow> u64 \<Rightarrow> u16 list \<Rightarrow> RoutingCatalog" where
  "from_validated_parts n hv kv bv g bs =
    \<lparr>initial_shard_count = n, hash_version = hv, key_encoding_version = kv,
     bucket_algorithm_version = bv, map_generation = g, buckets = bs\<rparr>"

definition validated_parts :: "RoutingCatalog \<Rightarrow> bool" where
  "validated_parts self \<longleftrightarrow>
    2 \<le> initial_shard_count self \<and> initial_shard_count self \<le> 64
    \<and> hash_version self = HASH_VERSION
    \<and> key_encoding_version self = KEY_ENCODING_VERSION
    \<and> bucket_algorithm_version self = BUCKET_ALGORITHM_VERSION
    \<and> map_generation self = INITIAL_MAP_GENERATION
    \<and> length (buckets self) = unat VIRTUAL_BUCKET_COUNT
    \<and> list_all (\<lambda>shard. shard < initial_shard_count self) (buckets self)"

definition hash_for_key :: "(bytes \<Rightarrow> bytes) \<Rightarrow> RoutingCatalog \<Rightarrow> bytes \<Rightarrow> u64 option" where
  "hash_for_key blake3 self key =
    (if key_encoding_version self = KEY_ENCODING_VERSION
      \<and> hash_version self = HASH_VERSION
     then let digest = blake3 key in
       if 8 \<le> length digest then Some (word_of_nat (le_nat (take 8 digest))) else None
     else None)"

definition bucket_for_hash_v1 :: "RoutingCatalog \<Rightarrow> u64 \<Rightarrow> u16 option" where
  "bucket_for_hash_v1 self hash =
    (let shard_count = (ucast (initial_shard_count self) :: u64);
         bucket_count = (ucast VIRTUAL_BUCKET_COUNT :: u64) in
     if shard_count = 0 then None
     else let
       legacy_shard = hash mod shard_count;
       base_size = bucket_count div shard_count;
       wider_shards = bucket_count mod shard_count;
       group_size = base_size + (if legacy_shard < wider_shards then 1 else 0);
       offset = legacy_shard * base_size + min legacy_shard wider_shards in
     if group_size = 0 then None
     else let bucket = offset + (hash div shard_count) mod group_size in
       if bucket \<le> 0xFFFF then Some (ucast bucket) else None)"

definition bucket_for_hash :: "RoutingCatalog \<Rightarrow> u64 \<Rightarrow> u16 option" where
  "bucket_for_hash self hash =
    (if bucket_algorithm_version self = BUCKET_ALGORITHM_VERSION
     then bucket_for_hash_v1 self hash else None)"

definition bucket_for_key :: "(bytes \<Rightarrow> bytes) \<Rightarrow> RoutingCatalog \<Rightarrow> bytes \<Rightarrow> u16 option" where
  "bucket_for_key blake3 self key =
    Option.bind (hash_for_key blake3 self key) (bucket_for_hash self)"

definition shard_for_key :: "(bytes \<Rightarrow> bytes) \<Rightarrow> RoutingCatalog \<Rightarrow> bytes \<Rightarrow> u16 option" where
  "shard_for_key blake3 self key =
    Option.bind (bucket_for_key blake3 self key)
      (\<lambda>bucket. if unat bucket < length (buckets self)
        then Some (buckets self ! unat bucket) else None)"

definition initial_physical_shard :: "u16 \<Rightarrow> u16 \<Rightarrow> u16 option" where
  "initial_physical_shard bucket_id shard_count16 =
    (let bucket_count = (ucast VIRTUAL_BUCKET_COUNT :: u32);
         shard_count = (ucast shard_count16 :: u32);
         bucket_id = (ucast bucket_id :: u32) in
     if shard_count = 0 then None
     else let
       base_size = bucket_count div shard_count;
       wider_shards = bucket_count mod shard_count;
       wider_span = (base_size + 1) * wider_shards in
     if bucket_id \<ge> wider_span \<and> base_size = 0 then None
     else let
       shard = (if bucket_id < wider_span then bucket_id div (base_size + 1)
                else wider_shards + (bucket_id - wider_span) div base_size) in
       if shard \<le> 0xFFFF then Some (ucast shard) else None)"

lemmas routing_consts = HASH_VERSION_def KEY_ENCODING_VERSION_def BUCKET_ALGORITHM_VERSION_def
  VIRTUAL_BUCKET_COUNT_def INITIAL_MAP_GENERATION_def

section \<open>The arithmetic of the bucket layout\<close>

definition group_of :: "nat \<Rightarrow> nat \<Rightarrow> nat" where
  "group_of n s = 4096 div n + (if s < 4096 mod n then 1 else 0)"

definition offset_of :: "nat \<Rightarrow> nat \<Rightarrow> nat" where
  "offset_of n s = s * (4096 div n) + min s (4096 mod n)"

definition bucket_of :: "nat \<Rightarrow> nat \<Rightarrow> nat" where
  "bucket_of n h = offset_of n (h mod n) + (h div n) mod group_of n (h mod n)"

definition owner_of :: "nat \<Rightarrow> nat \<Rightarrow> nat" where
  "owner_of n b =
    (let base = 4096 div n; w = 4096 mod n; span = (base + 1) * w in
     if b < span then b div (base + 1) else w + (b - span) div base)"

lemma group_of_pos: "0 < n \<Longrightarrow> n \<le> 4096 \<Longrightarrow> 0 < group_of n s"
  by (simp add: group_of_def div_greater_zero_iff)

lemma offset_Suc: "offset_of n (Suc s) = offset_of n s + group_of n s"
  by (simp add: offset_of_def group_of_def)

lemma offset_mono: "s \<le> t \<Longrightarrow> offset_of n s \<le> offset_of n t"
  by (simp add: offset_of_def add_mono min.coboundedI1 min.mono)

lemma offset_end: "0 < n \<Longrightarrow> offset_of n n = 4096"
  by (simp add: offset_of_def min.absorb2 less_imp_le)

lemma owner_of_slot:
  assumes n: "0 < n" "n \<le> 4096" and s: "s < n" and r: "r < group_of n s"
  shows "owner_of n (offset_of n s + r) = s"
proof (cases "s < 4096 mod n")
  case True
  then have off: "offset_of n s = s * (4096 div n + 1)"
    by (simp add: offset_of_def)
  have r': "r < 4096 div n + 1"
    using r True by (simp add: group_of_def)
  have "offset_of n s + r < (s + 1) * (4096 div n + 1)"
    using off r' by simp
  also have "\<dots> \<le> (4096 div n + 1) * (4096 mod n)"
    using True by (metis Suc_eq_plus1 Suc_leI mult.commute mult_le_mono2)
  finally have "offset_of n s + r < (4096 div n + 1) * (4096 mod n)" .
  moreover have "(offset_of n s + r) div (4096 div n + 1) = s"
    unfolding off using r' by (simp del: mult_Suc_right add: div_add1_eq)
  ultimately show ?thesis
    by (simp add: owner_of_def Let_def)
next
  case False
  let ?base = "4096 div n" and ?w = "4096 mod n"
  have base: "0 < ?base"
    using n by (simp add: div_greater_zero_iff)
  have r': "r < ?base"
    using r False by (simp add: group_of_def)
  obtain d where d: "s = ?w + d"
    using False by (metis le_Suc_ex not_less)
  have off: "offset_of n s = (?base + 1) * ?w + d * ?base"
    using d by (simp add: offset_of_def algebra_simps)
  then have "(offset_of n s + r - (?base + 1) * ?w) div ?base = d"
    using r' base by simp
  then show ?thesis
    using off d by (simp add: owner_of_def Let_def)
qed

lemma slot_exists:
  assumes "0 < n" "n \<le> 4096" "b < 4096"
  shows "\<exists>s r. s < n \<and> r < group_of n s \<and> b = offset_of n s + r"
proof -
  have "\<exists>s < n. offset_of n s \<le> b \<and> b < offset_of n (Suc s)"
  proof (rule ccontr)
    assume no: "\<not> ?thesis"
    have "offset_of n s \<le> b" if "s \<le> n" for s
      using that
    proof (induction s)
      case 0
      then show ?case by (simp add: offset_of_def)
    next
      case (Suc s)
      then show ?case using no by (meson Suc_leD Suc_le_lessD not_less)
    qed
    from this [of n] show False
      using assms offset_end by simp
  qed
  then obtain s where "s < n" "offset_of n s \<le> b" "b < offset_of n s + group_of n s"
    by (auto simp: offset_Suc)
  then show ?thesis
    by (intro exI [of _ s] exI [of _ "b - offset_of n s"]) auto
qed

lemma bucket_of_less:
  assumes "0 < n" "n \<le> 4096"
  shows "bucket_of n h < 4096"
proof -
  have "bucket_of n h < offset_of n (Suc (h mod n))"
    unfolding bucket_of_def offset_Suc
    using group_of_pos [OF assms] by simp
  also have "\<dots> \<le> offset_of n n"
    using assms by (intro offset_mono) (simp add: Suc_leI)
  finally show ?thesis using offset_end assms by simp
qed

lemma owner_of_bucket_of:
  assumes "0 < n" "n \<le> 4096"
  shows "owner_of n (bucket_of n h) = h mod n"
  unfolding bucket_of_def
  using assms group_of_pos [OF assms] by (intro owner_of_slot) auto

lemma owner_of_less:
  assumes "0 < n" "n \<le> 4096" "b < 4096"
  shows "owner_of n b < n"
  using slot_exists [OF assms] owner_of_slot assms by metis

lemma bucket_of_surj:
  assumes "0 < n" "n \<le> 4096" "b < 4096"
  shows "\<exists>h < 4096 * n. bucket_of n h = b"
proof -
  obtain s r where sr: "s < n" "r < group_of n s" "b = offset_of n s + r"
    using slot_exists [OF assms] by blast
  have "offset_of n s + r < 4096"
    using sr assms by simp
  then have "r < 4096" by simp
  have "r * n + s < Suc r * n"
    using \<open>s < n\<close> by simp
  also have "\<dots> \<le> 4096 * n"
    using \<open>r < 4096\<close> by (intro mult_le_mono1) simp
  finally have "r * n + s < 4096 * n" .
  moreover have "bucket_of n (r * n + s) = b"
    using sr by (simp add: bucket_of_def)
  ultimately show ?thesis by blast
qed

lemma buckets_of_owner:
  assumes "0 < n" "n \<le> 4096" "s < n"
  shows "{b. b < 4096 \<and> owner_of n b = s} = {offset_of n s ..< offset_of n s + group_of n s}"
proof (intro set_eqI iffI)
  fix b
  assume "b \<in> {b. b < 4096 \<and> owner_of n b = s}"
  then have b: "b < 4096" "owner_of n b = s" by auto
  obtain t r where "t < n" "r < group_of n t" "b = offset_of n t + r"
    using slot_exists [OF assms(1,2) b(1)] by blast
  moreover from this have "t = s"
    using owner_of_slot [OF assms(1,2)] b(2) by simp
  ultimately show "b \<in> {offset_of n s ..< offset_of n s + group_of n s}" by simp
next
  fix b
  assume b: "b \<in> {offset_of n s ..< offset_of n s + group_of n s}"
  then have "owner_of n b = s"
    using owner_of_slot [OF assms, of "b - offset_of n s"] by auto
  moreover have "offset_of n s + group_of n s \<le> 4096"
    using offset_mono [of "Suc s" n n] assms offset_end [of n] by (simp add: offset_Suc Suc_leI)
  ultimately show "b \<in> {b. b < 4096 \<and> owner_of n b = s}"
    using b by auto
qed

section \<open>The word arithmetic computes the layout\<close>

lemma shard_count_bounds:
  assumes "2 \<le> (k :: u16)" "k \<le> 64"
  shows "0 < unat k" "unat k \<le> 64" "unat k \<le> 4096"
  using assms by (simp_all add: word_le_nat_alt)

lemma ucast_4096: "(ucast (4096 :: u16) :: u64) = 4096" "(ucast (4096 :: u16) :: u32) = 4096"
  by simp_all

lemma bucket_for_hash_v1_eq:
  assumes "2 \<le> initial_shard_count self" "initial_shard_count self \<le> 64"
  shows "bucket_for_hash_v1 self hash
    = Some (word_of_nat (bucket_of (unat (initial_shard_count self)) (unat hash)))"
proof -
  define n where "n = unat (initial_shard_count self)"
  define sc where "sc = (ucast (initial_shard_count self) :: u64)"
  note n = shard_count_bounds [OF assms, folded n_def]
  have sc: "unat sc = n"
    by (simp add: sc_def n_def)
  have small: "x < 2 ^ LENGTH(64)" if "x \<le> 4096" for x :: nat
    using that by simp
  have base_le: "4096 div n \<le> 4096" by simp
  have lt: "unat hash mod n < n" "4096 mod n < n" using n by simp_all
  have legacy: "hash mod sc = word_of_nat (unat hash mod n)"
    by (simp add: word_arith_nat_mod sc)
  have base: "4096 div sc = word_of_nat (4096 div n)" "4096 mod sc = word_of_nat (4096 mod n)"
    by (simp_all add: word_arith_nat_div word_arith_nat_mod sc)
  have ul: "unat (word_of_nat (unat hash mod n) :: u64) = unat hash mod n"
      "unat (word_of_nat (4096 mod n) :: u64) = 4096 mod n"
    using n by (auto intro!: unat_of_nat_eq less_trans [OF lt(1)] less_trans [OF lt(2)])
  have less: "(word_of_nat (unat hash mod n) :: u64) < word_of_nat (4096 mod n)
      \<longleftrightarrow> unat hash mod n < 4096 mod n"
    by (simp add: word_less_nat_alt ul)
  have min: "min (word_of_nat (unat hash mod n) :: u64) (word_of_nat (4096 mod n))
      = word_of_nat (min (unat hash mod n) (4096 mod n))"
    by (simp add: min_def word_le_nat_alt ul)
  have group: "word_of_nat (4096 div n)
      + (if unat hash mod n < 4096 mod n then 1 else (0 :: u64))
      = word_of_nat (group_of n (unat hash mod n))"
    by (simp add: group_of_def)
  have g: "0 < group_of n (unat hash mod n)" "group_of n (unat hash mod n) \<le> 4097"
    using group_of_pos [of n] n add_mono [OF base_le, of _ 1] by (simp_all add: group_of_def)
  then have gu: "unat (word_of_nat (group_of n (unat hash mod n)) :: u64)
      = group_of n (unat hash mod n)"
    by (simp add: unat_of_nat_eq)
  have total: "word_of_nat (unat hash mod n) * word_of_nat (4096 div n)
      + word_of_nat (min (unat hash mod n) (4096 mod n))
      + (hash div sc) mod word_of_nat (group_of n (unat hash mod n))
      = (word_of_nat (bucket_of n (unat hash)) :: u64)"
    using gu n by (simp add: bucket_of_def offset_of_def word_arith_nat_mod [of "hash div sc"]
        unat_div sc)
  have b: "bucket_of n (unat hash) < 4096"
    using bucket_of_less n by simp
  have "sc \<noteq> 0" using sc n by (metis less_irrefl unat_0)
  moreover have "word_of_nat (group_of n (unat hash mod n)) \<noteq> (0 :: u64)"
    using gu g by (metis less_irrefl unat_0)
  moreover have "word_of_nat (bucket_of n (unat hash)) \<le> (0xFFFF :: u64)"
    using b by (simp add: word_le_nat_alt unat_of_nat_eq)
  moreover have "ucast (word_of_nat (bucket_of n (unat hash)) :: u64)
      = (word_of_nat (bucket_of n (unat hash)) :: u16)"
    using b by (intro word_unat_eq_iff [THEN iffD2])
      (simp add: unsigned_ucast_eq unat_of_nat_eq take_bit_nat_eq_self)
  ultimately show ?thesis
    unfolding bucket_for_hash_v1_def Let_def VIRTUAL_BUCKET_COUNT_def
    by (simp only: ucast_4096 sc_def [symmetric] n_def [symmetric] legacy base less min group total
        if_False if_True simp_thms)
qed

lemma initial_physical_shard_eq:
  assumes "2 \<le> k" "k \<le> 64" "b < 4096"
  shows "initial_physical_shard b k = Some (word_of_nat (owner_of (unat k) (unat b)))"
proof -
  define n where "n = unat k"
  define sc where "sc = (ucast k :: u32)"
  define bk where "bk = (ucast b :: u32)"
  define base where "base = 4096 div n"
  define w where "w = 4096 mod n"
  define span where "span = (base + 1) * w"
  note n = shard_count_bounds [OF assms(1,2), folded n_def]
  have sc: "unat sc = n" and bk: "unat bk = unat b"
    by (simp_all add: sc_def bk_def n_def)
  have b: "unat b < 4096" using assms by (simp add: word_less_nat_alt)
  have bounds: "0 < base" "base \<le> 4096" "w \<le> 64"
    using n less_le_trans [OF mod_less_divisor n(2), of 4096]
    by (simp_all add: base_def w_def div_greater_zero_iff)
  have div: "4096 div sc = word_of_nat base" "4096 mod sc = word_of_nat w"
    by (simp_all add: word_arith_nat_div word_arith_nat_mod sc base_def w_def)
  have "span \<le> 4097 * 64"
    unfolding span_def using bounds by (intro mult_le_mono) auto
  then have uspan: "unat (word_of_nat span :: u32) = span"
    by (intro unat_of_nat_eq) simp
  have span: "(word_of_nat base + 1) * word_of_nat w = (word_of_nat span :: u32)"
    by (simp add: span_def algebra_simps)
  have ubase: "unat (word_of_nat base :: u32) = base"
    using bounds by (intro unat_of_nat_eq) simp
  have "word_of_nat base + 1 = (word_of_nat (base + 1) :: u32)"
    by simp
  moreover have "unat (word_of_nat (base + 1) :: u32) = base + 1"
    using bounds by (intro unat_of_nat_eq) simp
  ultimately have ubase1: "unat (word_of_nat base + 1 :: u32) = base + 1"
    by (simp only:)
  have less: "bk < word_of_nat span \<longleftrightarrow> unat b < span"
    using uspan bk by (simp add: word_less_nat_alt)
  have lo: "bk div (word_of_nat base + 1) = word_of_nat (unat b div (base + 1))"
    by (simp only: word_arith_nat_div bk ubase1)
  have hi: "word_of_nat w + (bk - word_of_nat span) div word_of_nat base
      = word_of_nat (w + (unat b - span) div base)" if "\<not> unat b < span"
  proof -
    have "unat (bk - word_of_nat span) = unat b - span"
      using that bk uspan by (subst unat_sub) (simp_all add: word_le_nat_alt)
    then show ?thesis
      by (simp add: word_arith_nat_div ubase)
  qed
  have base0: "word_of_nat base \<noteq> (0 :: u32)"
    using ubase bounds by (metis less_irrefl unat_0)
  have shard: "(if bk < word_of_nat span then bk div (word_of_nat base + 1)
      else word_of_nat w + (bk - word_of_nat span) div word_of_nat base)
      = word_of_nat (owner_of n (unat b))"
    unfolding owner_of_def Let_def base_def [symmetric] w_def [symmetric] span_def [symmetric]
    using less lo hi by (simp del: of_nat_add)
  have o: "owner_of n (unat b) < 64"
    using owner_of_less [of n "unat b"] n b by simp
  then have "word_of_nat (owner_of n (unat b)) \<le> (0xFFFF :: u32)"
    by (simp add: word_le_nat_alt unat_of_nat_eq)
  moreover have "ucast (word_of_nat (owner_of n (unat b)) :: u32)
      = (word_of_nat (owner_of n (unat b)) :: u16)"
    using o by (intro word_unat_eq_iff [THEN iffD2])
      (simp add: unsigned_ucast_eq unat_of_nat_eq take_bit_nat_eq_self)
  moreover have "sc \<noteq> 0" using sc n by (metis less_irrefl unat_0)
  ultimately show ?thesis
    unfolding initial_physical_shard_def Let_def VIRTUAL_BUCKET_COUNT_def
    by (simp only: ucast_4096 sc_def [symmetric] bk_def [symmetric] n_def [symmetric]
        div span shard base0 simp_thms if_False if_True)
qed

section \<open>Routing with the generation-one map\<close>

definition generation_one_buckets :: "u16 \<Rightarrow> u16 list" where
  "generation_one_buckets n = map (\<lambda>b. word_of_nat (owner_of (unat n) b)) [0..<4096]"

definition generation_one :: "RoutingCatalog \<Rightarrow> bool" where
  "generation_one self \<longleftrightarrow>
    validated_parts self \<and> buckets self = generation_one_buckets (initial_shard_count self)"

lemma hash_for_key_eq:
  assumes "validated_parts self" "digest_32 blake3"
  shows "hash_for_key blake3 self key = Some (word_of_nat (le_nat (take 8 (blake3 key))))"
  using assms by (simp add: hash_for_key_def validated_parts_def digest_32_def Let_def)

lemma unat_hash:
  "digest_32 blake3 \<Longrightarrow>
    unat (word_of_nat (le_nat (take 8 (blake3 key))) :: u64) = le_nat (take 8 (blake3 key))"
  using le_nat_less [of "take 8 (blake3 key)"]
  by (intro unat_of_nat_eq) (simp add: digest_32_def)

lemma bucket_for_key_eq:
  assumes "validated_parts self" "digest_32 blake3"
  shows "bucket_for_key blake3 self key =
    Some (word_of_nat (bucket_of (unat (initial_shard_count self)) (le_nat (take 8 (blake3 key)))))"
  using assms bucket_for_hash_v1_eq [of self] unat_hash
  by (simp add: bucket_for_key_def hash_for_key_eq bucket_for_hash_def validated_parts_def)

lemma shard_for_key_in_range:
  assumes "validated_parts self" "digest_32 blake3"
  shows "\<exists>shard. shard_for_key blake3 self key = Some shard \<and> shard < initial_shard_count self"
proof -
  define b where "b = bucket_of (unat (initial_shard_count self)) (le_nat (take 8 (blake3 key)))"
  have bounds: "2 \<le> initial_shard_count self" "initial_shard_count self \<le> 64"
    and len: "length (buckets self) = 4096"
    and all: "list_all (\<lambda>s. s < initial_shard_count self) (buckets self)"
    using assms by (simp_all add: validated_parts_def VIRTUAL_BUCKET_COUNT_def)
  have "b < 4096"
    unfolding b_def using shard_count_bounds [OF bounds] by (intro bucket_of_less)
  then have "unat (word_of_nat b :: u16) = b"
    by (intro unat_of_nat_eq) simp
  moreover have "buckets self ! b < initial_shard_count self"
    using all \<open>b < 4096\<close> len by (simp add: list_all_length)
  ultimately show ?thesis
    using \<open>b < 4096\<close> len bucket_for_key_eq [OF assms, of key, folded b_def]
    by (simp add: shard_for_key_def)
qed

lemma shard_for_key_generation_one:
  assumes "generation_one self" "digest_32 blake3"
  shows "shard_for_key blake3 self key =
    Some (word_of_nat (le_nat (take 8 (blake3 key)) mod unat (initial_shard_count self)))"
proof -
  define n where "n = unat (initial_shard_count self)"
  define h where "h = le_nat (take 8 (blake3 key))"
  have v: "validated_parts self" and bs: "buckets self = generation_one_buckets (initial_shard_count self)"
    using assms by (simp_all add: generation_one_def)
  have n: "0 < n" "n \<le> 4096"
    using v shard_count_bounds unfolding n_def validated_parts_def by blast+
  have b: "bucket_of n h < 4096"
    by (rule bucket_of_less [OF n])
  then have "unat (word_of_nat (bucket_of n h) :: u16) = bucket_of n h"
    by (intro unat_of_nat_eq) simp
  with b have "shard_for_key blake3 self key = Some (word_of_nat (owner_of n (bucket_of n h)))"
    using bucket_for_key_eq [OF v assms(2), of key, folded n_def h_def] bs
    by (simp add: shard_for_key_def generation_one_buckets_def n_def [symmetric])
  then show ?thesis
    using owner_of_bucket_of [OF n] by (simp add: n_def h_def)
qed

section \<open>Properties\<close>

lemma initial_physical_shard_unat:
  assumes "2 \<le> n" "n \<le> 64" "b < 4096"
  shows "initial_physical_shard b n = Some s \<longleftrightarrow> owner_of (unat n) (unat b) = unat s"
proof -
  have "owner_of (unat n) (unat b) < unat n"
    using shard_count_bounds [OF assms(1,2)] assms(3)
    by (intro owner_of_less) (simp_all add: word_less_nat_alt)
  then have "owner_of (unat n) (unat b) < 2 ^ LENGTH(16)"
    using shard_count_bounds(2) [OF assms(1,2)] by simp
  then have "unat (word_of_nat (owner_of (unat n) (unat b)) :: u16) = owner_of (unat n) (unat b)"
    by (rule unat_of_nat_eq)
  then show ?thesis
    using initial_physical_shard_eq [OF assms] by (auto simp: word_unat_eq_iff)
qed

text \<open>C25: Generation-one buckets are spread evenly: shard \<open>s\<close> of \<open>n\<close> owns
  4096 / n of the 4096 virtual buckets, one more for the first 4096 mod n shards.\<close>

theorem initial_physical_shard_balanced:
  assumes "2 \<le> n" "n \<le> 64" "s < n"
  shows "card {b. b < VIRTUAL_BUCKET_COUNT \<and> initial_physical_shard b n = Some s}
    = 4096 div unat n + (if unat s < 4096 mod unat n then 1 else 0)"
proof -
  let ?A = "{b. b < VIRTUAL_BUCKET_COUNT \<and> initial_physical_shard b n = Some s}"
  let ?B = "{x. x < 4096 \<and> owner_of (unat n) x = unat s}"
  have "unat ` ?A = ?B"
  proof (intro set_eqI iffI)
    fix x assume x: "x \<in> ?B"
    then have "unat (word_of_nat x :: u16) = x"
      by (intro unat_of_nat_eq) simp
    with x show "x \<in> unat ` ?A"
      using initial_physical_shard_unat [OF assms(1,2), of "word_of_nat x" s]
      by (intro image_eqI [of _ _ "word_of_nat x"])
        (simp_all add: VIRTUAL_BUCKET_COUNT_def word_less_nat_alt)
  qed (use initial_physical_shard_unat [OF assms(1,2)] in
      \<open>auto simp: VIRTUAL_BUCKET_COUNT_def word_less_nat_alt\<close>)
  moreover have "inj_on unat ?A"
    by (rule inj_onI) (simp add: word_unat_eq_iff)
  ultimately have "card ?A = card ?B"
    using card_image [of unat ?A] by simp
  also have "\<dots> = group_of (unat n) (unat s)"
    using buckets_of_owner [OF shard_count_bounds(1,3) [OF assms(1,2)], of "unat s"] assms(3)
    by (simp add: word_less_nat_alt)
  finally show ?thesis
    by (simp add: group_of_def)
qed

theorem initial_physical_shard_balanced_witness:
  "card {b. b < VIRTUAL_BUCKET_COUNT \<and> initial_physical_shard b 3 = Some 0} = 1366"
  using initial_physical_shard_balanced [of 3 0] by simp

text \<open>C26: In a validated catalog the bucket of every hash is computed without a panic
  and lies below 4096, and every virtual bucket is the bucket of some hash.\<close>

theorem bucket_for_hash_total_onto:
  assumes "validated_parts self" "b < VIRTUAL_BUCKET_COUNT"
  shows "(\<exists>bucket. bucket_for_hash self hash = Some bucket \<and> bucket < VIRTUAL_BUCKET_COUNT)
    \<and> (\<exists>hash'. bucket_for_hash self hash' = Some b)"
proof -
  define n where "n = unat (initial_shard_count self)"
  have bounds: "2 \<le> initial_shard_count self" "initial_shard_count self \<le> 64"
    using assms by (simp_all add: validated_parts_def)
  have n: "0 < n" "n \<le> 4096" "n \<le> 64"
    using shard_count_bounds [OF bounds] by (simp_all add: n_def)
  have eq: "bucket_for_hash self h = Some (word_of_nat (bucket_of n (unat h)))" for h
    using assms bucket_for_hash_v1_eq [OF bounds]
    by (simp add: bucket_for_hash_def validated_parts_def n_def)
  have "bucket_of n (unat hash) < 4096"
    by (rule bucket_of_less [OF n(1,2)])
  then have "(word_of_nat (bucket_of n (unat hash)) :: u16) < VIRTUAL_BUCKET_COUNT"
    by (simp add: VIRTUAL_BUCKET_COUNT_def word_less_nat_alt unat_of_nat_eq)
  moreover obtain h where h: "h < 4096 * n" "bucket_of n h = unat b"
    using bucket_of_surj [OF n(1,2), of "unat b"] assms(2)
    by (auto simp: VIRTUAL_BUCKET_COUNT_def word_less_nat_alt)
  moreover have "unat (word_of_nat h :: u64) = h"
    using h(1) n(3) by (intro unat_of_nat_eq) simp
  ultimately show ?thesis
    using eq [of "word_of_nat h"] eq [of hash] by auto
qed

theorem bucket_for_hash_total_onto_witness:
  "let self = from_validated_parts 2 1 1 1 1 (replicate 4096 0) in
    (\<exists>bucket. bucket_for_hash self 77 = Some bucket \<and> bucket < VIRTUAL_BUCKET_COUNT)
    \<and> (\<exists>hash'. bucket_for_hash self hash' = Some 4095)"
  unfolding Let_def
  by (rule bucket_for_hash_total_onto)
    (simp_all add: validated_parts_def from_validated_parts_def routing_consts list_all_iff)

end
