(* ===== verification/Manifest_Routing.thy ===== *)
theory Manifest_Routing
  imports Routing
begin

text \<open>
  The routing part of the manifest, \<open>storage/manifest.rs\<close>: the rows of the five
  tables that carry the routing state, the migration that writes them and the
  validation that turns them into a \<open>RoutingCatalog\<close> at startup.  A table is
  the list of its rows in the order of its primary key, so that a \<open>SELECT ...
  ORDER BY key LIMIT l\<close> is \<open>take l\<close>; SQLite integers are \<open>int\<close>.  The checks of
  table shapes and failures of SQLite itself are outside the model.
\<close>

record RoutingConfiguration =
  cfg_hash_version :: u32
  cfg_key_encoding_version :: u32
  cfg_bucket_algorithm_version :: u32
  cfg_map_generation :: u64

record ManifestRows =
  briskdb_manifest :: "(int \<times> int) list"
  briskdb_metadata :: "int list"
  briskdb_routing :: "(int \<times> int \<times> int \<times> int \<times> int \<times> int) list"
  briskdb_physical_shards :: "(int \<times> string) list"
  briskdb_virtual_buckets :: "(int \<times> int) list"

definition ACTIVE_LIFECYCLE_STATE :: string where
  "ACTIVE_LIFECYCLE_STATE = ''active''"

definition V3_SCHEMA_VERSION :: int where
  "V3_SCHEMA_VERSION = 3"

text \<open>\<open>u16::try_from\<close> and \<open>u64::try_from\<close> of an SQLite integer.\<close>

definition u16_try_from :: "int \<Rightarrow> u16 option" where
  "u16_try_from i = (if 0 \<le> i \<and> i < 2 ^ 16 then Some (word_of_int i) else None)"

definition u64_try_from :: "int \<Rightarrow> u64 option" where
  "u64_try_from i = (if 0 \<le> i \<and> i < 2 ^ 64 then Some (word_of_int i) else None)"

definition validate_shard_range :: "u16 \<Rightarrow> unit EngineResult" where
  "validate_shard_range shard_count = check_that (2 \<le> shard_count \<and> shard_count \<le> 64) DataCorruption"

definition ensure_requested_shards :: "u16 \<Rightarrow> u16 \<Rightarrow> unit EngineResult" where
  "ensure_requested_shards stored requested = check_that (stored = requested) FailedPrecondition"

definition read_manifest_shard_count :: "ManifestRows \<Rightarrow> u16 EngineResult" where
  "read_manifest_shard_count m =
    (case take 3 (briskdb_manifest m) of
       [(singleton, count)] \<Rightarrow>
         if singleton \<noteq> 1 then Inl DataCorruption
         else (case u16_try_from count of
             None \<Rightarrow> Inl DataCorruption
           | Some shard_count \<Rightarrow>
               and_then (validate_shard_range shard_count) (\<lambda>_. Inr shard_count))
     | _ \<Rightarrow> Inl DataCorruption)"

definition validate_manifest_configuration :: "ManifestRows \<Rightarrow> u16 \<Rightarrow> u16 EngineResult" where
  "validate_manifest_configuration m requested_shards =
    and_then (read_manifest_shard_count m) (\<lambda>shard_count.
    and_then (ensure_requested_shards shard_count requested_shards) (\<lambda>_.
    Inr shard_count))"

definition validate_downgrade_fence :: "ManifestRows \<Rightarrow> int \<Rightarrow> unit EngineResult" where
  "validate_downgrade_fence m expected_version =
    check_that (take 3 (briskdb_metadata m) = [expected_version]) DataCorruption"

definition validate_routing_configuration :: "ManifestRows \<Rightarrow> RoutingConfiguration EngineResult" where
  "validate_routing_configuration m =
    (case take 3 (briskdb_routing m) of
       [(singleton, hv, kv, bv, bucket_count, generation)] \<Rightarrow>
         and_then (check_that (singleton = 1) DataCorruption) (\<lambda>_.
         and_then (check_that (hv = uint HASH_VERSION) DataCorruption) (\<lambda>_.
         and_then (check_that (kv = uint KEY_ENCODING_VERSION) DataCorruption) (\<lambda>_.
         and_then (check_that (bv = uint BUCKET_ALGORITHM_VERSION) DataCorruption) (\<lambda>_.
         and_then (check_that (bucket_count = uint VIRTUAL_BUCKET_COUNT) DataCorruption) (\<lambda>_.
         (case u64_try_from generation of
            None \<Rightarrow> Inl DataCorruption
          | Some generation' \<Rightarrow>
              and_then (check_that (generation' = INITIAL_MAP_GENERATION) DataCorruption) (\<lambda>_.
              Inr \<lparr>cfg_hash_version = HASH_VERSION,
                   cfg_key_encoding_version = KEY_ENCODING_VERSION,
                   cfg_bucket_algorithm_version = BUCKET_ALGORITHM_VERSION,
                   cfg_map_generation = generation'\<rparr>)))))))
     | _ \<Rightarrow> Inl DataCorruption)"

definition validate_physical_shards :: "ManifestRows \<Rightarrow> u16 \<Rightarrow> unit EngineResult" where
  "validate_physical_shards m shard_count =
    (let rows = take 65 (briskdb_physical_shards m) in
     and_then (check_that (length rows = unat shard_count) DataCorruption) (\<lambda>_.
     and_then (try_map (\<lambda>(expected, stored, state).
         and_then (check_that (stored = int expected) DataCorruption) (\<lambda>_.
           check_that (state = ACTIVE_LIFECYCLE_STATE) DataCorruption))
       (zip [0..<unat shard_count] rows)) (\<lambda>_. Inr ())))"

text \<open>The loop over the bucket rows; \<open>assignments\<close> counts the buckets of each
  shard.  The shard count has been validated before, so that the generation-one
  owner is defined.\<close>

fun validate_bucket_rows ::
    "u16 \<Rightarrow> (nat \<times> int \<times> int) list \<Rightarrow> nat list \<Rightarrow> u16 list \<Rightarrow> (nat list \<times> u16 list) EngineResult" where
  "validate_bucket_rows shard_count [] assignments acc = Inr (assignments, acc)"
| "validate_bucket_rows shard_count ((expected, stored_bucket, stored) # rows) assignments acc =
    (if stored_bucket \<noteq> int expected then Inl DataCorruption
     else case u16_try_from stored of
       None \<Rightarrow> Inl DataCorruption
     | Some stored_shard \<Rightarrow>
         if stored_shard \<ge> shard_count then Inl DataCorruption
         else if Some stored_shard \<noteq> initial_physical_shard (word_of_nat expected) shard_count
         then Inl DataCorruption
         else validate_bucket_rows shard_count rows
           (assignments[unat stored_shard := Suc (assignments ! unat stored_shard)])
           (acc @ [stored_shard]))"

definition validate_virtual_buckets :: "ManifestRows \<Rightarrow> u16 \<Rightarrow> u16 list EngineResult" where
  "validate_virtual_buckets m shard_count =
    (let rows = take 4097 (briskdb_virtual_buckets m) in
     and_then (check_that (length rows = unat VIRTUAL_BUCKET_COUNT) DataCorruption) (\<lambda>_.
     and_then (validate_bucket_rows shard_count (zip [0..<unat VIRTUAL_BUCKET_COUNT] rows)
        (replicate (unat shard_count) 0) []) (\<lambda>(assignments, buckets).
     and_then (check_that (\<not> list_ex (\<lambda>count. count = 0) assignments) DataCorruption) (\<lambda>_.
     Inr buckets))))"

definition validate_routing_manifest ::
    "ManifestRows \<Rightarrow> u16 \<Rightarrow> int \<Rightarrow> (u16 \<times> RoutingCatalog) EngineResult" where
  "validate_routing_manifest m requested_shards expected_version =
    and_then (validate_manifest_configuration m requested_shards) (\<lambda>shard_count.
    and_then (validate_downgrade_fence m expected_version) (\<lambda>_.
    and_then (validate_routing_configuration m) (\<lambda>routing.
    and_then (validate_physical_shards m shard_count) (\<lambda>_.
    and_then (validate_virtual_buckets m shard_count) (\<lambda>buckets.
    Inr (shard_count, from_validated_parts shard_count (cfg_hash_version routing)
      (cfg_key_encoding_version routing) (cfg_bucket_algorithm_version routing)
      (cfg_map_generation routing) buckets))))))"

text \<open>The rows the version 3 migration writes; \<open>None\<close> where the bucket owner panics.\<close>

definition initial_bucket_row :: "u16 \<Rightarrow> nat \<Rightarrow> (int \<times> int) option" where
  "initial_bucket_row shard_count b =
    map_option (\<lambda>shard. (int b, uint shard)) (initial_physical_shard (word_of_nat b) shard_count)"

definition migrate_v2_to_v3 :: "ManifestRows \<Rightarrow> u16 \<Rightarrow> ManifestRows option" where
  "migrate_v2_to_v3 m shard_count =
    (case those (map (initial_bucket_row shard_count) [0..<unat VIRTUAL_BUCKET_COUNT]) of
       None \<Rightarrow> None
     | Some bucket_rows \<Rightarrow> Some (m\<lparr>
         briskdb_metadata := [V3_SCHEMA_VERSION],
         briskdb_routing := [(1, uint HASH_VERSION, uint KEY_ENCODING_VERSION,
           uint BUCKET_ALGORITHM_VERSION, uint VIRTUAL_BUCKET_COUNT, uint INITIAL_MAP_GENERATION)],
         briskdb_physical_shards :=
           map (\<lambda>s. (int s, ACTIVE_LIFECYCLE_STATE)) [0..<unat shard_count],
         briskdb_virtual_buckets := bucket_rows\<rparr>))"

lemma validate_bucket_rows_Inr:
  assumes "validate_bucket_rows n (zip [k..<u] rows) as acc = Inr (as', acc')"
    and "2 \<le> n" "n \<le> 64" "u = k + length rows" "u \<le> 4096"
  shows "acc' = acc @ map (\<lambda>b. word_of_nat (owner_of (unat n) b)) [k..<u]"
  using assms(1,4,5)
proof (induction rows arbitrary: k as acc)
  case (Cons row rows)
  obtain stored_bucket stored where row: "row = (stored_bucket, stored)"
    by (cases row)
  have up: "[k..<u] = k # [Suc k..<u]"
    using Cons.prems(2) by (intro upt_conv_Cons) simp
  have "unat (word_of_nat k :: u16) = k"
    using Cons.prems(2,3) by (intro unat_of_nat_eq) simp
  then have owner: "initial_physical_shard (word_of_nat k) n = Some (word_of_nat (owner_of (unat n) k))"
    using initial_physical_shard_eq [OF assms(2,3), of "word_of_nat k"] Cons.prems(2,3)
    by (simp add: word_less_nat_alt)
  obtain shard as'' where shard: "Some shard = initial_physical_shard (word_of_nat k) n"
    and rec: "validate_bucket_rows n (zip [Suc k..<u] rows) as'' (acc @ [shard])
      = Inr (as', acc')"
    using Cons.prems(1) unfolding up row zip_Cons_Cons validate_bucket_rows.simps
    by (auto split: if_splits option.splits)
  have "acc' = (acc @ [shard]) @ map (\<lambda>b. word_of_nat (owner_of (unat n) b)) [Suc k..<u]"
    using Cons.prems(2,3) by (intro Cons.IH [OF rec]) simp_all
  then show ?case
    unfolding up using shard owner by simp
qed simp

text \<open>A validated manifest yields exactly the generation-one catalog.\<close>

lemma validate_virtual_buckets_Inr:
  assumes "validate_virtual_buckets m n = Inr bs" "2 \<le> n" "n \<le> 64"
  shows "bs = generation_one_buckets n"
proof -
  let ?rows = "take 4097 (briskdb_virtual_buckets m)"
  obtain as where len: "length ?rows = 4096"
    and loop: "validate_bucket_rows n (zip [0..<4096] ?rows) (replicate (unat n) 0) [] = Inr (as, bs)"
    using assms(1) by (auto simp: validate_virtual_buckets_def Let_def result_simps
        VIRTUAL_BUCKET_COUNT_def split: prod.splits)
  show ?thesis
    using validate_bucket_rows_Inr [OF loop assms(2,3)] len by (simp add: generation_one_buckets_def)
qed

lemma validate_manifest_configuration_Inr:
  "validate_manifest_configuration m r = Inr n \<Longrightarrow> n = r \<and> 2 \<le> n \<and> n \<le> 64"
  by (auto simp: validate_manifest_configuration_def read_manifest_shard_count_def
      validate_shard_range_def ensure_requested_shards_def result_simps
      split: list.splits option.splits if_splits)

lemma validate_routing_configuration_Inr:
  "validate_routing_configuration m = Inr cfg \<Longrightarrow>
    cfg = \<lparr>cfg_hash_version = HASH_VERSION, cfg_key_encoding_version = KEY_ENCODING_VERSION,
      cfg_bucket_algorithm_version = BUCKET_ALGORITHM_VERSION,
      cfg_map_generation = INITIAL_MAP_GENERATION\<rparr>"
  by (auto simp: validate_routing_configuration_def result_simps
      split: list.splits option.splits prod.splits)

lemma owner_word_less:
  assumes "2 \<le> (n :: u16)" "n \<le> 64" "b < 4096"
  shows "(word_of_nat (owner_of (unat n) b) :: u16) < n"
proof -
  have "owner_of (unat n) b < unat n"
    using shard_count_bounds [OF assms(1,2)] assms(3) by (intro owner_of_less)
  moreover from this have "unat (word_of_nat (owner_of (unat n) b) :: u16) = owner_of (unat n) b"
    using shard_count_bounds(2) [OF assms(1,2)] by (intro unat_of_nat_eq) simp
  ultimately show ?thesis by (simp add: word_less_nat_alt)
qed

lemma validate_routing_manifest_Inr:
  assumes "validate_routing_manifest m r v = Inr (n, catalog)"
  shows "n = r \<and> initial_shard_count catalog = r \<and> generation_one catalog"
proof -
  obtain cfg bs where conf: "validate_manifest_configuration m r = Inr n"
    and cfg: "validate_routing_configuration m = Inr cfg"
    and bs: "validate_virtual_buckets m n = Inr bs"
    and catalog: "catalog = from_validated_parts n (cfg_hash_version cfg)
      (cfg_key_encoding_version cfg) (cfg_bucket_algorithm_version cfg) (cfg_map_generation cfg) bs"
    using assms by (auto simp: validate_routing_manifest_def result_simps)
  have n: "n = r" "2 \<le> n" "n \<le> 64"
    using validate_manifest_configuration_Inr [OF conf] by blast+
  have "list_all (\<lambda>s. s < n) (generation_one_buckets n)"
    using n owner_word_less [of n] by (auto simp: generation_one_buckets_def list_all_iff)
  then show ?thesis
    using n validate_virtual_buckets_Inr [OF bs n(2,3)] validate_routing_configuration_Inr [OF cfg]
      catalog
    by (simp add: from_validated_parts_def generation_one_def validated_parts_def
        VIRTUAL_BUCKET_COUNT_def) (simp add: generation_one_buckets_def)
qed

section \<open>The migration writes what validation accepts\<close>

lemma validate_bucket_rows_initial:
  assumes "2 \<le> n" "n \<le> 64" "k \<le> 4096" "length as = unat n"
  shows "\<exists>as'. validate_bucket_rows n
      (zip [k..<4096] (map (\<lambda>b. (int b, int (owner_of (unat n) b))) [k..<4096])) as acc
    = Inr (as', acc @ map (\<lambda>b. word_of_nat (owner_of (unat n) b)) [k..<4096])
    \<and> length as' = unat n
    \<and> (\<forall>s < unat n. as' ! s = as ! s + card {b \<in> {k..<4096}. owner_of (unat n) b = s})"
  using assms(3,4)
proof (induction k arbitrary: as acc rule: inc_induct)
  case base
  then show ?case by simp
next
  case (step k)
  define s where "s = owner_of (unat n) k"
  have k: "k < 4096" using step by simp
  have s: "s < unat n" "s < 64"
    using owner_of_less [OF shard_count_bounds(1,3) [OF assms(1,2)] k]
      shard_count_bounds(2) [OF assms(1,2)] by (simp_all add: s_def)
  have us: "unat (word_of_nat s :: u16) = s" and uk: "unat (word_of_nat k :: u16) = k"
    using s k by (auto intro!: unat_of_nat_eq)
  have owner: "initial_physical_shard (word_of_nat k) n = Some (word_of_nat s)"
    using initial_physical_shard_eq [OF assms(1,2), of "word_of_nat k"] k uk
    by (simp add: word_less_nat_alt s_def)
  have up: "[k..<4096] = k # [Suc k..<4096]"
    using k by (intro upt_conv_Cons)
  have tf: "u16_try_from (int s) = Some (word_of_nat s)"
    using s by (simp add: u16_try_from_def)
  have lt: "\<not> n \<le> word_of_nat s"
    using owner_word_less [OF assms(1,2) k] by (simp add: s_def not_le)
  obtain as' where IH: "validate_bucket_rows n
        (zip [Suc k..<4096] (map (\<lambda>b. (int b, int (owner_of (unat n) b))) [Suc k..<4096]))
        (as[s := Suc (as ! s)]) (acc @ [word_of_nat s])
      = Inr (as', (acc @ [word_of_nat s]) @ map (\<lambda>b. word_of_nat (owner_of (unat n) b)) [Suc k..<4096])"
    and len: "length as' = unat n"
    and count: "\<forall>t < unat n. as' ! t = as[s := Suc (as ! s)] ! t
      + card {b \<in> {Suc k..<4096}. owner_of (unat n) b = t}"
    using step.IH [of "as[s := Suc (as ! s)]" "acc @ [word_of_nat s]"] step.prems by auto
  have split: "{b \<in> {k..<4096}. owner_of (unat n) b = t}
      = (if t = s then {k} else {}) \<union> {b \<in> {Suc k..<4096}. owner_of (unat n) b = t}" for t
    using k by (auto simp: s_def le_less Suc_le_eq)
  have "card {b \<in> {k..<4096}. owner_of (unat n) b = t}
      = (if t = s then 1 else 0) + card {b \<in> {Suc k..<4096}. owner_of (unat n) b = t}" for t
    unfolding split by (subst card_Un_disjoint) auto
  then have "\<forall>t < unat n. as' ! t = as ! t + card {b \<in> {k..<4096}. owner_of (unat n) b = t}"
    using count s step.prems by (simp add: nth_list_update)
  moreover have "validate_bucket_rows n
      (zip [k..<4096] (map (\<lambda>b. (int b, int (owner_of (unat n) b))) [k..<4096])) as acc
    = Inr (as', acc @ map (\<lambda>b. word_of_nat (owner_of (unat n) b)) [k..<4096])"
    unfolding up using IH tf lt owner us by (simp add: s_def [symmetric])
  ultimately show ?case
    using len by blast
qed

lemma those_map_Some: "those (map (\<lambda>x. Some (f x)) xs) = Some (map f xs)"
  by (induction xs) simp_all

lemma initial_bucket_row_eq:
  assumes "2 \<le> n" "n \<le> 64" "b < 4096"
  shows "initial_bucket_row n b = Some (int b, int (owner_of (unat n) b))"
proof -
  have ub: "unat (word_of_nat b :: u16) = b"
    using assms by (intro unat_of_nat_eq) simp
  have "owner_of (unat n) b < 2 ^ LENGTH(16)"
    using owner_of_less [OF shard_count_bounds(1,3) [OF assms(1,2)] assms(3)]
      shard_count_bounds(2) [OF assms(1,2)] by simp
  then have "uint (word_of_nat (owner_of (unat n) b) :: u16) = int (owner_of (unat n) b)"
    by (simp add: uint_nat unat_of_nat_eq)
  then show ?thesis
    using initial_physical_shard_eq [OF assms(1,2), of "word_of_nat b"] assms(3) ub
    by (simp add: initial_bucket_row_def word_less_nat_alt)
qed

lemma migrate_v2_to_v3_eq:
  assumes "2 \<le> n" "n \<le> 64"
  shows "migrate_v2_to_v3 m n = Some (m\<lparr>
      briskdb_metadata := [3],
      briskdb_routing := [(1, 1, 1, 1, 4096, 1)],
      briskdb_physical_shards := map (\<lambda>s. (int s, ''active'')) [0..<unat n],
      briskdb_virtual_buckets := map (\<lambda>b. (int b, int (owner_of (unat n) b))) [0..<4096]\<rparr>)"
proof -
  have "map (initial_bucket_row n) [0..<4096]
      = map (\<lambda>b. Some (int b, int (owner_of (unat n) b))) [0..<4096]"
    using initial_bucket_row_eq [OF assms] by (intro map_cong) auto
  then have "those (map (initial_bucket_row n) [0..<4096])
      = Some (map (\<lambda>b. (int b, int (owner_of (unat n) b))) [0..<4096])"
    by (simp only: those_map_Some)
  then show ?thesis
    by (simp add: migrate_v2_to_v3_def routing_consts V3_SCHEMA_VERSION_def
        ACTIVE_LIFECYCLE_STATE_def)
qed

lemma validate_virtual_buckets_initial:
  assumes "2 \<le> n" "n \<le> 64"
    and rows: "briskdb_virtual_buckets m = map (\<lambda>b. (int b, int (owner_of (unat n) b))) [0..<4096]"
  shows "validate_virtual_buckets m n = Inr (generation_one_buckets n)"
proof -
  obtain as where loop: "validate_bucket_rows n
        (zip [0..<4096] (map (\<lambda>b. (int b, int (owner_of (unat n) b))) [0..<4096]))
        (replicate (unat n) 0) [] = Inr (as, [] @ generation_one_buckets n)"
    and len: "length as = unat n"
    and count: "\<forall>s < unat n. as ! s
      = replicate (unat n) 0 ! s + card {b \<in> {0..<4096}. owner_of (unat n) b = s}"
    using validate_bucket_rows_initial [OF assms(1,2), of 0 "replicate (unat n) 0" "[]"]
    unfolding generation_one_buckets_def by auto
  note n = shard_count_bounds [OF assms(1,2)]
  have "as ! s \<noteq> 0" if "s < unat n" for s
  proof -
    have "{b \<in> {0..<4096}. owner_of (unat n) b = s} = {b. b < 4096 \<and> owner_of (unat n) b = s}"
      by auto
    then have "as ! s = group_of (unat n) s"
      using count buckets_of_owner [OF n(1,3) that] that by simp
    then show ?thesis
      using group_of_pos [OF n(1,3), of s] by simp
  qed
  then have "\<not> list_ex (\<lambda>count. count = 0) as"
    using len by (auto simp: list_ex_iff in_set_conv_nth)
  then show ?thesis
    using loop rows by (simp add: validate_virtual_buckets_def VIRTUAL_BUCKET_COUNT_def Let_def
        del: upt_Suc)
qed

lemma validate_physical_shards_initial:
  assumes "n \<le> 64" "briskdb_physical_shards m = map (\<lambda>s. (int s, ''active'')) [0..<unat n]"
  shows "validate_physical_shards m n = Inr ()"
proof -
  have "take 65 (briskdb_physical_shards m) = map (\<lambda>s. (int s, ''active'')) [0..<unat n]"
    using assms by (simp add: word_le_nat_alt)
  moreover have "\<exists>us. try_map (\<lambda>(expected, stored, state).
      and_then (check_that (stored = int expected) DataCorruption) (\<lambda>_.
        check_that (state = ''active'') DataCorruption))
      (zip xs (map (\<lambda>s. (int s, ''active'')) xs)) = Inr us" for xs
    by (induction xs) auto
  from this [of "[0..<unat n]"] obtain us where "try_map (\<lambda>(expected, stored, state).
      and_then (check_that (stored = int expected) DataCorruption) (\<lambda>_.
        check_that (state = ''active'') DataCorruption))
      (zip [0..<unat n] (map (\<lambda>s. (int s, ''active'')) [0..<unat n])) = Inr us" ..
  ultimately show ?thesis
    by (simp add: validate_physical_shards_def ACTIVE_LIFECYCLE_STATE_def)
qed

lemma migrated_routing_validates:
  assumes "2 \<le> n" "n \<le> 64" "briskdb_manifest m = [(1, uint n)]" "migrate_v2_to_v3 m n = Some m'"
  shows "validate_routing_manifest m' n V3_SCHEMA_VERSION =
    Inr (n, from_validated_parts n HASH_VERSION KEY_ENCODING_VERSION BUCKET_ALGORITHM_VERSION
      INITIAL_MAP_GENERATION (generation_one_buckets n))"
proof -
  have m': "m' = m\<lparr>
      briskdb_metadata := [3],
      briskdb_routing := [(1, 1, 1, 1, 4096, 1)],
      briskdb_physical_shards := map (\<lambda>s. (int s, ''active'')) [0..<unat n],
      briskdb_virtual_buckets := map (\<lambda>b. (int b, int (owner_of (unat n) b))) [0..<4096]\<rparr>"
    using assms(4) migrate_v2_to_v3_eq [OF assms(1,2)] by simp
  have "uint n < 2 ^ 16"
    using uint_bounded [of n] by simp
  then have "validate_manifest_configuration m' n = Inr n"
    using assms(1-3) m' by (simp add: validate_manifest_configuration_def ensure_requested_shards_def
        read_manifest_shard_count_def validate_shard_range_def u16_try_from_def)
  moreover have "validate_downgrade_fence m' V3_SCHEMA_VERSION = Inr ()"
    by (simp add: m' validate_downgrade_fence_def V3_SCHEMA_VERSION_def)
  moreover have "validate_routing_configuration m' = Inr
      \<lparr>cfg_hash_version = HASH_VERSION, cfg_key_encoding_version = KEY_ENCODING_VERSION,
       cfg_bucket_algorithm_version = BUCKET_ALGORITHM_VERSION,
       cfg_map_generation = INITIAL_MAP_GENERATION\<rparr>"
    by (simp add: m' validate_routing_configuration_def routing_consts u64_try_from_def)
  moreover have "validate_physical_shards m' n = Inr ()"
    by (rule validate_physical_shards_initial) (simp_all add: m' assms)
  moreover have "validate_virtual_buckets m' n = Inr (generation_one_buckets n)"
    by (rule validate_virtual_buckets_initial) (simp_all add: m' assms)
  ultimately show ?thesis
    by (simp add: validate_routing_manifest_def)
qed

section \<open>Properties\<close>

text \<open>C13: Whatever manifest passes startup validation, every key is routed, without a
  panic, to the shard given by its hash modulo the requested shard count: the
  virtual-bucket indirection of generation one preserves plain modulo placement.\<close>

theorem validated_manifest_routes_by_modulo:
  assumes "validate_routing_manifest m requested_shards v = Inr (n, catalog)"
    and "digest_32 blake3"
  shows "shard_for_key blake3 catalog key =
    Some (word_of_nat (le_nat (take 8 (blake3 key)) mod unat requested_shards))"
  using validate_routing_manifest_Inr [OF assms(1)] shard_for_key_generation_one assms(2) by metis

definition sample_manifest :: "ManifestRows" where
  "sample_manifest = \<lparr>briskdb_manifest = [(1, 4)], briskdb_metadata = [], briskdb_routing = [],
    briskdb_physical_shards = [], briskdb_virtual_buckets = []\<rparr>"

lemma sample_manifest_migrates:
  "\<exists>m' catalog. migrate_v2_to_v3 sample_manifest 4 = Some m'
    \<and> validate_routing_manifest m' 4 V3_SCHEMA_VERSION = Inr (4, catalog)"
proof -
  have "\<exists>m'. migrate_v2_to_v3 sample_manifest 4 = Some m'"
    by (rule exI, rule migrate_v2_to_v3_eq) simp_all
  then obtain m' where "migrate_v2_to_v3 sample_manifest 4 = Some m'" ..
  then show ?thesis
    using migrated_routing_validates [of 4 sample_manifest m'] by (simp add: sample_manifest_def)
qed

lemma digest_prefix_mod: "le_nat (replicate 8 (7 :: byte)) mod 4 = 3"
proof -
  have "replicate 8 (7 :: byte) = [7, 7, 7, 7, 7, 7, 7, 7]"
    by (simp add: numeral_eq_Suc)
  then show ?thesis by simp
qed

theorem validated_manifest_routes_by_modulo_witness:
  "\<exists>m' catalog. migrate_v2_to_v3 sample_manifest 4 = Some m'
    \<and> validate_routing_manifest m' 4 V3_SCHEMA_VERSION = Inr (4, catalog)
    \<and> shard_for_key (\<lambda>_. replicate 32 7) catalog [1] = Some 3"
proof -
  obtain m' catalog where m: "migrate_v2_to_v3 sample_manifest 4 = Some m'"
    "validate_routing_manifest m' 4 V3_SCHEMA_VERSION = Inr (4, catalog)"
    using sample_manifest_migrates by blast
  have "shard_for_key (\<lambda>_. replicate 32 7) catalog [1] = Some 3"
    using validated_manifest_routes_by_modulo [OF m(2), of "\<lambda>_. replicate 32 7" "[1]"]
    by (simp add: digest_32_def digest_prefix_mod)
  with m show ?thesis by blast
qed

text \<open>C24: The rows that the version 3 migration writes for a supported shard count pass
  startup validation and load as the generation-one catalog.\<close>

theorem migration_validates:
  assumes "2 \<le> n" "n \<le> 64" "briskdb_manifest m = [(1, uint n)]"
  shows "\<exists>m'. migrate_v2_to_v3 m n = Some m'
    \<and> validate_routing_manifest m' n V3_SCHEMA_VERSION =
      Inr (n, from_validated_parts n HASH_VERSION KEY_ENCODING_VERSION BUCKET_ALGORITHM_VERSION
        INITIAL_MAP_GENERATION (generation_one_buckets n))"
  using migrated_routing_validates [OF assms] migrate_v2_to_v3_eq [OF assms(1,2)] by blast

theorem migration_validates_witness:
  "\<exists>m'. migrate_v2_to_v3 sample_manifest 4 = Some m'
    \<and> validate_routing_manifest m' 4 V3_SCHEMA_VERSION =
      Inr (4, from_validated_parts 4 HASH_VERSION KEY_ENCODING_VERSION BUCKET_ALGORITHM_VERSION
        INITIAL_MAP_GENERATION (generation_one_buckets 4))"
  by (rule migration_validates) (simp_all add: sample_manifest_def)

end
