(* ===== verification/Generated_Id.thy ===== *)
theory Generated_Id
  imports Search
begin

unbundle bit_operations_syntax

text \<open>
  Generated identifiers, \<open>core/generated_id.rs\<close>: the \<open>native_range_v1\<close> and
  \<open>hilo_v1\<close> encodings, their policy-aware classification, and the owner map that
  assigns native allocation namespaces to physical shards.  An \<open>i64\<close> is an \<open>int\<close>
  in the range \<open>is_i64\<close>; bit patterns are 64-bit words.  A failed \<open>expect\<close> is
  \<open>None\<close>.
\<close>

definition is_i64 :: "int \<Rightarrow> bool" where
  "is_i64 i \<longleftrightarrow> - (2 ^ 63) \<le> i \<and> i < 2 ^ 63"

text \<open>\<open>i64::try_from\<close> of an unsigned word.\<close>

definition i64_try_from :: "u64 \<Rightarrow> int option" where
  "i64_try_from w = (if uint w < 2 ^ 63 then Some (uint w) else None)"

section \<open>Definitions\<close>

definition NATIVE_RANGE_V1_FORMAT_MARKER :: u64 where
  "NATIVE_RANGE_V1_FORMAT_MARKER = 0x4000000000000000"

definition NATIVE_RANGE_V1_OWNER_BITS :: nat where
  "NATIVE_RANGE_V1_OWNER_BITS = 10"

definition NATIVE_RANGE_V1_LOCAL_SEQUENCE_BITS :: nat where
  "NATIVE_RANGE_V1_LOCAL_SEQUENCE_BITS = 52"

definition NATIVE_RANGE_V1_OWNER_SHIFT :: nat where
  "NATIVE_RANGE_V1_OWNER_SHIFT = NATIVE_RANGE_V1_LOCAL_SEQUENCE_BITS"

definition MAX_ALLOCATION_OWNER_SLOT :: u16 where
  "MAX_ALLOCATION_OWNER_SLOT = push_bit NATIVE_RANGE_V1_OWNER_BITS 1 - 1"

definition MAX_NATIVE_RANGE_V1_LOCAL_SEQUENCE :: u64 where
  "MAX_NATIVE_RANGE_V1_LOCAL_SEQUENCE = push_bit NATIVE_RANGE_V1_LOCAL_SEQUENCE_BITS 1 - 1"

definition HILO_V1_FORMAT_MARKER :: u64 where
  "HILO_V1_FORMAT_MARKER = 0x2000000000000000"

definition HILO_V1_SEQUENCE_BITS :: nat where
  "HILO_V1_SEQUENCE_BITS = 61"

definition MAX_HILO_V1_SEQUENCE :: u64 where
  "MAX_HILO_V1_SEQUENCE = push_bit HILO_V1_SEQUENCE_BITS 1 - 1"

definition NATIVE_RANGE_V1_OWNER_MASK :: u64 where
  "NATIVE_RANGE_V1_OWNER_MASK =
    push_bit NATIVE_RANGE_V1_OWNER_SHIFT (push_bit NATIVE_RANGE_V1_OWNER_BITS 1 - 1)"

datatype AllocationOwnerSlot = AllocationOwnerSlot (slot: u16)

instantiation AllocationOwnerSlot :: linorder
begin

definition less_eq_AllocationOwnerSlot where "a \<le> b \<longleftrightarrow> slot a \<le> slot b"
definition less_AllocationOwnerSlot where "a < b \<longleftrightarrow> slot a < slot b"

instance
  by standard (auto simp: less_eq_AllocationOwnerSlot_def less_AllocationOwnerSlot_def
      AllocationOwnerSlot.expand)

end

definition owner_slot_new :: "u16 \<Rightarrow> AllocationOwnerSlot EngineResult" where
  "owner_slot_new v =
    (if v > MAX_ALLOCATION_OWNER_SLOT then Inl NumericOutOfRange else Inr (AllocationOwnerSlot v))"

datatype AllocationOwnerState = Active | Retired

type_synonym assignment = "AllocationOwnerSlot \<times> u16 \<times> AllocationOwnerState"

record AllocationOwnerMap =
  by_owner :: "assignment list"
  by_physical_shard :: "AllocationOwnerSlot list"

text \<open>The loop that records the active owner of each shard.\<close>

fun record_active ::
    "assignment list \<Rightarrow> AllocationOwnerSlot option list \<Rightarrow> AllocationOwnerSlot option list EngineResult" where
  "record_active [] active = Inr active"
| "record_active ((owner, shard, state) # rest) active =
    (if \<not> unat shard < length active then Inl InvalidArgument
     else if state = Active \<and> active ! unat shard \<noteq> None then Inl InvalidArgument
     else record_active rest
       (if state = Active then active[unat shard := Some owner] else active))"

text \<open>The final loop: an active owner is greater than the retired owners of its shard.\<close>

fun check_retired :: "AllocationOwnerSlot list \<Rightarrow> assignment list \<Rightarrow> unit EngineResult" where
  "check_retired active [] = Inr ()"
| "check_retired active ((owner, shard, state) # rest) =
    (if state \<noteq> Retired then check_retired active rest
     else if active ! unat shard \<le> owner then Inl InvalidArgument
     else check_retired active rest)"

definition adjacent_equal :: "assignment list \<Rightarrow> bool" where
  "adjacent_equal xs \<longleftrightarrow> list_ex (\<lambda>(a, b). fst a = fst b) (zip xs (tl xs))"

definition try_from_assignments ::
    "u16 \<Rightarrow> (u16 \<times> u16 \<times> AllocationOwnerState) list \<Rightarrow> AllocationOwnerMap EngineResult" where
  "try_from_assignments physical_shard_count assignments =
    (if physical_shard_count = 0 then Inl InvalidArgument
     else if length assignments < unat physical_shard_count then Inl InvalidArgument
     else
       and_then (try_map (\<lambda>(owner, shard, state).
           and_then (owner_slot_new owner) (\<lambda>owner. Inr (owner, shard, state))) assignments)
         (\<lambda>entries. let sorted_entries = sort_key fst entries in
       if adjacent_equal sorted_entries then Inl InvalidArgument
       else
         and_then (record_active sorted_entries (replicate (unat physical_shard_count) None)) (\<lambda>active.
         and_then (try_map (\<lambda>owner. case owner of None \<Rightarrow> Inl InvalidArgument | Some o1 \<Rightarrow> Inr o1) active)
           (\<lambda>active.
         and_then (check_retired active sorted_entries) (\<lambda>_.
         Inr \<lparr>by_owner = sorted_entries, by_physical_shard = active\<rparr>)))))"

definition try_from_pairs :: "u16 \<Rightarrow> (u16 \<times> u16) list \<Rightarrow> AllocationOwnerMap EngineResult" where
  "try_from_pairs physical_shard_count pairs =
    try_from_assignments physical_shard_count (map (\<lambda>(owner, shard). (owner, shard, Active)) pairs)"

definition physical_shard :: "AllocationOwnerMap \<Rightarrow> AllocationOwnerSlot \<Rightarrow> u16 option" where
  "physical_shard self owner =
    (case binary_search_by_key fst owner (by_owner self) of
       Inr index \<Rightarrow> Some (fst (snd (by_owner self ! index)))
     | Inl _ \<Rightarrow> None)"

definition owner_state :: "AllocationOwnerMap \<Rightarrow> AllocationOwnerSlot \<Rightarrow> AllocationOwnerState option" where
  "owner_state self owner =
    (case binary_search_by_key fst owner (by_owner self) of
       Inr index \<Rightarrow> Some (snd (snd (by_owner self ! index)))
     | Inl _ \<Rightarrow> None)"

definition owner_is_active :: "AllocationOwnerMap \<Rightarrow> AllocationOwnerSlot \<Rightarrow> bool" where
  "owner_is_active self owner \<longleftrightarrow> owner_state self owner = Some Active"

definition owner_for_physical_shard :: "AllocationOwnerMap \<Rightarrow> u16 \<Rightarrow> AllocationOwnerSlot option" where
  "owner_for_physical_shard self shard =
    (if unat shard < length (by_physical_shard self)
     then Some (by_physical_shard self ! unat shard) else None)"

definition physical_shard_count :: "AllocationOwnerMap \<Rightarrow> u16 option" where
  "physical_shard_count self =
    (if length (by_physical_shard self) < 2 ^ 16
     then Some (word_of_nat (length (by_physical_shard self))) else None)"

definition pairs :: "AllocationOwnerMap \<Rightarrow> (u16 \<times> u16) list" where
  "pairs self = map (\<lambda>(owner, shard, _). (slot owner, shard)) (by_owner self)"

definition assignments :: "AllocationOwnerMap \<Rightarrow> (u16 \<times> u16 \<times> AllocationOwnerState) list" where
  "assignments self = map (\<lambda>(owner, shard, state). (slot owner, shard, state)) (by_owner self)"

record NativeRangeV1Id =
  native_owner :: AllocationOwnerSlot
  local_sequence :: u64

record HiloV1Id =
  hilo_sequence :: u64

definition hilo_new :: "u64 \<Rightarrow> HiloV1Id EngineResult" where
  "hilo_new s =
    (if s = 0 then Inl InvalidArgument
     else if s > MAX_HILO_V1_SEQUENCE then Inl NumericOutOfRange
     else Inr \<lparr>hilo_sequence = s\<rparr>)"

definition hilo_encode :: "HiloV1Id \<Rightarrow> int option" where
  "hilo_encode self = i64_try_from (HILO_V1_FORMAT_MARKER OR hilo_sequence self)"

definition native_new :: "AllocationOwnerSlot \<Rightarrow> u64 \<Rightarrow> NativeRangeV1Id EngineResult" where
  "native_new owner s =
    (if s = 0 then Inl InvalidArgument
     else if s > MAX_NATIVE_RANGE_V1_LOCAL_SEQUENCE then Inl NumericOutOfRange
     else Inr \<lparr>native_owner = owner, local_sequence = s\<rparr>)"

definition sequence_floor_bits :: "AllocationOwnerSlot \<Rightarrow> u64" where
  "sequence_floor_bits owner =
    NATIVE_RANGE_V1_FORMAT_MARKER OR push_bit NATIVE_RANGE_V1_OWNER_SHIFT (ucast (slot owner))"

definition native_encode :: "NativeRangeV1Id \<Rightarrow> int option" where
  "native_encode self = i64_try_from (sequence_floor_bits (native_owner self) OR local_sequence self)"

definition decode_native_range_v1_with_reserved_error ::
    "int \<Rightarrow> EngineErrorKind \<Rightarrow> NativeRangeV1Id option EngineResult" where
  "decode_native_range_v1_with_reserved_error encoded reserved_error_kind =
    (if encoded < 0 then Inr None
     else let bits = (word_of_int encoded :: u64) in
       if bits AND NATIVE_RANGE_V1_FORMAT_MARKER = 0 then Inr None
       else let seq = bits AND MAX_NATIVE_RANGE_V1_LOCAL_SEQUENCE in
         if seq = 0 then Inl reserved_error_kind
         else let owner = ucast (drop_bit NATIVE_RANGE_V1_OWNER_SHIFT
             (bits AND NATIVE_RANGE_V1_OWNER_MASK)) in
           Inr (Some \<lparr>native_owner = AllocationOwnerSlot owner, local_sequence = seq\<rparr>))"

definition decode_native_range_v1 :: "int \<Rightarrow> NativeRangeV1Id option EngineResult" where
  "decode_native_range_v1 encoded =
    decode_native_range_v1_with_reserved_error encoded DataCorruption"

definition decode_hilo_v1_with_reserved_error ::
    "int \<Rightarrow> EngineErrorKind \<Rightarrow> HiloV1Id option EngineResult" where
  "decode_hilo_v1_with_reserved_error encoded reserved_error_kind =
    (if encoded < 0 then Inr None
     else let bits = (word_of_int encoded :: u64) in
       if bits < HILO_V1_FORMAT_MARKER then Inr None
       else if bits > (HILO_V1_FORMAT_MARKER OR MAX_HILO_V1_SEQUENCE) then Inl reserved_error_kind
       else let seq = bits AND MAX_HILO_V1_SEQUENCE in
         if seq = 0 then Inl reserved_error_kind
         else Inr (Some \<lparr>hilo_sequence = seq\<rparr>))"

definition decode_hilo_v1 :: "int \<Rightarrow> HiloV1Id option EngineResult" where
  "decode_hilo_v1 encoded = decode_hilo_v1_with_reserved_error encoded DataCorruption"

definition native_decode :: "int \<Rightarrow> NativeRangeV1Id EngineResult" where
  "native_decode encoded =
    and_then (decode_native_range_v1 encoded)
      (\<lambda>decoded. case decoded of None \<Rightarrow> Inl NumericOutOfRange | Some x \<Rightarrow> Inr x)"

definition hilo_decode :: "int \<Rightarrow> HiloV1Id EngineResult" where
  "hilo_decode encoded =
    and_then (decode_hilo_v1 encoded)
      (\<lambda>decoded. case decoded of None \<Rightarrow> Inl NumericOutOfRange | Some x \<Rightarrow> Inr x)"

text \<open>The policy of a table; the generated column it names plays no role in the
  classification.\<close>

datatype GeneratedIdPolicy = NoPolicy | NativeRangePolicy string | HiloPolicy string

datatype GeneratedIdClassification =
    Legacy int
  | NativeRangeV1 NativeRangeV1Id
  | HiloV1 HiloV1Id

definition classify_generated_id ::
    "GeneratedIdPolicy \<Rightarrow> int \<Rightarrow> GeneratedIdClassification EngineResult" where
  "classify_generated_id policy encoded =
    (case policy of
       NoPolicy \<Rightarrow> Inr (Legacy encoded)
     | NativeRangePolicy _ \<Rightarrow>
         and_then (decode_native_range_v1 encoded)
           (\<lambda>decoded. Inr (case decoded of None \<Rightarrow> Legacy encoded | Some x \<Rightarrow> NativeRangeV1 x))
     | HiloPolicy _ \<Rightarrow>
         and_then (decode_hilo_v1 encoded)
           (\<lambda>decoded. Inr (case decoded of None \<Rightarrow> Legacy encoded | Some x \<Rightarrow> HiloV1 x)))"

definition classify_caller_generated_id ::
    "GeneratedIdPolicy \<Rightarrow> int \<Rightarrow> GeneratedIdClassification EngineResult" where
  "classify_caller_generated_id policy encoded =
    (case policy of
       NoPolicy \<Rightarrow> Inr (Legacy encoded)
     | NativeRangePolicy _ \<Rightarrow>
         and_then (decode_native_range_v1_with_reserved_error encoded InvalidArgument)
           (\<lambda>decoded. Inr (case decoded of None \<Rightarrow> Legacy encoded | Some x \<Rightarrow> NativeRangeV1 x))
     | HiloPolicy _ \<Rightarrow>
         and_then (decode_hilo_v1_with_reserved_error encoded InvalidArgument)
           (\<lambda>decoded. Inr (case decoded of None \<Rightarrow> Legacy encoded | Some x \<Rightarrow> HiloV1 x)))"

definition native_range_v1_sequence_floor :: "AllocationOwnerSlot \<Rightarrow> int option" where
  "native_range_v1_sequence_floor owner = i64_try_from (sequence_floor_bits owner)"

definition native_range_v1_first_id :: "AllocationOwnerSlot \<Rightarrow> int option" where
  "native_range_v1_first_id owner =
    Option.bind (native_range_v1_sequence_floor owner)
      (\<lambda>lo. if lo + 1 < 2 ^ 63 then Some (lo + 1) else None)"

definition native_range_v1_sequence_ceiling :: "AllocationOwnerSlot \<Rightarrow> int option" where
  "native_range_v1_sequence_ceiling owner =
    (case native_new owner MAX_NATIVE_RANGE_V1_LOCAL_SEQUENCE of
       Inl _ \<Rightarrow> None | Inr x \<Rightarrow> native_encode x)"

definition hilo_v1_sequence_floor :: "int option" where
  "hilo_v1_sequence_floor = i64_try_from HILO_V1_FORMAT_MARKER"

definition hilo_v1_first_id :: "int option" where
  "hilo_v1_first_id = (case hilo_new 1 of Inl _ \<Rightarrow> None | Inr x \<Rightarrow> hilo_encode x)"

definition hilo_v1_sequence_ceiling :: "int option" where
  "hilo_v1_sequence_ceiling =
    (case hilo_new MAX_HILO_V1_SEQUENCE of Inl _ \<Rightarrow> None | Inr x \<Rightarrow> hilo_encode x)"

section \<open>The encodings as integer arithmetic\<close>

lemmas native_consts = NATIVE_RANGE_V1_FORMAT_MARKER_def NATIVE_RANGE_V1_OWNER_BITS_def
  NATIVE_RANGE_V1_LOCAL_SEQUENCE_BITS_def NATIVE_RANGE_V1_OWNER_SHIFT_def
  MAX_ALLOCATION_OWNER_SLOT_def MAX_NATIVE_RANGE_V1_LOCAL_SEQUENCE_def NATIVE_RANGE_V1_OWNER_MASK_def

lemmas hilo_consts = HILO_V1_FORMAT_MARKER_def HILO_V1_SEQUENCE_BITS_def MAX_HILO_V1_SEQUENCE_def

definition native_valid :: "NativeRangeV1Id \<Rightarrow> bool" where
  "native_valid x \<longleftrightarrow> slot (native_owner x) \<le> MAX_ALLOCATION_OWNER_SLOT
    \<and> 0 < local_sequence x \<and> local_sequence x \<le> MAX_NATIVE_RANGE_V1_LOCAL_SEQUENCE"

definition hilo_valid :: "HiloV1Id \<Rightarrow> bool" where
  "hilo_valid x \<longleftrightarrow> 0 < hilo_sequence x \<and> hilo_sequence x \<le> MAX_HILO_V1_SEQUENCE"

lemma uint_native_limits:
  "uint MAX_ALLOCATION_OWNER_SLOT = 1023"
  "uint MAX_NATIVE_RANGE_V1_LOCAL_SEQUENCE = 2 ^ 52 - 1"
  "uint MAX_HILO_V1_SEQUENCE = 2 ^ 61 - 1"
  by (simp_all add: native_consts hilo_consts push_bit_eq_mult)

lemma int_or_disjoint:
  fixes x b :: int
  assumes "0 \<le> b" "b < 2 ^ k"
  shows "2 ^ k * x OR b = 2 ^ k * x + b"
proof -
  have b: "take_bit k b = b"
    using assms by (simp add: take_bit_int_eq_self)
  have "push_bit k x AND take_bit k b = 0"
    by (rule bit_eqI) (auto simp: bit_simps)
  then have "push_bit k x + take_bit k b = push_bit k x OR take_bit k b"
    by (rule disjunctive_add_eq_or)
  then show ?thesis
    by (simp add: b push_bit_eq_mult mult.commute)
qed

lemma len64: "LENGTH(64) = 64"
  by simp

lemma uint_sequence_floor_bits:
  assumes "slot owner \<le> MAX_ALLOCATION_OWNER_SLOT"
  shows "uint (sequence_floor_bits owner) = 2 ^ 62 + 2 ^ 52 * uint (slot owner)"
proof -
  have o: "uint (slot owner) \<le> 1023" "0 \<le> uint (slot owner)"
    using assms by (simp_all add: word_le_def uint_native_limits)
  have up: "uint (ucast (slot owner) :: u64) = uint (slot owner)"
    by simp
  have "uint (push_bit 52 (ucast (slot owner)) :: u64) = take_bit 64 (push_bit 52 (uint (slot owner)))"
    by (simp only: unsigned_push_bit_eq up len64)
  also have "\<dots> = 2 ^ 52 * uint (slot owner)"
    using o by (simp add: push_bit_eq_mult take_bit_int_eq_self)
  finally have "uint (push_bit 52 (ucast (slot owner)) :: u64) = 2 ^ 52 * uint (slot owner)" .
  then have "uint (sequence_floor_bits owner) = 2 ^ 62 * 1 OR 2 ^ 52 * uint (slot owner)"
    by (simp add: sequence_floor_bits_def native_consts unsigned_or_eq)
  also have "\<dots> = 2 ^ 62 * 1 + 2 ^ 52 * uint (slot owner)"
    using o by (intro int_or_disjoint) simp_all
  finally show ?thesis by simp
qed

lemma native_encode_eq:
  assumes "native_valid x"
  shows "native_encode x =
    Some (2 ^ 62 + 2 ^ 52 * uint (slot (native_owner x)) + uint (local_sequence x))"
proof -
  let ?o = "uint (slot (native_owner x))" and ?s = "uint (local_sequence x)"
  have o: "?o \<le> 1023" "0 \<le> ?o" and s: "0 \<le> ?s" "?s < 2 ^ 52"
    using assms by (simp_all add: native_valid_def word_le_def uint_native_limits)
  have "uint (sequence_floor_bits (native_owner x) OR local_sequence x)
      = 2 ^ 52 * (1024 + ?o) OR ?s"
    using assms uint_sequence_floor_bits [of "native_owner x"]
    by (simp add: unsigned_or_eq native_valid_def algebra_simps)
  also have "\<dots> = 2 ^ 52 * (1024 + ?o) + ?s"
    by (rule int_or_disjoint [OF s])
  finally show ?thesis
    using o s by (simp add: native_encode_def i64_try_from_def algebra_simps)
qed

lemma hilo_encode_eq:
  assumes "hilo_valid x"
  shows "hilo_encode x = Some (2 ^ 61 + uint (hilo_sequence x))"
proof -
  have s: "0 \<le> uint (hilo_sequence x)" "uint (hilo_sequence x) < 2 ^ 61"
    using assms by (simp_all add: hilo_valid_def word_le_def uint_native_limits)
  have "uint (HILO_V1_FORMAT_MARKER OR hilo_sequence x) = 2 ^ 61 * 1 OR uint (hilo_sequence x)"
    by (simp add: unsigned_or_eq hilo_consts)
  also have "\<dots> = 2 ^ 61 * 1 + uint (hilo_sequence x)"
    by (rule int_or_disjoint [OF s])
  finally show ?thesis
    using s by (simp add: hilo_encode_def i64_try_from_def)
qed

lemma uint_and_mask: "uint (w AND (push_bit k 1 - 1) :: u64) = uint w mod 2 ^ k"
proof -
  have "w AND (push_bit k 1 - 1) = take_bit k w"
    by (simp add: push_bit_eq_mult take_bit_eq_mask mask_eq_exp_minus_1)
  then have "uint (w AND (push_bit k 1 - 1)) = uint (take_bit k w)"
    by (rule arg_cong)
  also have "\<dots> = take_bit k (uint w)"
    by (rule unsigned_take_bit_eq)
  finally show ?thesis
    by (simp only: take_bit_eq_mod)
qed

lemma decode_native_eq:
  assumes "is_i64 i"
  shows "decode_native_range_v1_with_reserved_error i e =
    (if i < 2 ^ 62 then Inr None
     else if i mod 2 ^ 52 = 0 then Inl e
     else Inr (Some \<lparr>native_owner = AllocationOwnerSlot (word_of_int (i div 2 ^ 52 mod 1024)),
       local_sequence = word_of_int (i mod 2 ^ 52)\<rparr>))"
proof (cases "i < 0")
  case True
  then have "i < 2 ^ 62" by simp
  with True show ?thesis by (simp add: decode_native_range_v1_with_reserved_error_def)
next
  case False
  define bits where "bits = (word_of_int i :: u64)"
  have i: "0 \<le> i" "i < 2 ^ 63" using False assms by (simp_all add: is_i64_def)
  have u: "uint bits = i"
    using i by (simp add: bits_def uint_word_of_int_eq take_bit_int_eq_self)
  have "bits AND NATIVE_RANGE_V1_FORMAT_MARKER = 0 \<longleftrightarrow> \<not> bit bits 62"
    using and_exp_eq_0_iff_not_bit [of bits 62] by (simp add: native_consts)
  also have "bit bits 62 \<longleftrightarrow> bit i 62"
    using u by (metis bit_uint_iff len_num1 bit_imp_le_length)
  also have "bit i 62 \<longleftrightarrow> odd (i div 2 ^ 62)"
    by (simp add: bit_iff_odd)
  also have "\<dots> \<longleftrightarrow> \<not> i < 2 ^ 62"
  proof (cases "i < 2 ^ 62")
    case False
    then have "i div 2 ^ 62 = 1" using i by (intro int_div_pos_eq [where r = "i - 2 ^ 62"]) auto
    then show ?thesis using False by simp
  qed (use i in simp)
  finally have marker: "bits AND NATIVE_RANGE_V1_FORMAT_MARKER = 0 \<longleftrightarrow> i < 2 ^ 62" by simp
  have s: "uint (bits AND MAX_NATIVE_RANGE_V1_LOCAL_SEQUENCE) = i mod 2 ^ 52"
    using uint_and_mask [of bits 52] by (simp add: native_consts u)
  have "drop_bit 52 (bits AND NATIVE_RANGE_V1_OWNER_MASK) = drop_bit 52 bits AND (push_bit 10 1 - 1)"
    by (simp add: native_consts drop_bit_and)
  then have "uint (drop_bit 52 (bits AND NATIVE_RANGE_V1_OWNER_MASK)) = uint (drop_bit 52 bits) mod 2 ^ 10"
    by (simp only: uint_and_mask)
  also have "uint (drop_bit 52 bits) = i div 2 ^ 52"
    by (simp only: unsigned_drop_bit_eq) (use i in \<open>simp add: u drop_bit_eq_div take_bit_int_eq_self\<close>)
  finally have o: "uint (drop_bit 52 (bits AND NATIVE_RANGE_V1_OWNER_MASK)) = i div 2 ^ 52 mod 1024"
    by simp
  have "ucast (drop_bit 52 (bits AND NATIVE_RANGE_V1_OWNER_MASK))
      = (word_of_int (uint (drop_bit 52 (bits AND NATIVE_RANGE_V1_OWNER_MASK))) :: u16)"
    by simp
  then have owner: "ucast (drop_bit 52 (bits AND NATIVE_RANGE_V1_OWNER_MASK))
      = (word_of_int (i div 2 ^ 52 mod 1024) :: u16)"
    by (simp only: o)
  have seq: "bits AND MAX_NATIVE_RANGE_V1_LOCAL_SEQUENCE = word_of_int (i mod 2 ^ 52)"
    using s by (metis word_of_int_uint)
  have "bits AND MAX_NATIVE_RANGE_V1_LOCAL_SEQUENCE = 0 \<longleftrightarrow> i mod 2 ^ 52 = 0"
    using s by (metis uint_0_iff)
  then show ?thesis
    using False unfolding decode_native_range_v1_with_reserved_error_def Let_def bits_def [symmetric]
    by (simp only: marker NATIVE_RANGE_V1_OWNER_SHIFT_def NATIVE_RANGE_V1_LOCAL_SEQUENCE_BITS_def
        owner seq if_False)
qed

lemma decode_hilo_eq:
  assumes "is_i64 i"
  shows "decode_hilo_v1_with_reserved_error i e =
    (if i < 2 ^ 61 then Inr None
     else if i \<ge> 2 ^ 62 \<or> i = 2 ^ 61 then Inl e
     else Inr (Some \<lparr>hilo_sequence = word_of_int (i - 2 ^ 61)\<rparr>))"
proof (cases "i < 0")
  case True
  then have "i < 2 ^ 61" by simp
  with True show ?thesis by (simp add: decode_hilo_v1_with_reserved_error_def)
next
  case False
  define bits where "bits = (word_of_int i :: u64)"
  have i: "0 \<le> i" "i < 2 ^ 63" using False assms by (simp_all add: is_i64_def)
  have u: "uint bits = i"
    using i by (simp add: bits_def uint_word_of_int_eq take_bit_int_eq_self)
  have lo: "bits < HILO_V1_FORMAT_MARKER \<longleftrightarrow> i < 2 ^ 61"
    by (simp add: word_less_def u hilo_consts)
  have hi: "bits > (HILO_V1_FORMAT_MARKER OR MAX_HILO_V1_SEQUENCE) \<longleftrightarrow> i \<ge> 2 ^ 62"
    by (auto simp add: word_less_def u hilo_consts)
  have s: "uint (bits AND MAX_HILO_V1_SEQUENCE) = i mod 2 ^ 61"
    using uint_and_mask [of bits 61] by (simp add: hilo_consts u)
  have seq: "bits AND MAX_HILO_V1_SEQUENCE = word_of_int (i mod 2 ^ 61)"
    using s by (metis word_of_int_uint)
  have zero: "word_of_int (i mod 2 ^ 61) = (0 :: u64) \<longleftrightarrow> i mod 2 ^ 61 = 0"
    using s seq by (metis uint_0_iff)
  have eq: "decode_hilo_v1_with_reserved_error i e =
    (if i < 2 ^ 61 then Inr None
     else if i \<ge> 2 ^ 62 then Inl e
     else if i mod 2 ^ 61 = 0 then Inl e
     else Inr (Some \<lparr>hilo_sequence = word_of_int (i mod 2 ^ 61)\<rparr>))"
    using False unfolding decode_hilo_v1_with_reserved_error_def Let_def bits_def [symmetric]
    by (simp only: lo hi zero seq if_False)
  show ?thesis
  proof (cases "i < 2 ^ 61 \<or> i \<ge> 2 ^ 62")
    case True
    then show ?thesis unfolding eq by auto
  next
    case False
    then have "i mod 2 ^ 61 = i - 2 ^ 61"
      by (intro int_mod_pos_eq [where q = 1]) auto
    with False show ?thesis unfolding eq by simp
  qed
qed

section \<open>The contract of an identifier codec\<close>

locale id_codec =
  fixes valid :: "'a \<Rightarrow> bool"
    and encode :: "'a \<Rightarrow> int option"
    and decode :: "int \<Rightarrow> 'e + 'a option"
  assumes encode_decode: "valid x \<Longrightarrow> \<exists>i. encode x = Some i \<and> is_i64 i \<and> decode i = Inr (Some x)"
    and decode_valid: "is_i64 i \<Longrightarrow> decode i = Inr (Some x) \<Longrightarrow> valid x \<and> encode x = Some i"
begin

lemma encode_total: "valid x \<Longrightarrow> encode x \<noteq> None"
  using encode_decode by fastforce

lemma encode_inject: "valid x \<Longrightarrow> valid y \<Longrightarrow> encode x = encode y \<longleftrightarrow> x = y"
  using encode_decode by (metis Inr_inject option.inject)

lemma decode_iff:
  "is_i64 i \<Longrightarrow> decode i = Inr (Some x) \<longleftrightarrow> valid x \<and> encode x = Some i"
  using encode_decode decode_valid by (metis option.inject)

end

lemma slot_of_uint:
  "slot o1 \<le> MAX_ALLOCATION_OWNER_SLOT \<longleftrightarrow> uint (slot o1) < 1024"
  by (auto simp: word_le_def uint_native_limits)

lemma native_valid_iff:
  "native_valid x \<longleftrightarrow> uint (slot (native_owner x)) < 1024
    \<and> 0 < uint (local_sequence x) \<and> uint (local_sequence x) < 2 ^ 52"
  by (auto simp: native_valid_def slot_of_uint word_less_def word_le_def uint_native_limits)

lemma hilo_valid_iff:
  "hilo_valid x \<longleftrightarrow> 0 < uint (hilo_sequence x) \<and> uint (hilo_sequence x) < 2 ^ 61"
  by (auto simp: hilo_valid_def word_less_def word_le_def uint_native_limits)

lemma native_decode_encode:
  assumes "native_valid x"
  shows "\<exists>i. native_encode x = Some i \<and> is_i64 i \<and>
    decode_native_range_v1_with_reserved_error i e = Inr (Some x)"
proof -
  define a where "a = uint (slot (native_owner x))"
  define b where "b = uint (local_sequence x)"
  define i where "i = 2 ^ 62 + 2 ^ 52 * a + b"
  have o: "0 \<le> a" "a < 1024" and s: "0 < b" "b < 2 ^ 52"
    using assms by (simp_all add: native_valid_iff a_def b_def)
  then have ge: "\<not> i < 2 ^ 62" and i64: "is_i64 i"
    by (simp_all add: i_def is_i64_def)
  have mod: "i mod 2 ^ 52 = b"
    using s by (intro int_mod_pos_eq [where q = "1024 + a"]) (simp_all add: i_def)
  have "i div 2 ^ 52 = 1024 + a"
    using s by (intro int_div_pos_eq [where r = b]) (simp_all add: i_def)
  then have div: "i div 2 ^ 52 mod 1024 = a"
    using o by simp
  have "AllocationOwnerSlot (slot (native_owner x)) = native_owner x"
    by simp
  then have "decode_native_range_v1_with_reserved_error i e = Inr (Some x)"
    unfolding decode_native_eq [OF i64] mod div using ge s by (simp add: a_def b_def)
  then show ?thesis
    using native_encode_eq [OF assms] i64 by (auto simp: i_def a_def b_def)
qed

lemma native_encode_decode:
  assumes "is_i64 i" "decode_native_range_v1_with_reserved_error i e = Inr (Some x)"
  shows "native_valid x \<and> native_encode x = Some i"
proof -
  have ge: "2 ^ 62 \<le> i" and nz: "i mod 2 ^ 52 \<noteq> 0"
    and x: "x = \<lparr>native_owner = AllocationOwnerSlot (word_of_int (i div 2 ^ 52 mod 1024)),
       local_sequence = word_of_int (i mod 2 ^ 52)\<rparr>"
    using assms(2) unfolding decode_native_eq [OF assms(1)] by (auto split: if_splits)
  have bounds: "0 \<le> i div 2 ^ 52 mod 1024" "i div 2 ^ 52 mod 1024 < 1024"
      "0 \<le> i mod 2 ^ 52" "i mod 2 ^ 52 < 2 ^ 52"
    by simp_all
  then have u: "uint (slot (native_owner x)) = i div 2 ^ 52 mod 1024"
      "uint (local_sequence x) = i mod 2 ^ 52"
    unfolding x NativeRangeV1Id.select_convs AllocationOwnerSlot.sel
    by (intro uint_word_of_int_small; simp)+
  have valid: "native_valid x"
    unfolding native_valid_iff u using bounds nz by linarith
  have q: "1024 \<le> i div 2 ^ 52" "i div 2 ^ 52 < 2048"
    using ge assms(1) by (simp_all add: is_i64_def)
  then have "i div 2 ^ 52 mod 1024 = i div 2 ^ 52 - 1024"
    by (intro int_mod_pos_eq [where q = 1]) auto
  then have "2 ^ 62 + 2 ^ 52 * (i div 2 ^ 52 mod 1024) + i mod 2 ^ 52 = i"
    using mult_div_mod_eq [of "2 ^ 52" i] by (simp only:) simp
  then show ?thesis
    using valid native_encode_eq [OF valid] u by simp
qed

interpretation native_id: id_codec native_valid native_encode
  "\<lambda>i. decode_native_range_v1_with_reserved_error i e" for e
  by unfold_locales (use native_decode_encode native_encode_decode in blast)+

lemma hilo_decode_encode:
  assumes "hilo_valid x"
  shows "\<exists>i. hilo_encode x = Some i \<and> is_i64 i \<and>
    decode_hilo_v1_with_reserved_error i e = Inr (Some x)"
proof -
  have s: "0 < uint (hilo_sequence x)" "uint (hilo_sequence x) < 2 ^ 61"
    using assms by (simp_all add: hilo_valid_iff)
  then have i64: "is_i64 (2 ^ 61 + uint (hilo_sequence x))"
    by (simp add: is_i64_def)
  show ?thesis
    using s hilo_encode_eq [OF assms] decode_hilo_eq [OF i64] i64 by simp
qed

lemma hilo_encode_decode:
  assumes "is_i64 i" "decode_hilo_v1_with_reserved_error i e = Inr (Some x)"
  shows "hilo_valid x \<and> hilo_encode x = Some i"
proof -
  have ge: "2 ^ 61 < i" "i < 2 ^ 62" and x: "x = \<lparr>hilo_sequence = word_of_int (i - 2 ^ 61)\<rparr>"
    using assms(2) unfolding decode_hilo_eq [OF assms(1)] by (auto split: if_splits)
  have u: "uint (hilo_sequence x) = i - 2 ^ 61"
    unfolding x HiloV1Id.select_convs using ge by (intro uint_word_of_int_small) simp_all
  then have valid: "hilo_valid x"
    using ge by (simp add: hilo_valid_iff)
  then show ?thesis
    using hilo_encode_eq [OF valid] u by simp
qed

interpretation hilo_id: id_codec hilo_valid hilo_encode
  "\<lambda>i. decode_hilo_v1_with_reserved_error i e" for e
  by unfold_locales (use hilo_decode_encode hilo_encode_decode in blast)+

section \<open>The owner map\<close>

definition actives :: "assignment list \<Rightarrow> nat \<Rightarrow> AllocationOwnerSlot list" where
  "actives es s = map fst (filter (\<lambda>(_, shard, state). unat shard = s \<and> state = Active) es)"

lemma actives_simps [simp]:
  "actives [] s = []"
  "actives ((owner, shard, state) # es) s =
    (if unat shard = s \<and> state = Active then owner # actives es s else actives es s)"
  by (simp_all add: actives_def)

lemma set_actives: "set (actives es s) = {owner. \<exists>shard. (owner, shard, Active) \<in> set es \<and> unat shard = s}"
  by (auto simp: actives_def image_iff)

lemma record_active_iff:
  "record_active es active = Inr active' \<longleftrightarrow>
    (\<forall>(_, shard, _) \<in> set es. unat shard < length active)
    \<and> (\<forall>s < length active. length (actives es s) + (if active ! s = None then 0 else 1) \<le> 1)
    \<and> active' = map (\<lambda>s. case actives es s of [] \<Rightarrow> active ! s | owner # _ \<Rightarrow> Some owner) [0..<length active]"
proof (induction es arbitrary: active)
  case Nil
  have "map (\<lambda>s. active ! s) [0..<length active] = active"
    by (rule map_nth)
  then show ?case by auto
next
  case (Cons e es)
  obtain owner shard state where e: "e = (owner, shard, state)" by (cases e)
  show ?case
  proof (cases "unat shard < length active \<and> \<not> (state = Active \<and> active ! unat shard \<noteq> None)")
    case False
    have "\<not> (length (actives (e # es) (unat shard)) + (if active ! unat shard = None then 0 else 1) \<le> 1)"
      if "unat shard < length active"
      using that False by (auto simp: e)
    moreover have "record_active (e # es) active \<noteq> Inr active'"
      using False by (auto simp: e)
    ultimately show ?thesis by (auto simp: e simp del: actives_simps)
  next
    case True
    show ?thesis
    proof (cases "state = Active")
      case False
      then show ?thesis using True Cons.IH [of active] by (auto simp: e)
    next
      case act: True
      define active1 where "active1 = active[unat shard := Some owner]"
      have len: "length active1 = length active" by (simp add: active1_def)
      have nth: "active1 ! s = (if s = unat shard then Some owner else active ! s)"
        if "s < length active" for s
        using that True by (simp add: active1_def nth_list_update)
      have none: "active ! unat shard = None" using True act by simp
      have "(\<forall>s < length active. length (actives es s) + (if active1 ! s = None then 0 else 1) \<le> 1)
        \<longleftrightarrow> (\<forall>s < length active. length (actives (e # es) s) + (if active ! s = None then 0 else 1) \<le> 1)"
        using none act nth by (auto simp: e)
      moreover have "map (\<lambda>s. case actives es s of [] \<Rightarrow> active1 ! s | o1 # _ \<Rightarrow> Some o1) [0..<length active]
          = map (\<lambda>s. case actives (e # es) s of [] \<Rightarrow> active ! s | o1 # _ \<Rightarrow> Some o1) [0..<length active]"
        if "\<forall>s < length active. length (actives es s) + (if active1 ! s = None then 0 else 1) \<le> 1"
        using that True act nth by (auto simp: e split: list.splits)
      ultimately show ?thesis
        using True act Cons.IH [of active1] by (auto simp: e len active1_def [symmetric])
    qed
  qed
qed

lemma check_retired_iff:
  "check_retired active es = Inr () \<longleftrightarrow>
    (\<forall>(owner, shard, state) \<in> set es. state = Retired \<longrightarrow> owner < active ! unat shard)"
  by (induction active es rule: check_retired.induct) (auto simp: not_le)

lemma adjacent_equal_Cons2 [simp]:
  "adjacent_equal (x # y # xs) \<longleftrightarrow> fst x = fst y \<or> adjacent_equal (y # xs)"
  "\<not> adjacent_equal [x]" "\<not> adjacent_equal []"
  by (auto simp: adjacent_equal_def)

lemma sorted_not_adjacent_equal:
  "sorted (map fst xs) \<Longrightarrow> \<not> adjacent_equal xs \<longleftrightarrow> sorted_wrt (<) (map fst xs)"
proof (induction xs)
  case (Cons x xs)
  show ?case
  proof (cases xs)
    case (Cons y ys)
    then show ?thesis
      using Cons.IH Cons.prems local.Cons by (auto simp: le_less intro: less_trans)
  qed simp
qed simp

lemma not_adjacent_equal_sort:
  "\<not> adjacent_equal (sort_key fst es) \<longleftrightarrow> distinct (map fst es)"
proof -
  have "\<not> adjacent_equal (sort_key fst es) \<longleftrightarrow> sorted_wrt (<) (map fst (sort_key fst es))"
    by (rule sorted_not_adjacent_equal) simp
  also have "\<dots> \<longleftrightarrow> distinct (map fst (sort_key fst es))"
    using strict_sorted_iff [of "map fst (sort_key fst es)"] by simp
  also have "\<dots> \<longleftrightarrow> distinct (map fst es)"
    by (simp add: distinct_map)
  finally show ?thesis .
qed

text \<open>The contract of an assignment list: owners in range and distinct, shards in
  range, exactly one active owner per shard, and it exceeds the retired ones.\<close>

definition assignments_ok :: "u16 \<Rightarrow> (u16 \<times> u16 \<times> AllocationOwnerState) list \<Rightarrow> bool" where
  "assignments_ok n as \<longleftrightarrow>
    n \<noteq> 0
    \<and> (\<forall>(owner, shard, _) \<in> set as. owner \<le> MAX_ALLOCATION_OWNER_SLOT \<and> shard < n)
    \<and> distinct (map fst as)
    \<and> (\<forall>shard < n. \<exists>!owner. (owner, shard, Active) \<in> set as)
    \<and> (\<forall>shard owner active. (owner, shard, Retired) \<in> set as \<longrightarrow> (active, shard, Active) \<in> set as
        \<longrightarrow> owner < active)"

definition entries :: "(u16 \<times> u16 \<times> AllocationOwnerState) list \<Rightarrow> assignment list" where
  "entries as = map (\<lambda>(owner, shard, state). (AllocationOwnerSlot owner, shard, state)) as"

lemma entries_member [simp]:
  "(AllocationOwnerSlot owner, shard, state) \<in> set (entries as) \<longleftrightarrow> (owner, shard, state) \<in> set as"
  by (force simp: entries_def image_iff)

lemma distinct_entries: "distinct (map fst (entries as)) \<longleftrightarrow> distinct (map fst as)"
proof -
  have "map fst (entries as) = map AllocationOwnerSlot (map fst as)"
    by (auto simp: entries_def)
  then show ?thesis
    by (simp add: distinct_map inj_on_def del: map_map)
qed

lemma try_map_entries:
  "try_map (\<lambda>(owner, shard, state).
      and_then (owner_slot_new owner) (\<lambda>owner. Inr (owner, shard, state))) as = Inr es
    \<longleftrightarrow> (\<forall>(owner, _, _) \<in> set as. owner \<le> MAX_ALLOCATION_OWNER_SLOT) \<and> es = entries as"
proof (induction as arbitrary: es)
  case (Cons a as)
  obtain owner shard state where a: "a = (owner, shard, state)" by (cases a)
  show ?case
    using Cons by (auto simp: a result_simps owner_slot_new_def entries_def not_less)
qed (auto simp: entries_def)

lemma try_map_the:
  "try_map (\<lambda>owner. case owner of None \<Rightarrow> Inl e | Some o1 \<Rightarrow> Inr o1) xs = Inr ys \<longleftrightarrow> xs = map Some ys"
  by (induction xs arbitrary: ys) (auto simp: result_simps split: option.splits)

lemma distinct_actives: "distinct (map fst es) \<Longrightarrow> distinct (actives es s)"
  by (auto simp: actives_def distinct_map_filter)

lemma set_actives_entries:
  assumes "s < unat (n :: u16)"
  shows "set (actives (sort_key fst (entries as)) s)
    = AllocationOwnerSlot ` {owner. (owner, word_of_nat s, Active) \<in> set as}"
proof (rule set_eqI)
  fix o1
  obtain w where w: "o1 = AllocationOwnerSlot w" by (cases o1)
  have "unat (word_of_nat s :: u16) = s"
    by (intro unat_of_nat_eq less_trans [OF assms unsigned_less])
  then have eq: "unat shard = s \<longleftrightarrow> shard = word_of_nat s" for shard :: u16
    by (auto simp: word_unat_eq_iff)
  have "o1 \<in> set (actives (sort_key fst (entries as)) s) \<longleftrightarrow> (w, word_of_nat s, Active) \<in> set as"
    unfolding set_actives w by (simp add: eq)
  then show "o1 \<in> set (actives (sort_key fst (entries as)) s)
      \<longleftrightarrow> o1 \<in> AllocationOwnerSlot ` {owner. (owner, word_of_nat s, Active) \<in> set as}"
    by (auto simp: w)
qed

lemma card_1_Ex1: "card {x. P x} = 1 \<longleftrightarrow> (\<exists>!x. P x)"
  by (auto simp: card_1_singleton_iff set_eq_iff)

lemma actives_length_1:
  assumes "distinct (map fst as)" "s < unat (n :: u16)"
  shows "length (actives (sort_key fst (entries as)) s) = 1
    \<longleftrightarrow> (\<exists>!owner. (owner, word_of_nat s, Active) \<in> set as)"
proof -
  have "distinct (actives (sort_key fst (entries as)) s)"
    using assms(1) distinct_entries [of as] by (intro distinct_actives) (simp add: distinct_map)
  then have "length (actives (sort_key fst (entries as)) s)
      = card (AllocationOwnerSlot ` {owner. (owner, word_of_nat s, Active) \<in> set as})"
    using set_actives_entries [OF assms(2), of as] distinct_card by metis
  also have "\<dots> = card {owner. (owner, word_of_nat s, Active) \<in> set as}"
    by (rule card_image) (simp add: inj_on_def)
  also have "\<dots> = 1 \<longleftrightarrow> (\<exists>!owner. (owner, word_of_nat s, Active) \<in> set as)"
    by (rule card_1_Ex1)
  finally show ?thesis .
qed

lemma assignments_ok_length:
  assumes "assignments_ok n as"
  shows "unat n \<le> length as"
proof -
  have "{0..<unat n} \<subseteq> (\<lambda>a. unat (fst (snd a))) ` set as"
  proof
    fix s assume s: "s \<in> {0..<unat n}"
    then have "s < 2 ^ LENGTH(16)"
      using less_trans [OF _ unsigned_less [of n, where ?'a = nat]] by fastforce
    then have u: "unat (word_of_nat s :: u16) = s"
      by (rule unat_of_nat_eq)
    then have "(word_of_nat s :: u16) < n" using s by (simp add: word_less_nat_alt)
    then obtain owner where "(owner, word_of_nat s, Active) \<in> set as"
      using assms unfolding assignments_ok_def by blast
    with u show "s \<in> (\<lambda>a. unat (fst (snd a))) ` set as"
      by (intro image_eqI) auto
  qed
  then have "card {0..<unat n} \<le> card ((\<lambda>a. unat (fst (snd a))) ` set as)"
    by (intro card_mono) auto
  then have "unat n \<le> card ((\<lambda>a. unat (fst (snd a))) ` set as)"
    by simp
  also have "\<dots> \<le> length as"
    by (meson List.finite_set card_image_le card_length le_trans)
  finally show ?thesis .
qed

abbreviation sorted_entries :: "(u16 \<times> u16 \<times> AllocationOwnerState) list \<Rightarrow> assignment list" where
  "sorted_entries as \<equiv> sort_key fst (entries as)"

abbreviation active_owners ::
    "u16 \<Rightarrow> (u16 \<times> u16 \<times> AllocationOwnerState) list \<Rightarrow> AllocationOwnerSlot list" where
  "active_owners n as \<equiv> map (\<lambda>s. hd (actives (sorted_entries as) s)) [0..<unat n]"

lemma map_Some_actives:
  "map Some ys = map (\<lambda>s. case act s of [] \<Rightarrow> None | owner # _ \<Rightarrow> Some owner) [0..<n]
    \<longleftrightarrow> (\<forall>s < n. act s \<noteq> []) \<and> ys = map (\<lambda>s. hd (act s)) [0..<n]" (is "?L \<longleftrightarrow> ?R")
proof
  assume eq: ?L
  from arg_cong [OF this, of length] have len: "length ys = n" by simp
  have "Some (ys ! s) = (case act s of [] \<Rightarrow> None | owner # _ \<Rightarrow> Some owner)" if "s < n" for s
    using arg_cong [OF eq, of "\<lambda>xs. xs ! s"] that len by simp
  then have "act s \<noteq> [] \<and> ys ! s = hd (act s)" if "s < n" for s
    using that by (fastforce split: list.splits)
  then show ?R
    using len by (auto intro: nth_equalityI)
qed (auto split: list.splits)

lemma record_active_entries:
  "record_active (sorted_entries as) (replicate (unat n) None) = Inr (map Some ys)
    \<longleftrightarrow> (\<forall>(_, shard, _) \<in> set as. unat shard < unat n)
      \<and> (\<forall>s < unat n. length (actives (sorted_entries as) s) = 1) \<and> ys = active_owners n as"
proof -
  have range: "(\<forall>(_, shard, _) \<in> set (sorted_entries as). unat shard < unat n)
      \<longleftrightarrow> (\<forall>(_, shard, _) \<in> set as. unat shard < unat n)"
    by (auto simp: entries_def)
  have eq: "map (\<lambda>s. case actives (sorted_entries as) s of
        [] \<Rightarrow> replicate (unat n) None ! s | owner # _ \<Rightarrow> Some owner) [0..<unat n]
      = map (\<lambda>s. case actives (sorted_entries as) s of
        [] \<Rightarrow> None | owner # _ \<Rightarrow> Some owner) [0..<unat n]"
    by (rule map_cong) (auto split: list.splits)
  have "record_active (sorted_entries as) (replicate (unat n) None) = Inr (map Some ys)
    \<longleftrightarrow> (\<forall>(_, shard, _) \<in> set as. unat shard < unat n)
      \<and> (\<forall>s < unat n. length (actives (sorted_entries as) s) \<le> 1)
      \<and> map Some ys = map (\<lambda>s. case actives (sorted_entries as) s of
        [] \<Rightarrow> None | owner # _ \<Rightarrow> Some owner) [0..<unat n]"
    unfolding record_active_iff length_replicate range eq by simp
  moreover have "length xs = 1 \<longleftrightarrow> length xs \<le> 1 \<and> xs \<noteq> []" for xs :: "AllocationOwnerSlot list"
    by (cases xs) auto
  ultimately show ?thesis
    unfolding map_Some_actives by blast
qed

lemma active_owners_nth:
  assumes "\<forall>s < unat n. length (actives (sorted_entries as) s) = 1" "unat shard < unat n"
  shows "active_owners n as ! unat shard = AllocationOwnerSlot owner \<longleftrightarrow> (owner, shard, Active) \<in> set as"
proof -
  obtain o2 where o2: "actives (sorted_entries as) (unat shard) = [o2]"
    using assms by (auto simp: length_Suc_conv)
  then have "{o2} = AllocationOwnerSlot ` {owner. (owner, shard, Active) \<in> set as}"
    using set_actives_entries [of "unat shard" n as] assms(2) by simp
  then show ?thesis
    using assms(2) o2 by auto
qed

lemma check_retired_entries:
  assumes range: "\<forall>(_, shard, _) \<in> set as. unat shard < unat n"
    and one: "\<forall>s < unat n. length (actives (sorted_entries as) s) = 1"
  shows "check_retired (active_owners n as) (sorted_entries as) = Inr () \<longleftrightarrow>
    (\<forall>shard owner active. (owner, shard, Retired) \<in> set as \<longrightarrow> (active, shard, Active) \<in> set as
      \<longrightarrow> owner < active)"
proof -
  let ?H = "active_owners n as"
  have "check_retired ?H (sorted_entries as) = Inr () \<longleftrightarrow>
      (\<forall>owner shard. (owner, shard, Retired) \<in> set as \<longrightarrow> owner < slot (?H ! unat shard))"
    unfolding check_retired_iff by (auto simp: entries_def less_AllocationOwnerSlot_def)
  moreover have "slot (?H ! unat shard) = active \<longleftrightarrow> (active, shard, Active) \<in> set as"
    if "(owner, shard, state) \<in> set as" for owner shard state active
    using active_owners_nth [OF one, of shard active] range that
    by (metis AllocationOwnerSlot.collapse AllocationOwnerSlot.sel case_prodD)
  ultimately show ?thesis by metis
qed

lemma shards_exactly_one:
  assumes "distinct (map fst as)"
  shows "(\<forall>s < unat n. length (actives (sorted_entries as) s) = 1)
    \<longleftrightarrow> (\<forall>shard < n. \<exists>!owner. (owner, shard, Active) \<in> set as)"
proof
  assume *: "\<forall>s < unat n. length (actives (sorted_entries as) s) = 1"
  show "\<forall>shard < n. \<exists>!owner. (owner, shard, Active) \<in> set as"
  proof (intro allI impI)
    fix shard assume "shard < n"
    then have "unat shard < unat n" by (simp add: word_less_nat_alt)
    with * show "\<exists>!owner. (owner, shard, Active) \<in> set as"
      using actives_length_1 [OF assms, of "unat shard" n] by simp
  qed
next
  assume *: "\<forall>shard < n. \<exists>!owner. (owner, shard, Active) \<in> set as"
  show "\<forall>s < unat n. length (actives (sorted_entries as) s) = 1"
  proof (intro allI impI)
    fix s assume s: "s < unat n"
    have "unat (word_of_nat s :: u16) = s"
      by (intro unat_of_nat_eq less_trans [OF s unsigned_less])
    with s have "(word_of_nat s :: u16) < n"
      by (simp add: word_less_nat_alt)
    with * s show "length (actives (sorted_entries as) s) = 1"
      using actives_length_1 [OF assms s] by blast
  qed
qed

lemma try_from_assignments_iff:
  "try_from_assignments n as = Inr m \<longleftrightarrow> assignments_ok n as
    \<and> m = \<lparr>by_owner = sorted_entries as, by_physical_shard = active_owners n as\<rparr>"
proof -
  have "try_from_assignments n as = Inr m \<longleftrightarrow> n \<noteq> 0 \<and> unat n \<le> length as
      \<and> (\<forall>(owner, _, _) \<in> set as. owner \<le> MAX_ALLOCATION_OWNER_SLOT)
      \<and> distinct (map fst as)
      \<and> (\<exists>ys. record_active (sorted_entries as) (replicate (unat n) None) = Inr (map Some ys)
          \<and> check_retired ys (sorted_entries as) = Inr ()
          \<and> m = \<lparr>by_owner = sorted_entries as, by_physical_shard = ys\<rparr>)"
    unfolding try_from_assignments_def
    using not_adjacent_equal_sort [of "entries as"] distinct_entries [of as]
    by (auto simp: result_simps try_map_entries try_map_the Let_def not_less)
  also have "\<dots> \<longleftrightarrow> (n \<noteq> 0 \<and> (\<forall>(owner, _, _) \<in> set as. owner \<le> MAX_ALLOCATION_OWNER_SLOT)
      \<and> distinct (map fst as)
      \<and> (\<forall>(_, shard, _) \<in> set as. unat shard < unat n)
      \<and> (\<forall>shard < n. \<exists>!owner. (owner, shard, Active) \<in> set as)
      \<and> (\<forall>shard owner active. (owner, shard, Retired) \<in> set as \<longrightarrow> (active, shard, Active) \<in> set as
        \<longrightarrow> owner < active)) \<and> unat n \<le> length as
      \<and> m = \<lparr>by_owner = sorted_entries as, by_physical_shard = active_owners n as\<rparr>"
    unfolding record_active_entries using check_retired_entries [of as n] shards_exactly_one [of as n]
    by blast
  also have "\<dots> \<longleftrightarrow> assignments_ok n as \<and> unat n \<le> length as
      \<and> m = \<lparr>by_owner = sorted_entries as, by_physical_shard = active_owners n as\<rparr>"
    unfolding assignments_ok_def by (auto simp: word_less_nat_alt)
  finally show ?thesis
    using assignments_ok_length by blast
qed

lemma strictly_sorted_entries:
  "distinct (map fst as) \<Longrightarrow> sorted_wrt (<) (map fst (sorted_entries as))"
  using distinct_entries [of as] strict_sorted_iff [of "map fst (sorted_entries as)"]
  by (simp add: distinct_map)

lemma lookup_entries:
  assumes "distinct (map fst as)"
  shows "(case binary_search_by_key fst (AllocationOwnerSlot owner) (sorted_entries as) of
      Inr index \<Rightarrow> Some (snd (sorted_entries as ! index)) | Inl _ \<Rightarrow> None) = Some (shard, state)
    \<longleftrightarrow> (owner, shard, state) \<in> set as"
proof -
  note found = binary_search_by_key_Inr [OF strictly_sorted_entries [OF assms]]
  have mem: "(owner, shard, state) \<in> set as \<longleftrightarrow>
      (\<exists>i < length (sorted_entries as). sorted_entries as ! i = (AllocationOwnerSlot owner, shard, state))"
    by (metis entries_member in_set_conv_nth set_sort)
  show ?thesis
  proof (cases "binary_search_by_key fst (AllocationOwnerSlot owner) (sorted_entries as)")
    case (Inl i)
    then show ?thesis using found mem by (metis Inl_Inr_False fst_conv old.sum.simps(5) option.distinct(1))
  next
    case (Inr i)
    then have i: "i < length (sorted_entries as)" "fst (sorted_entries as ! i) = AllocationOwnerSlot owner"
      using found by blast+
    have uniq: "j = i" if "j < length (sorted_entries as)"
      "fst (sorted_entries as ! j) = AllocationOwnerSlot owner" for j
      using found [of "AllocationOwnerSlot owner" j] that Inr by simp
    have "snd (sorted_entries as ! i) = (shard, state) \<longleftrightarrow>
        sorted_entries as ! i = (AllocationOwnerSlot owner, shard, state)"
      using i(2) by (simp add: prod_eq_iff)
    also have "\<dots> \<longleftrightarrow> (owner, shard, state) \<in> set as"
      unfolding mem using i(1) uniq by (metis fst_conv)
    finally show ?thesis using Inr by simp
  qed
qed

text \<open>C27: An owner map is built exactly from the assignment lists that meet its contract
  (distinct owners in the ten-bit range, known shards, one active owner per shard, greater
  than the retired owners of that shard), and its binary searches then look up exactly the
  given assignments.\<close>

theorem owner_map_correct:
  "case try_from_assignments n as of
     Inl _ \<Rightarrow> \<not> assignments_ok n as
   | Inr m \<Rightarrow> assignments_ok n as
       \<and> (physical_shard m (AllocationOwnerSlot owner) = Some shard
           \<longleftrightarrow> (owner, shard, Active) \<in> set as \<or> (owner, shard, Retired) \<in> set as)
       \<and> (owner_is_active m (AllocationOwnerSlot owner) \<longleftrightarrow> (\<exists>shard. (owner, shard, Active) \<in> set as))
       \<and> (owner_for_physical_shard m shard = Some (AllocationOwnerSlot owner)
           \<longleftrightarrow> (owner, shard, Active) \<in> set as)"
proof (cases "try_from_assignments n as")
  case (Inl e)
  then show ?thesis using try_from_assignments_iff [of n as] by auto
next
  case (Inr m)
  then have ok: "assignments_ok n as"
    and m: "m = \<lparr>by_owner = sorted_entries as, by_physical_shard = active_owners n as\<rparr>"
    using try_from_assignments_iff by auto
  have d: "distinct (map fst as)" using ok by (simp add: assignments_ok_def)
  note look = lookup_entries [OF d, of owner]
  let ?b = "binary_search_by_key fst (AllocationOwnerSlot owner) (sorted_entries as)"
  have "physical_shard m (AllocationOwnerSlot owner) = Some shard
      \<longleftrightarrow> (\<exists>state. (owner, shard, state) \<in> set as)"
    unfolding look [symmetric] by (auto simp: physical_shard_def m prod_eq_iff split: sum.splits)
  moreover have "(\<exists>state. (owner, shard, state) \<in> set as)
      \<longleftrightarrow> (owner, shard, Active) \<in> set as \<or> (owner, shard, Retired) \<in> set as"
    by (metis AllocationOwnerState.exhaust)
  moreover have "owner_is_active m (AllocationOwnerSlot owner) \<longleftrightarrow> (\<exists>shard. (owner, shard, Active) \<in> set as)"
    unfolding look [symmetric]
    by (auto simp: owner_is_active_def owner_state_def m prod_eq_iff split: sum.splits)
  moreover have "owner_for_physical_shard m shard = Some (AllocationOwnerSlot owner)
      \<longleftrightarrow> (owner, shard, Active) \<in> set as"
  proof (cases "shard < n")
    case True
    have "\<forall>s < unat n. length (actives (sorted_entries as) s) = 1"
      using ok shards_exactly_one [OF d, of n] by (simp add: assignments_ok_def)
    with True show ?thesis
      using active_owners_nth [of n as shard owner]
      by (simp add: owner_for_physical_shard_def m word_less_nat_alt)
  next
    case False
    then show ?thesis
      using ok by (auto simp: owner_for_physical_shard_def m word_less_nat_alt assignments_ok_def)
  qed
  ultimately show ?thesis using Inr ok by simp
qed

lemma native_decode_iff:
  assumes "is_i64 i"
  shows "native_decode i = Inr x \<longleftrightarrow> native_valid x \<and> native_encode x = Some i"
proof -
  have "native_decode i = Inr x \<longleftrightarrow> decode_native_range_v1_with_reserved_error i DataCorruption = Inr (Some x)"
    by (auto simp: native_decode_def decode_native_range_v1_def result_simps split: option.splits)
  then show ?thesis
    using native_id.decode_iff [OF assms] by simp
qed

text \<open>C28: \<open>native_range_v1\<close> is a bijective codec: a value decodes to an identifier
  exactly when that identifier is well formed and encodes, without a panic, to this value.\<close>

theorem native_codec_exact:
  assumes "is_i64 i"
  shows "native_decode i = Inr x \<longleftrightarrow> native_valid x \<and> native_encode x = Some i"
  by (rule native_decode_iff [OF assms])

theorem native_codec_exact_witness:
  "native_decode 0x4010000000000007 = Inr \<lparr>native_owner = AllocationOwnerSlot 1, local_sequence = 7\<rparr>"
proof -
  let ?x = "\<lparr>native_owner = AllocationOwnerSlot 1, local_sequence = 7\<rparr>"
  have "native_valid ?x \<and> native_encode ?x = Some 0x4010000000000007"
    by (simp add: native_valid_def native_encode_def sequence_floor_bits_def native_consts i64_try_from_def)
  then show ?thesis
    using native_codec_exact [of "0x4010000000000007" ?x] by (simp add: is_i64_def)
qed

text \<open>C29: \<open>hilo_v1\<close> is a bijective codec in the same sense.\<close>

theorem hilo_codec_exact:
  assumes "is_i64 i"
  shows "hilo_decode i = Inr x \<longleftrightarrow> hilo_valid x \<and> hilo_encode x = Some i"
proof -
  have "hilo_decode i = Inr x \<longleftrightarrow> decode_hilo_v1_with_reserved_error i DataCorruption = Inr (Some x)"
    by (auto simp: hilo_decode_def decode_hilo_v1_def result_simps split: option.splits)
  then show ?thesis
    using hilo_id.decode_iff [OF assms] by simp
qed

theorem hilo_codec_exact_witness:
  "hilo_decode 0x2000000000000009 = Inr \<lparr>hilo_sequence = 9\<rparr>"
proof -
  let ?x = "\<lparr>hilo_sequence = 9\<rparr>"
  have "hilo_valid ?x \<and> hilo_encode ?x = Some 0x2000000000000009"
    by (simp add: hilo_valid_def hilo_encode_def hilo_consts i64_try_from_def)
  then show ?thesis
    using hilo_codec_exact [of "0x2000000000000009" ?x] by (simp add: is_i64_def)
qed

text \<open>C30: The identifiers of an owner are exactly the interval from its first identifier to
  its ceiling, and the interval of a smaller owner lies entirely below that of a greater
  one, so that a table whose active owner exceeds the retired ones allocates upwards.\<close>

theorem native_owner_intervals:
  assumes "slot owner \<le> MAX_ALLOCATION_OWNER_SLOT" "slot owner' \<le> MAX_ALLOCATION_OWNER_SLOT"
  shows "\<exists>lo first hi lo'. native_range_v1_sequence_floor owner = Some lo
    \<and> native_range_v1_first_id owner = Some first
    \<and> native_range_v1_sequence_ceiling owner = Some hi
    \<and> native_range_v1_sequence_floor owner' = Some lo'
    \<and> (\<forall>i. is_i64 i \<longrightarrow> ((\<exists>x. native_decode i = Inr x \<and> native_owner x = owner) \<longleftrightarrow> first \<le> i \<and> i \<le> hi))
    \<and> (owner < owner' \<longrightarrow> hi < lo')"
proof -
  define a where "a = uint (slot owner)"
  define a' where "a' = uint (slot owner')"
  have a: "0 \<le> a" "a < 1024" "0 \<le> a'" "a' < 1024"
    using assms by (simp_all add: a_def a'_def slot_of_uint)
  define lo where "lo = 2 ^ 62 + 2 ^ 52 * a"
  have floor: "native_range_v1_sequence_floor owner = Some lo"
    "native_range_v1_sequence_floor owner' = Some (2 ^ 62 + 2 ^ 52 * a')"
    using a uint_sequence_floor_bits assms
    by (simp_all add: native_range_v1_sequence_floor_def i64_try_from_def lo_def a_def a'_def)
  then have first: "native_range_v1_first_id owner = Some (lo + 1)"
    using a by (simp add: native_range_v1_first_id_def lo_def)
  have max: "uint MAX_NATIVE_RANGE_V1_LOCAL_SEQUENCE = 2 ^ 52 - 1"
    by (rule uint_native_limits)
  then have "MAX_NATIVE_RANGE_V1_LOCAL_SEQUENCE \<noteq> 0" by (auto simp: word_uint_eq_iff)
  then have hi: "native_range_v1_sequence_ceiling owner = Some (lo + (2 ^ 52 - 1))"
    using native_encode_eq [of "\<lparr>native_owner = owner, local_sequence = MAX_NATIVE_RANGE_V1_LOCAL_SEQUENCE\<rparr>"]
      assms(1) max
    by (simp add: native_range_v1_sequence_ceiling_def native_new_def native_valid_def lo_def a_def
        word_greater_zero_iff)
  have "(\<exists>x. native_decode i = Inr x \<and> native_owner x = owner) \<longleftrightarrow> lo + 1 \<le> i \<and> i \<le> lo + (2 ^ 52 - 1)"
    if i64: "is_i64 i" for i
  proof
    assume "\<exists>x. native_decode i = Inr x \<and> native_owner x = owner"
    then obtain x where x: "native_valid x" "native_encode x = Some i" "native_owner x = owner"
      using native_decode_iff [OF i64] by blast
    then show "lo + 1 \<le> i \<and> i \<le> lo + (2 ^ 52 - 1)"
      using native_encode_eq [of x] by (auto simp: native_valid_iff lo_def a_def)
  next
    assume i: "lo + 1 \<le> i \<and> i \<le> lo + (2 ^ 52 - 1)"
    define x where "x = \<lparr>native_owner = owner, local_sequence = word_of_int (i - lo)\<rparr>"
    have "uint (local_sequence x) = i - lo"
      unfolding x_def NativeRangeV1Id.select_convs using i by (intro uint_word_of_int_small) auto
    then have "native_valid x \<and> native_encode x = Some i \<and> native_owner x = owner"
      using i native_encode_eq [of x] assms(1)
      by (simp add: native_valid_iff slot_of_uint lo_def a_def x_def)
    then show "\<exists>x. native_decode i = Inr x \<and> native_owner x = owner"
      using native_decode_iff [OF i64] by blast
  qed
  moreover have "lo + (2 ^ 52 - 1) < 2 ^ 62 + 2 ^ 52 * a'" if "owner < owner'"
    using that by (simp add: less_AllocationOwnerSlot_def word_less_def a_def a'_def lo_def)
  ultimately show ?thesis
    using floor first hi by blast
qed

theorem native_owner_intervals_witness:
  "\<exists>lo first hi lo'. native_range_v1_sequence_floor (AllocationOwnerSlot 3) = Some lo
    \<and> native_range_v1_first_id (AllocationOwnerSlot 3) = Some first
    \<and> native_range_v1_sequence_ceiling (AllocationOwnerSlot 3) = Some hi
    \<and> native_range_v1_sequence_floor (AllocationOwnerSlot 5) = Some lo'
    \<and> (\<forall>i. is_i64 i \<longrightarrow> ((\<exists>x. native_decode i = Inr x \<and> native_owner x = AllocationOwnerSlot 3)
        \<longleftrightarrow> first \<le> i \<and> i \<le> hi))
    \<and> (AllocationOwnerSlot 3 < AllocationOwnerSlot 5 \<longrightarrow> hi < lo')"
  by (rule native_owner_intervals) (simp_all add: native_consts)

text \<open>C31: Classification never confuses the formats: a well-formed native identifier is
  recognised under the native policy and refused under the hi/lo policy, a hi/lo
  identifier is recognised under its own policy and routed as a legacy key under the
  native one, and without a policy every value is a legacy key.\<close>

theorem classification_by_policy:
  assumes "native_valid x" "hilo_valid y"
  shows "\<exists>i j. native_encode x = Some i \<and> hilo_encode y = Some j
    \<and> classify_generated_id (NativeRangePolicy c) i = Inr (NativeRangeV1 x)
    \<and> classify_generated_id (HiloPolicy c) i = Inl DataCorruption
    \<and> classify_caller_generated_id (HiloPolicy c) i = Inl InvalidArgument
    \<and> classify_generated_id (HiloPolicy c) j = Inr (HiloV1 y)
    \<and> classify_generated_id (NativeRangePolicy c) j = Inr (Legacy j)
    \<and> classify_generated_id NoPolicy i = Inr (Legacy i)"
proof -
  obtain i where i: "native_encode x = Some i" "is_i64 i"
    "\<And>e. decode_native_range_v1_with_reserved_error i e = Inr (Some x)"
    using native_id.encode_decode [OF assms(1)] by (metis option.inject)
  obtain j where j: "hilo_encode y = Some j" "is_i64 j"
    "\<And>e. decode_hilo_v1_with_reserved_error j e = Inr (Some y)"
    using hilo_id.encode_decode [OF assms(2)] by (metis option.inject)
  have "2 ^ 62 \<le> i"
    using i(1) native_encode_eq [OF assms(1)] by auto
  then have "decode_hilo_v1_with_reserved_error i e = Inl e" for e
    using decode_hilo_eq [OF i(2)] by auto
  moreover have "j < 2 ^ 62"
    using j(1) hilo_encode_eq [OF assms(2)] assms(2) by (auto simp: hilo_valid_iff)
  then have "decode_native_range_v1_with_reserved_error j e = Inr None" for e
    using decode_native_eq [OF j(2)] by simp
  ultimately show ?thesis
    using i j by (auto simp: classify_generated_id_def classify_caller_generated_id_def
        decode_native_range_v1_def decode_hilo_v1_def)
qed

theorem classification_by_policy_witness:
  "\<exists>i j. native_encode \<lparr>native_owner = AllocationOwnerSlot 1, local_sequence = 7\<rparr> = Some i
    \<and> hilo_encode \<lparr>hilo_sequence = 9\<rparr> = Some j
    \<and> classify_generated_id (NativeRangePolicy ''id'') i
      = Inr (NativeRangeV1 \<lparr>native_owner = AllocationOwnerSlot 1, local_sequence = 7\<rparr>)
    \<and> classify_generated_id (HiloPolicy ''id'') i = Inl DataCorruption
    \<and> classify_caller_generated_id (HiloPolicy ''id'') i = Inl InvalidArgument
    \<and> classify_generated_id (HiloPolicy ''id'') j = Inr (HiloV1 \<lparr>hilo_sequence = 9\<rparr>)
    \<and> classify_generated_id (NativeRangePolicy ''id'') j = Inr (Legacy j)
    \<and> classify_generated_id NoPolicy i = Inr (Legacy i)"
  by (rule classification_by_policy)
    (simp_all add: native_valid_def hilo_valid_def native_consts hilo_consts)

end
