(* ===== verification/Hilo.thy ===== *)
theory Hilo
  imports Generated_Id
begin

text \<open>
  Global hi/lo allocation: the durable reservation of blocks in the manifest
  (\<open>reserve_hilo_v1_block\<close> in \<open>storage/manifest.rs\<close>) and their process-local
  consumption (\<open>storage/hilo.rs\<close>).  A \<open>TableId\<close> is its number.  The per-table mutex
  and the immediate SQLite transaction make each operation atomic, so that an
  execution is a sequence of operations of several processes on one manifest.
  A failed \<open>expect\<close> is \<open>None\<close>.
\<close>

section \<open>Process-local allocator\<close>

record DurableHiloLease =
  lease_table_id :: u64
  lease_owner_id :: bytes
  lease_fence :: u64
  first_sequence :: u64
  last_sequence :: u64

record HiloAllocation =
  alloc_id :: int
  alloc_table_id :: u64
  alloc_owner_id :: bytes
  alloc_fence :: u64

record CachedRange =
  range_owner_id :: bytes
  range_fence :: u64
  range_next :: u64
  range_last :: u64

record HiloAllocator =
  owner_id :: bytes
  tables :: "u64 \<rightharpoonup> CachedRange option"

definition validate_lease :: "u64 \<Rightarrow> bytes \<Rightarrow> DurableHiloLease \<Rightarrow> unit EngineResult" where
  "validate_lease table_id owner lease =
    (if lease_table_id lease \<noteq> table_id
      \<or> lease_owner_id lease \<noteq> owner
      \<or> lease_fence lease = 0
      \<or> first_sequence lease = 0
      \<or> first_sequence lease > last_sequence lease
      \<or> last_sequence lease > MAX_HILO_V1_SEQUENCE
     then Inl DataCorruption else Inr ())"

definition needs_lease :: "CachedRange option \<Rightarrow> bool" where
  "needs_lease cached = (case cached of None \<Rightarrow> True | Some current \<Rightarrow> range_next current > range_last current)"

text \<open>The end of \<open>allocate\<close>: consume one sequence of the installed range.\<close>

definition consume ::
    "HiloAllocator \<Rightarrow> u64 \<Rightarrow> CachedRange \<Rightarrow> (HiloAllocation EngineResult \<times> HiloAllocator) option" where
  "consume self table_id current =
    (let s = range_next current in
     if s = - 1 then None
     else let self' = self\<lparr>tables := (tables self)(table_id \<mapsto> Some (current\<lparr>range_next := s + 1\<rparr>))\<rparr> in
       case hilo_new s of
         Inl e \<Rightarrow> Some (Inl e, self')
       | Inr x \<Rightarrow> (case hilo_encode x of
             None \<Rightarrow> None
           | Some i \<Rightarrow> Some (Inr \<lparr>alloc_id = i, alloc_table_id = table_id,
               alloc_owner_id = range_owner_id current, alloc_fence = range_fence current\<rparr>, self')))"

definition allocate ::
    "HiloAllocator \<Rightarrow> u64 \<Rightarrow> (bytes \<Rightarrow> 'm \<Rightarrow> DurableHiloLease EngineResult \<times> 'm) \<Rightarrow> 'm
      \<Rightarrow> (HiloAllocation EngineResult \<times> HiloAllocator \<times> 'm) option" where
  "allocate self table_id reserve m =
    (let self1 = (case tables self table_id of
           None \<Rightarrow> self\<lparr>tables := (tables self)(table_id \<mapsto> None)\<rparr>
         | Some _ \<Rightarrow> self);
         cached = (case tables self1 table_id of Some r \<Rightarrow> r | None \<Rightarrow> None) in
     if needs_lease cached then
       (case reserve (owner_id self) m of
          (Inl e, m') \<Rightarrow> Some (Inl e, self1, m')
        | (Inr lease, m') \<Rightarrow>
            (case validate_lease table_id (owner_id self) lease of
               Inl e \<Rightarrow> Some (Inl e, self1, m')
             | Inr _ \<Rightarrow>
                 map_option (\<lambda>(r, self2). (r, self2, m'))
                   (consume self1 table_id
                     \<lparr>range_owner_id = lease_owner_id lease, range_fence = lease_fence lease,
                      range_next = first_sequence lease, range_last = last_sequence lease\<rparr>)))
     else
       (case cached of
          None \<Rightarrow> None
        | Some current \<Rightarrow> map_option (\<lambda>(r, self2). (r, self2, m)) (consume self1 table_id current)))"

section \<open>Durable reservation in the manifest\<close>

definition HILO_V1_BLOCK_SIZE :: u64 where
  "HILO_V1_BLOCK_SIZE = 4096"

record HiloLeaseRow =
  block_size :: int
  next_sequence :: int
  fence_token :: int
  last_owner_id :: "bytes option"
  last_first_sequence :: "int option"
  last_last_sequence :: "int option"

text \<open>The part of the manifest a reservation reads.  \<open>snapshot_status\<close> is the outcome
  of the validation of the whole manifest and of its readiness, which are outside
  this component.\<close>

record HiloManifest =
  snapshot_status :: "unit EngineResult"
  active_table_provisioning :: bool
  logical_catalog :: "(u64 \<rightharpoonup> GeneratedIdPolicy) option"
  active_hilo_id_table_ids :: "u64 list"
  briskdb_hilo_leases :: "u64 \<rightharpoonup> HiloLeaseRow"

text \<open>The outcome of the commit of the transaction: SQLite may report an error
  although the transaction became durable.\<close>

datatype CommitOutcome = Committed | NotCommitted EngineErrorKind | CommittedWithError EngineErrorKind

definition is_hilo_policy :: "GeneratedIdPolicy \<Rightarrow> bool" where
  "is_hilo_policy p = (case p of HiloPolicy _ \<Rightarrow> True | _ \<Rightarrow> False)"

definition active_hilo :: "HiloManifest \<Rightarrow> u64 \<Rightarrow> bool" where
  "active_hilo m table_id =
    (case binary_search_by_key id table_id (active_hilo_id_table_ids m) of Inr _ \<Rightarrow> True | Inl _ \<Rightarrow> False)"

definition nonneg_u64 :: "int \<Rightarrow> u64 EngineResult" where
  "nonneg_u64 i = (if 0 \<le> i then Inr (word_of_int i) else Inl DataCorruption)"

text \<open>The row update and the lease it stands for, computed inside the transaction.\<close>

definition reserve_row :: "HiloLeaseRow \<Rightarrow> u64 \<Rightarrow> bytes \<Rightarrow> (HiloLeaseRow \<times> DurableHiloLease) EngineResult" where
  "reserve_row row table_id owner =
    and_then (check_that (block_size row = uint HILO_V1_BLOCK_SIZE) DataCorruption) (\<lambda>_.
    and_then (nonneg_u64 (next_sequence row)) (\<lambda>first.
    and_then (check_that (first \<le> MAX_HILO_V1_SEQUENCE) LimitExceeded) (\<lambda>_.
    and_then (nonneg_u64 (fence_token row)) (\<lambda>fence.
    and_then (check_that (fence + 1 \<noteq> 0 \<and> fence + 1 \<le> 0x7FFFFFFFFFFFFFFF) LimitExceeded) (\<lambda>_.
    let next_fence = fence + 1;
        added = first + (HILO_V1_BLOCK_SIZE - 1);
        last = min (if added < first then - 1 else added) MAX_HILO_V1_SEQUENCE;
        next = last + 1 in
    Inr (row\<lparr>next_sequence := uint next, fence_token := uint next_fence,
            last_owner_id := Some owner, last_first_sequence := Some (uint first),
            last_last_sequence := Some (uint last)\<rparr>,
         \<lparr>lease_table_id = table_id, lease_owner_id = owner, lease_fence = next_fence,
          first_sequence = first, last_sequence = last\<rparr>))))))"

definition reserve_hilo_v1_block ::
    "CommitOutcome \<Rightarrow> u64 \<Rightarrow> bytes \<Rightarrow> HiloManifest \<Rightarrow> DurableHiloLease EngineResult \<times> HiloManifest" where
  "reserve_hilo_v1_block outcome table_id owner m =
    (let result =
       and_then (snapshot_status m) (\<lambda>_.
       and_then (check_that (\<not> active_table_provisioning m) FailedPrecondition) (\<lambda>_.
       and_then (case logical_catalog m of None \<Rightarrow> Inl Internal | Some c \<Rightarrow> Inr c) (\<lambda>catalog.
       and_then (case catalog table_id of None \<Rightarrow> Inl InvalidArgument | Some p \<Rightarrow> Inr p) (\<lambda>policy.
       and_then (check_that (is_hilo_policy policy \<and> active_hilo m table_id) FailedPrecondition) (\<lambda>_.
       and_then (check_that (table_id < 0x8000000000000000) NumericOutOfRange) (\<lambda>_.
       and_then (case briskdb_hilo_leases m table_id of None \<Rightarrow> Inl DataCorruption | Some r \<Rightarrow> Inr r) (\<lambda>row.
       reserve_row row table_id owner))))))) in
     case result of
       Inl e \<Rightarrow> (Inl e, m)
     | Inr (row, lease) \<Rightarrow>
         let m' = m\<lparr>briskdb_hilo_leases := (briskdb_hilo_leases m)(table_id \<mapsto> row)\<rparr> in
         (case outcome of
            Committed \<Rightarrow> (Inr lease, m')
          | NotCommitted e \<Rightarrow> (Inl e, m)
          | CommittedWithError e \<Rightarrow> (Inl e, m')))"

section \<open>What an allocation does\<close>

definition cached_ok :: "CachedRange \<Rightarrow> bool" where
  "cached_ok r \<longleftrightarrow> range_next r \<noteq> 0 \<and> range_last r \<le> MAX_HILO_V1_SEQUENCE"

definition allocator_ok :: "HiloAllocator \<Rightarrow> bool" where
  "allocator_ok self \<longleftrightarrow> (\<forall>t r. tables self t = Some (Some r) \<longrightarrow> cached_ok r)"

text \<open>The sequences a process may still hand out for a table.\<close>

definition avail :: "HiloAllocator \<Rightarrow> u64 \<Rightarrow> nat set" where
  "avail self t = (case tables self t of
      Some (Some r) \<Rightarrow> {unat (range_next r)..unat (range_last r)} | _ \<Rightarrow> {})"

lemma unat_MAX_HILO: "unat MAX_HILO_V1_SEQUENCE = 2 ^ 61 - 1"
  by (simp add: hilo_consts push_bit_eq_mult)

lemma cached_range_bounds:
  assumes "cached_ok r" "\<not> needs_lease (Some r)"
  shows "0 < unat (range_next r)" "unat (range_next r) \<le> unat (range_last r)"
    "unat (range_last r) < 2 ^ 61" "unat (range_next r) < 2 ^ 61"
  using assms unat_MAX_HILO
  by (simp_all add: cached_ok_def needs_lease_def not_less word_le_nat_alt unat_gt_0)

lemma consume_ok:
  assumes "cached_ok r" "\<not> needs_lease (Some r)"
  shows "consume self t r = Some (Inr \<lparr>alloc_id = 2 ^ 61 + uint (range_next r), alloc_table_id = t,
      alloc_owner_id = range_owner_id r, alloc_fence = range_fence r\<rparr>,
    self\<lparr>tables := (tables self)(t \<mapsto> Some (r\<lparr>range_next := range_next r + 1\<rparr>))\<rparr>)"
proof -
  note b = cached_range_bounds [OF assms]
  have s: "range_next r \<le> MAX_HILO_V1_SEQUENCE" "range_next r \<noteq> 0"
    using b unat_MAX_HILO by (auto simp: word_le_nat_alt)
  then have new: "hilo_new (range_next r) = Inr \<lparr>hilo_sequence = range_next r\<rparr>"
    by (simp add: hilo_new_def)
  have enc: "hilo_encode \<lparr>hilo_sequence = range_next r\<rparr> = Some (2 ^ 61 + uint (range_next r))"
    using s by (subst hilo_encode_eq) (simp_all add: hilo_valid_def word_greater_zero_iff)
  have "range_next r \<noteq> - 1"
    using b(4) by (auto simp: unsigned_minus_1_eq_mask mask_eq_exp_minus_1)
  then show ?thesis
    by (simp add: consume_def Let_def new enc)
qed

lemma unat_range_next_Suc:
  assumes "cached_ok r" "\<not> needs_lease (Some r)"
  shows "unat (range_next r + 1) = unat (range_next r) + 1"
  using unat_add_lem [of "range_next r" 1] cached_range_bounds(4) [OF assms] by simp

text \<open>An allocation from a cached range takes its least sequence.\<close>

lemma allocate_cached:
  assumes "allocator_ok self" "tables self t = Some (Some r)" "\<not> needs_lease (Some r)"
  shows "\<exists>a self'. allocate self t reserve m = Some (Inr a, self', m)
    \<and> alloc_id a = 2 ^ 61 + uint (range_next r)
    \<and> allocator_ok self' \<and> unat (range_next r) \<in> avail self t
    \<and> avail self' = (avail self)(t := avail self t - {unat (range_next r)})"
proof -
  have ok: "cached_ok r" using assms by (auto simp: allocator_ok_def)
  note b = cached_range_bounds [OF ok assms(3)] and suc = unat_range_next_Suc [OF ok assms(3)]
  let ?self' = "self\<lparr>tables := (tables self)(t \<mapsto> Some (r\<lparr>range_next := range_next r + 1\<rparr>))\<rparr>"
  have "range_next r + 1 \<noteq> 0"
    using suc by (metis add_is_0 one_neq_zero unat_0)
  then have "allocator_ok ?self'"
    using assms(1) ok by (auto simp: allocator_ok_def cached_ok_def)
  moreover have "avail ?self' = (avail self)(t := avail self t - {unat (range_next r)})"
    using suc assms(2) by (auto simp: avail_def fun_eq_iff)
  moreover have "unat (range_next r) \<in> avail self t"
    using b assms(2) by (simp add: avail_def)
  ultimately show ?thesis
    using assms(2,3) consume_ok [OF ok assms(3), of self t] by (simp add: allocate_def Let_def)
qed

text \<open>Otherwise it reserves; a failure leaves the cached ranges as they are.\<close>

lemma allocate_reserving:
  assumes "allocator_ok self" "\<nexists>r. tables self t = Some (Some r) \<and> \<not> needs_lease (Some r)"
    and "reserve (owner_id self) m = (Inl e, m') \<or>
      reserve (owner_id self) m = (Inr l, m') \<and> validate_lease t (owner_id self) l = Inl e"
  shows "\<exists>self'. allocate self t reserve m = Some (Inl e, self', m')
    \<and> allocator_ok self' \<and> avail self' = avail self"
proof -
  let ?self' = "case tables self t of None \<Rightarrow> self\<lparr>tables := (tables self)(t \<mapsto> None)\<rparr> | Some _ \<Rightarrow> self"
  have "allocator_ok ?self'" "avail ?self' = avail self"
    using assms(1) by (auto simp: allocator_ok_def avail_def fun_eq_iff split: option.splits)
  moreover have "allocate self t reserve m = Some (Inl e, ?self', m')"
    using assms(2,3)
    by (auto simp: allocate_def Let_def needs_lease_def split: option.splits sum.splits)
  ultimately show ?thesis by blast
qed

lemma allocate_leased:
  assumes "allocator_ok self" "\<nexists>r. tables self t = Some (Some r) \<and> \<not> needs_lease (Some r)"
    and "reserve (owner_id self) m = (Inr l, m')" "validate_lease t (owner_id self) l = Inr u"
  shows "\<exists>a self'. allocate self t reserve m = Some (Inr a, self', m')
    \<and> alloc_id a = 2 ^ 61 + uint (first_sequence l)
    \<and> allocator_ok self'
    \<and> avail self' = (avail self)(t := {unat (first_sequence l) + 1..unat (last_sequence l)})"
proof -
  let ?r = "\<lparr>range_owner_id = lease_owner_id l, range_fence = lease_fence l,
    range_next = first_sequence l, range_last = last_sequence l\<rparr>"
  let ?self1 = "case tables self t of None \<Rightarrow> self\<lparr>tables := (tables self)(t \<mapsto> None)\<rparr> | Some _ \<Rightarrow> self"
  let ?self' = "?self1\<lparr>tables := (tables ?self1)(t \<mapsto> Some (?r\<lparr>range_next := range_next ?r + 1\<rparr>))\<rparr>"
  have ok: "cached_ok ?r" "\<not> needs_lease (Some ?r)"
    using assms(4) by (auto simp: validate_lease_def cached_ok_def needs_lease_def split: if_splits)
  have suc: "unat (first_sequence l + 1) = unat (first_sequence l) + 1"
    using unat_range_next_Suc [OF ok] by simp
  then have "first_sequence l + 1 \<noteq> 0"
    by (metis add_is_0 one_neq_zero unat_0)
  then have "allocator_ok ?self'"
    using assms(1) ok(1) by (auto simp: allocator_ok_def cached_ok_def split: option.splits)
  moreover have "avail ?self' = (avail self)(t := {unat (first_sequence l) + 1..unat (last_sequence l)})"
    using suc by (auto simp: avail_def fun_eq_iff split: option.splits)
  moreover have "allocate self t reserve m = Some (Inr \<lparr>alloc_id = 2 ^ 61 + uint (first_sequence l),
      alloc_table_id = t, alloc_owner_id = lease_owner_id l, alloc_fence = lease_fence l\<rparr>, ?self', m')"
    using assms(2-4) consume_ok [OF ok, of ?self1 t]
    by (auto simp: allocate_def Let_def needs_lease_def split: option.splits)
  ultimately show ?thesis by simp
qed

section \<open>Several processes on one manifest\<close>

record 'm hilo_system =
  sys_manifest :: 'm
  sys_procs :: "nat \<Rightarrow> HiloAllocator"
  sys_issued :: "(u64 \<times> int) list"

text \<open>\<open>HiloAllocator::new\<close>: a process incarnation starts without cached ranges; its
  identity comes from the random source of the operating system.\<close>

definition hilo_allocator_new :: "bytes \<Rightarrow> HiloAllocator" where
  "hilo_allocator_new random = \<lparr>owner_id = random, tables = Map.empty\<rparr>"

inductive hilo_step ::
    "('c \<Rightarrow> u64 \<Rightarrow> bytes \<Rightarrow> 'm \<Rightarrow> DurableHiloLease EngineResult \<times> 'm)
      \<Rightarrow> 'm hilo_system \<Rightarrow> 'm hilo_system \<Rightarrow> bool"
  for reserve where
  allocated:
    "allocate (sys_procs s p) t (reserve c t) (sys_manifest s) = Some (Inr a, self, m) \<Longrightarrow>
      hilo_step reserve s (s\<lparr>sys_manifest := m, sys_procs := (sys_procs s)(p := self),
        sys_issued := (t, alloc_id a) # sys_issued s\<rparr>)"
| refused:
    "allocate (sys_procs s p) t (reserve c t) (sys_manifest s) = Some (Inl e, self, m) \<Longrightarrow>
      hilo_step reserve s (s\<lparr>sys_manifest := m, sys_procs := (sys_procs s)(p := self)\<rparr>)"
| restarted:
    "hilo_step reserve s (s\<lparr>sys_procs := (sys_procs s)(p := hilo_allocator_new random)\<rparr>)"

inductive_cases hilo_stepE: "hilo_step reserve s s'"

text \<open>The sequences already handed out for a table.\<close>

definition issued :: "'m hilo_system \<Rightarrow> u64 \<Rightarrow> nat set" where
  "issued s t = {q. (t, 2 ^ 61 + int q) \<in> set (sys_issued s)}"

text \<open>The invariant: everything cached or issued lies below the head of the table,
  nothing is cached twice or cached and issued, and nothing is issued twice.\<close>

definition hilo_inv :: "('m \<Rightarrow> bool) \<Rightarrow> ('m \<Rightarrow> u64 \<Rightarrow> nat) \<Rightarrow> 'm hilo_system \<Rightarrow> bool" where
  "hilo_inv minv head s \<longleftrightarrow>
    minv (sys_manifest s)
    \<and> (\<forall>p. allocator_ok (sys_procs s p))
    \<and> (\<forall>p t x. x \<in> avail (sys_procs s p) t \<longrightarrow> x < head (sys_manifest s) t)
    \<and> (\<forall>t x. x \<in> issued s t \<longrightarrow> x < head (sys_manifest s) t)
    \<and> (\<forall>p t x. x \<in> avail (sys_procs s p) t \<longrightarrow> x \<notin> issued s t)
    \<and> (\<forall>p q t x. p \<noteq> q \<longrightarrow> x \<in> avail (sys_procs s p) t \<longrightarrow> x \<notin> avail (sys_procs s q) t)
    \<and> distinct (sys_issued s)"

lemma issued_Cons:
  "sys_issued s' = (t, 2 ^ 61 + int q) # sys_issued s \<Longrightarrow>
    issued s' = (issued s)(t := insert q (issued s t))"
  by (auto simp: issued_def fun_eq_iff)

lemma issued_cong: "sys_issued s' = sys_issued s \<Longrightarrow> issued s' = issued s"
  by (simp add: issued_def fun_eq_iff)

lemma hilo_invD:
  assumes "hilo_inv minv head s"
  shows "minv (sys_manifest s)" "allocator_ok (sys_procs s p)" "distinct (sys_issued s)"
    and "x \<in> avail (sys_procs s p) t \<Longrightarrow> x < head (sys_manifest s) t"
    and "x \<in> issued s t \<Longrightarrow> x < head (sys_manifest s) t"
    and "x \<in> avail (sys_procs s p) t \<Longrightarrow> x \<notin> issued s t"
    and "p \<noteq> q \<Longrightarrow> x \<in> avail (sys_procs s p) t \<Longrightarrow> x \<notin> avail (sys_procs s q) t"
  using assms unfolding hilo_inv_def by blast+

lemma hilo_invI:
  assumes "minv (sys_manifest s)" "\<And>p. allocator_ok (sys_procs s p)" "distinct (sys_issued s)"
    and "\<And>p t x. x \<in> avail (sys_procs s p) t \<Longrightarrow> x < head (sys_manifest s) t"
    and "\<And>t x. x \<in> issued s t \<Longrightarrow> x < head (sys_manifest s) t"
    and "\<And>p t x. x \<in> avail (sys_procs s p) t \<Longrightarrow> x \<notin> issued s t"
    and "\<And>p q t x. p \<noteq> q \<Longrightarrow> x \<in> avail (sys_procs s p) t \<Longrightarrow> x \<notin> avail (sys_procs s q) t"
  shows "hilo_inv minv head s"
  using assms unfolding hilo_inv_def by blast

lemma hilo_inv_refuse:
  assumes inv: "hilo_inv minv head s" and m': "minv m'" "\<And>t. head (sys_manifest s) t \<le> head m' t"
    and ok: "allocator_ok self'" and sub: "\<And>t. avail self' t \<subseteq> avail (sys_procs s p) t"
  shows "hilo_inv minv head (s\<lparr>sys_manifest := m', sys_procs := (sys_procs s)(p := self')\<rparr>)"
proof -
  note D = hilo_invD [OF inv]
  let ?s' = "s\<lparr>sys_manifest := m', sys_procs := (sys_procs s)(p := self')\<rparr>"
  have iss: "issued ?s' = issued s" by (rule issued_cong) simp
  have av: "x \<in> avail (sys_procs s r) t" if "x \<in> avail (sys_procs ?s' r) t" for r t x
    using sub that by (auto split: if_splits)
  show ?thesis
  proof (rule hilo_invI, goal_cases)
    case (4 r t x)
    then show ?case using D(4) [OF av] m'(2) by (fastforce intro: less_le_trans)
  next
    case (5 t x)
    then show ?case using D(5) m'(2) unfolding iss by (fastforce intro: less_le_trans)
  next
    case (6 r t x)
    then show ?case using D(6) [OF av] unfolding iss by blast
  next
    case (7 r r' t x)
    then show ?case using D(7) [OF _ av] av by blast
  qed (use m' ok D in auto)
qed

lemma hilo_inv_issue:
  assumes inv: "hilo_inv minv head s" and m': "minv m'" "\<And>t. head (sys_manifest s) t \<le> head m' t"
    and ok: "allocator_ok self'" "avail self' = (avail (sys_procs s p))(t := A)"
    and new: "insert q A \<subseteq> avail (sys_procs s p) t \<union> {head (sys_manifest s) t..<head m' t}" "q \<notin> A"
  shows "hilo_inv minv head (s\<lparr>sys_manifest := m', sys_procs := (sys_procs s)(p := self'),
    sys_issued := (t, 2 ^ 61 + int q) # sys_issued s\<rparr>)"
proof -
  note D = hilo_invD [OF inv]
  let ?s' = "s\<lparr>sys_manifest := m', sys_procs := (sys_procs s)(p := self'),
    sys_issued := (t, 2 ^ 61 + int q) # sys_issued s\<rparr>"
  have iss: "issued ?s' = (issued s)(t := insert q (issued s t))"
    by (rule issued_Cons) simp
  have fresh: "x < head m' t" "x \<notin> issued s t" "r \<noteq> p \<Longrightarrow> x \<notin> avail (sys_procs s r) t"
    if x: "x \<in> insert q A" for x r
  proof -
    consider "x \<in> avail (sys_procs s p) t" | "head (sys_manifest s) t \<le> x" "x < head m' t"
      using subsetD [OF new(1) x] by auto
    then show "x < head m' t" "x \<notin> issued s t" "r \<noteq> p \<Longrightarrow> x \<notin> avail (sys_procs s r) t"
      using D(4) [of x] D(5) [of x t] D(6) [of x p t] D(7) [of p r x t] m'(2) [of t]
      by (cases; force)+
  qed
  have av: "avail (sys_procs ?s' r) u = (if r = p \<and> u = t then A else avail (sys_procs s r) u)" for r u
    using ok(2) by simp
  show ?thesis
  proof (rule hilo_invI, goal_cases)
    case (3)
    have "q \<notin> issued s t" using fresh by blast
    then show ?case using D(3) by (simp add: issued_def)
  next
    case (4 r u x)
    then show ?case using D(4) [of x r u] fresh(1) [of x] m'(2) [of u] unfolding av
      by (auto split: if_splits intro: less_le_trans)
  next
    case (5 u x)
    then show ?case using D(5) [of x u] fresh(1) [of q] m'(2) [of u] unfolding iss
      by (auto split: if_splits intro: less_le_trans)
  next
    case (6 r u x)
    then show ?case using D(6) [of x r u] fresh [of x] fresh [of q] new(2) unfolding av iss
      by (auto split: if_splits)
  next
    case (7 r r' u x)
    then show ?case using D(7) [of r r' x u] fresh(3) [of x] unfolding av
      by (auto split: if_splits)
  qed (use m' ok D in auto)
qed

text \<open>What the allocator relies on: leases are taken above the head of the table,
  and the head moves above them.\<close>

locale lease_provider =
  fixes reserve :: "'c \<Rightarrow> u64 \<Rightarrow> bytes \<Rightarrow> 'm \<Rightarrow> DurableHiloLease EngineResult \<times> 'm"
    and minv :: "'m \<Rightarrow> bool"
    and head :: "'m \<Rightarrow> u64 \<Rightarrow> nat"
  assumes reserve_inv: "minv m \<Longrightarrow> minv (snd (reserve c t owner m))"
    and head_mono: "minv m \<Longrightarrow> head m t' \<le> head (snd (reserve c t owner m)) t'"
    and lease_fresh: "minv m \<Longrightarrow> fst (reserve c t owner m) = Inr l \<Longrightarrow>
      head m t \<le> unat (first_sequence l)
      \<and> unat (first_sequence l) < head (snd (reserve c t owner m)) t
      \<and> unat (last_sequence l) < head (snd (reserve c t owner m)) t"
begin

lemma allocate_spec:
  assumes "allocator_ok self" "minv m"
  obtains (issue_cached) a self' q where
      "allocate self t (reserve c t) m = Some (Inr a, self', m)"
      "alloc_id a = 2 ^ 61 + int q" "allocator_ok self'"
      "q \<in> avail self t" "avail self' = (avail self)(t := avail self t - {q})"
  | (issue_leased) a self' m' q hi where
      "allocate self t (reserve c t) m = Some (Inr a, self', m')"
      "alloc_id a = 2 ^ 61 + int q" "allocator_ok self'" "m' = snd (reserve c t (owner_id self) m)"
      "head m t \<le> q" "q < head m' t" "hi < head m' t" "avail self' = (avail self)(t := {q + 1..hi})"
  | (refuse) e self' m' where
      "allocate self t (reserve c t) m = Some (Inl e, self', m')"
      "allocator_ok self'" "m' = snd (reserve c t (owner_id self) m)" "avail self' = avail self"
proof (cases "\<exists>r. tables self t = Some (Some r) \<and> \<not> needs_lease (Some r)")
  case True
  then obtain r where r: "tables self t = Some (Some r)" "\<not> needs_lease (Some r)" by blast
  from allocate_cached [OF assms(1) r, of "reserve c t" m] show ?thesis
    using issue_cached [of _ _ "unat (range_next r)"] by auto
next
  case False
  obtain res m' where res: "reserve c t (owner_id self) m = (res, m')" by fastforce
  show ?thesis
  proof (cases res)
    case (Inl e)
    then show ?thesis
      using allocate_reserving [OF assms(1) False, of "reserve c t" m e m'] res refuse by auto
  next
    case (Inr l)
    note fresh = lease_fresh [OF assms(2), of c t "owner_id self" l]
    show ?thesis
    proof (cases "validate_lease t (owner_id self) l")
      case (Inl e)
      then show ?thesis
        using allocate_reserving [OF assms(1) False, of "reserve c t" m e m' l] res Inr refuse by auto
    next
      case v: (Inr u)
      then show ?thesis
        using allocate_leased [OF assms(1) False, of "reserve c t" m l m'] res Inr fresh
          issue_leased [of _ _ _ "unat (first_sequence l)"] by auto
    qed
  qed
qed

lemma step_inv:
  assumes inv: "hilo_inv minv head s" and step: "hilo_step reserve s s'"
  shows "hilo_inv minv head s'"
  using step
proof cases
  case (allocated p t c a self m)
  show ?thesis
  proof (cases rule: allocate_spec [OF hilo_invD(2) [OF inv] hilo_invD(1) [OF inv], of p t c,
        case_names issue_cached issue_leased refuse])
    case (issue_cached a' self' q)
    then show ?thesis
      using allocated hilo_inv_issue [OF inv hilo_invD(1) [OF inv] order_refl, of self' p t _ q]
      by auto
  next
    case (issue_leased a' self' m' q hi)
    have "hilo_inv minv head (s\<lparr>sys_manifest := m', sys_procs := (sys_procs s)(p := self'),
        sys_issued := (t, 2 ^ 61 + int q) # sys_issued s\<rparr>)"
      by (rule hilo_inv_issue [OF inv _ _ issue_leased(3,8)])
        (use issue_leased reserve_inv head_mono hilo_invD(1) [OF inv] in auto)
    then show ?thesis using issue_leased allocated by auto
  qed (use allocated in auto)
next
  case (refused p t c e self m)
  show ?thesis
  proof (cases rule: allocate_spec [OF hilo_invD(2) [OF inv] hilo_invD(1) [OF inv], of p t c,
        case_names issue_cached issue_leased refuse])
    case (refuse e' self' m')
    have "hilo_inv minv head (s\<lparr>sys_manifest := m', sys_procs := (sys_procs s)(p := self')\<rparr>)"
      by (rule hilo_inv_refuse [OF inv _ _ refuse(2)])
        (use refuse reserve_inv head_mono hilo_invD(1) [OF inv] in auto)
    then show ?thesis using refuse refused by auto
  qed (use refused in auto)
next
  case (restarted p random)
  have "s\<lparr>sys_procs := (sys_procs s)(p := hilo_allocator_new random)\<rparr>
      = s\<lparr>sys_manifest := sys_manifest s, sys_procs := (sys_procs s)(p := hilo_allocator_new random)\<rparr>"
    by simp
  moreover have "hilo_inv minv head \<dots>"
    by (rule hilo_inv_refuse [OF inv hilo_invD(1) [OF inv]])
      (auto simp: allocator_ok_def avail_def hilo_allocator_new_def)
  ultimately show ?thesis using restarted by simp
qed

lemma no_panic:
  "allocator_ok self \<Longrightarrow> minv m \<Longrightarrow> allocate self t (reserve c t) m \<noteq> None"
  by (rule allocate_spec [of self m t c]) auto

end

section \<open>The manifest provides leases\<close>

text \<open>SQLite integers are 64-bit; the head of a table is its next sequence.\<close>

definition hilo_manifest_ok :: "HiloManifest \<Rightarrow> bool" where
  "hilo_manifest_ok m \<longleftrightarrow> (\<forall>t row. briskdb_hilo_leases m t = Some row \<longrightarrow>
    is_i64 (next_sequence row) \<and> is_i64 (fence_token row))"

definition hilo_head :: "HiloManifest \<Rightarrow> u64 \<Rightarrow> nat" where
  "hilo_head m t = (case briskdb_hilo_leases m t of None \<Rightarrow> 0 | Some row \<Rightarrow> nat (next_sequence row))"

lemma reserve_row_Inr:
  assumes "reserve_row row t owner = Inr (row', l)" "is_i64 (next_sequence row)" "is_i64 (fence_token row)"
  shows "0 \<le> next_sequence row" "int (unat (first_sequence l)) = next_sequence row"
    "first_sequence l \<le> last_sequence l" "last_sequence l \<le> MAX_HILO_V1_SEQUENCE"
    "int (unat (last_sequence l)) + 1 = next_sequence row'"
    "is_i64 (next_sequence row')" "is_i64 (fence_token row')"
    "fence_token row' = fence_token row + 1"
proof -
  define first where "first = (word_of_int (next_sequence row) :: u64)"
  define fence where "fence = (word_of_int (fence_token row) :: u64)"
  define last where "last = min (if first + 4095 < first then - 1 else first + 4095) MAX_HILO_V1_SEQUENCE"
  have n: "0 \<le> next_sequence row" and f: "0 \<le> fence_token row"
    and fm: "first \<le> MAX_HILO_V1_SEQUENCE" and fe: "fence + 1 \<noteq> 0" "fence + 1 \<le> 0x7FFFFFFFFFFFFFFF"
    and row': "row' = row\<lparr>next_sequence := uint (last + 1), fence_token := uint (fence + 1),
      last_owner_id := Some owner, last_first_sequence := Some (uint first),
      last_last_sequence := Some (uint last)\<rparr>"
    and l: "first_sequence l = first" "last_sequence l = last"
    using assms(1) unfolding reserve_row_def Let_def
    by (auto simp: result_simps nonneg_u64_def first_def fence_def last_def HILO_V1_BLOCK_SIZE_def
        split: if_splits)
  have uf: "uint first = next_sequence row"
    unfolding first_def using n assms(2) by (intro uint_word_of_int_small) (auto simp: is_i64_def)
  have ufe: "uint fence = fence_token row"
    unfolding fence_def using f assms(3) by (intro uint_word_of_int_small) (auto simp: is_i64_def)
  have bound: "uint first < 2 ^ 61"
    using fm uint_native_limits(3) by (simp add: word_le_def)
  then have "uint (first + 4095) = uint first + 4095"
    by (simp add: uint_plus_if')
  then have lastu: "uint last = min (uint first + 4095) (2 ^ 61 - 1)"
    using uint_native_limits(3)
    by (auto simp: last_def min_def word_le_def word_less_def)
  then have "uint (last + 1) = uint last + 1"
    by (simp add: uint_plus_if')
  moreover have "uint (fence + 1) = uint fence + 1"
    using ufe assms(3) f by (simp add: uint_plus_if' is_i64_def)
  moreover have "uint first \<le> uint last" "uint last \<le> 2 ^ 61 - 1" "0 \<le> uint last"
    using bound lastu by simp_all
  ultimately show "0 \<le> next_sequence row" "int (unat (first_sequence l)) = next_sequence row"
    "first_sequence l \<le> last_sequence l" "last_sequence l \<le> MAX_HILO_V1_SEQUENCE"
    "int (unat (last_sequence l)) + 1 = next_sequence row'"
    "is_i64 (next_sequence row')" "is_i64 (fence_token row')"
    "fence_token row' = fence_token row + 1"
    using n f fe uf ufe uint_native_limits(3)
    by (simp_all add: row' l is_i64_def word_le_def)
qed

lemma reserve_row_heads:
  assumes "reserve_row row t owner = Inr (row', l)" "is_i64 (next_sequence row)" "is_i64 (fence_token row)"
  shows "unat (first_sequence l) = nat (next_sequence row)"
    "unat (last_sequence l) + 1 = nat (next_sequence row')"
    "unat (first_sequence l) \<le> unat (last_sequence l)"
proof -
  note R = reserve_row_Inr [OF assms]
  show "unat (first_sequence l) = nat (next_sequence row)"
    using R(2) by linarith
  show "unat (last_sequence l) + 1 = nat (next_sequence row')"
    using R(5) by linarith
  show "unat (first_sequence l) \<le> unat (last_sequence l)"
    using R(3) by (simp add: word_le_nat_alt)
qed

lemma reserve_hilo_v1_block_cases:
  obtains (unchanged) e where "reserve_hilo_v1_block c t owner m = (Inl e, m)"
  | (advanced) row row' l r where "briskdb_hilo_leases m t = Some row"
      "reserve_row row t owner = Inr (row', l)"
      "reserve_hilo_v1_block c t owner m
        = (r, m\<lparr>briskdb_hilo_leases := (briskdb_hilo_leases m)(t \<mapsto> row')\<rparr>)"
      "\<forall>l'. r = Inr l' \<longrightarrow> l' = l"
proof -
  define result where "result =
       and_then (snapshot_status m) (\<lambda>_.
       and_then (check_that (\<not> active_table_provisioning m) FailedPrecondition) (\<lambda>_.
       and_then (case logical_catalog m of None \<Rightarrow> Inl Internal | Some c \<Rightarrow> Inr c) (\<lambda>catalog.
       and_then (case catalog t of None \<Rightarrow> Inl InvalidArgument | Some p \<Rightarrow> Inr p) (\<lambda>policy.
       and_then (check_that (is_hilo_policy policy \<and> active_hilo m t) FailedPrecondition) (\<lambda>_.
       and_then (check_that (t < 0x8000000000000000) NumericOutOfRange) (\<lambda>_.
       and_then (case briskdb_hilo_leases m t of None \<Rightarrow> Inl DataCorruption | Some r \<Rightarrow> Inr r) (\<lambda>row.
       reserve_row row t owner)))))))"
  have eq: "reserve_hilo_v1_block c t owner m = (case result of
       Inl e \<Rightarrow> (Inl e, m)
     | Inr (row, lease) \<Rightarrow>
         let m' = m\<lparr>briskdb_hilo_leases := (briskdb_hilo_leases m)(t \<mapsto> row)\<rparr> in
         (case c of
            Committed \<Rightarrow> (Inr lease, m')
          | NotCommitted e \<Rightarrow> (Inl e, m)
          | CommittedWithError e \<Rightarrow> (Inl e, m')))"
    unfolding reserve_hilo_v1_block_def result_def by (simp only: Let_def)
  show ?thesis
  proof (cases result)
    case (Inl e)
    then show ?thesis using eq unchanged by simp
  next
    case (Inr x)
    obtain row' l where x: "x = (row', l)" by (cases x)
    obtain row where row: "briskdb_hilo_leases m t = Some row" "reserve_row row t owner = Inr (row', l)"
      using Inr unfolding result_def x by (auto simp: result_simps split: option.splits)
    then show ?thesis
      using eq Inr x unchanged advanced [OF row] by (cases c) auto
  qed
qed

interpretation manifest_leases: lease_provider reserve_hilo_v1_block hilo_manifest_ok hilo_head
proof
  fix m c t t' owner
  assume ok: "hilo_manifest_ok m"
  show "hilo_manifest_ok (snd (reserve_hilo_v1_block c t owner m))"
    by (rule reserve_hilo_v1_block_cases [of c t owner m])
      (use ok reserve_row_Inr(6,7) in \<open>auto simp: hilo_manifest_ok_def split: if_splits\<close>)
  show "hilo_head m t' \<le> hilo_head (snd (reserve_hilo_v1_block c t owner m)) t'"
  proof (rule reserve_hilo_v1_block_cases [of c t owner m])
    fix row row' l r
    assume a: "briskdb_hilo_leases m t = Some row" "reserve_row row t owner = Inr (row', l)"
      "reserve_hilo_v1_block c t owner m
        = (r, m\<lparr>briskdb_hilo_leases := (briskdb_hilo_leases m)(t \<mapsto> row')\<rparr>)"
    have i64: "is_i64 (next_sequence row)" "is_i64 (fence_token row)"
      using ok a(1) by (auto simp: hilo_manifest_ok_def)
    show ?thesis
      using a reserve_row_heads [OF a(2) i64] by (simp add: hilo_head_def)
  qed simp
next
  fix m c t owner l
  assume ok: "hilo_manifest_ok m" and l: "fst (reserve_hilo_v1_block c t owner m) = Inr l"
  show "hilo_head m t \<le> unat (first_sequence l)
      \<and> unat (first_sequence l) < hilo_head (snd (reserve_hilo_v1_block c t owner m)) t
      \<and> unat (last_sequence l) < hilo_head (snd (reserve_hilo_v1_block c t owner m)) t"
  proof (rule reserve_hilo_v1_block_cases [of c t owner m])
    fix row row' l' r
    assume a: "briskdb_hilo_leases m t = Some row" "reserve_row row t owner = Inr (row', l')"
      "reserve_hilo_v1_block c t owner m
        = (r, m\<lparr>briskdb_hilo_leases := (briskdb_hilo_leases m)(t \<mapsto> row')\<rparr>)"
      "\<forall>l. r = Inr l \<longrightarrow> l = l'"
    have i64: "is_i64 (next_sequence row)" "is_i64 (fence_token row)"
      using ok a(1) by (auto simp: hilo_manifest_ok_def)
    have "l' = l" using a l by simp
    then show ?thesis
      using a reserve_row_heads [OF a(2) i64] by (simp add: hilo_head_def) linarith
  qed (use l in simp)
qed

section \<open>Properties\<close>

definition hilo_start :: "'m \<Rightarrow> (nat \<Rightarrow> bytes) \<Rightarrow> 'm hilo_system" where
  "hilo_start m random =
    \<lparr>sys_manifest = m, sys_procs = (\<lambda>p. hilo_allocator_new (random p)), sys_issued = []\<rparr>"

lemma hilo_start_inv: "minv m \<Longrightarrow> hilo_inv minv head (hilo_start m random)"
  by (simp add: hilo_inv_def hilo_start_def issued_def allocator_ok_def avail_def hilo_allocator_new_def)

lemma hilo_reachable_inv:
  assumes "(hilo_step reserve_hilo_v1_block)\<^sup>*\<^sup>* (hilo_start m random) s" "hilo_manifest_ok m"
  shows "hilo_inv hilo_manifest_ok hilo_head s"
  using assms(1)
proof induction
  case base
  show ?case by (rule hilo_start_inv [of hilo_manifest_ok, OF assms(2)])
next
  case (step s s')
  show ?case by (rule manifest_leases.step_inv [OF step.IH step.hyps(2)])
qed

text \<open>C1: However many processes allocate from the same manifest, whatever reservations fail
  or commit with an error and whenever processes restart, no table ever receives the same
  hi/lo identifier twice, and an allocation never panics.\<close>

theorem hilo_ids_never_reused:
  assumes "(hilo_step reserve_hilo_v1_block)\<^sup>*\<^sup>* (hilo_start m random) s" "hilo_manifest_ok m"
  shows "distinct (sys_issued s)
    \<and> allocate (sys_procs s p) t (reserve_hilo_v1_block c t) (sys_manifest s) \<noteq> None"
  using hilo_invD(3) [OF hilo_reachable_inv [OF assms]]
    manifest_leases.no_panic [OF hilo_invD(2) hilo_invD(1), OF hilo_reachable_inv hilo_reachable_inv,
      OF assms assms]
  by blast

definition sample_hilo :: HiloManifest where
  "sample_hilo = \<lparr>snapshot_status = Inr (), active_table_provisioning = False,
    logical_catalog = Some [7 \<mapsto> HiloPolicy ''id''], active_hilo_id_table_ids = [7],
    briskdb_hilo_leases = [7 \<mapsto> \<lparr>block_size = 4096, next_sequence = 1, fence_token = 0,
      last_owner_id = None, last_first_sequence = None, last_last_sequence = None\<rparr>]\<rparr>"

lemma sample_hilo_ok: "hilo_manifest_ok sample_hilo"
  by (simp add: hilo_manifest_ok_def sample_hilo_def is_i64_def)

lemma sample_allocation:
  "\<exists>self m. allocate (hilo_allocator_new [1]) 7 (reserve_hilo_v1_block Committed 7) sample_hilo
    = Some (Inr \<lparr>alloc_id = 2 ^ 61 + 1, alloc_table_id = 7, alloc_owner_id = [1], alloc_fence = 1\<rparr>, self, m)"
  by (simp add: allocate_def hilo_allocator_new_def needs_lease_def reserve_hilo_v1_block_def
      sample_hilo_def is_hilo_policy_def active_hilo_def binary_search_by_key_def binary_search_by_def
      search_loop.simps reserve_row_def HILO_V1_BLOCK_SIZE_def nonneg_u64_def Let_def hilo_consts
      validate_lease_def consume_def hilo_new_def hilo_encode_def i64_try_from_def cmp_def)

theorem hilo_ids_never_reused_witness:
  "\<exists>s. (hilo_step reserve_hilo_v1_block)\<^sup>*\<^sup>* (hilo_start sample_hilo (\<lambda>_. [1])) s
    \<and> sys_issued s = [(7, 2 ^ 61 + 1)] \<and> distinct (sys_issued s)
    \<and> allocate (sys_procs s 1) 7 (reserve_hilo_v1_block Committed 7) (sys_manifest s) \<noteq> None"
proof -
  let ?s0 = "hilo_start sample_hilo (\<lambda>_. [1])"
  obtain a self m where a: "allocate (sys_procs ?s0 0) 7 (reserve_hilo_v1_block Committed 7)
      (sys_manifest ?s0) = Some (Inr a, self, m)" "alloc_id a = 2 ^ 61 + 1"
    using sample_allocation by (force simp: hilo_start_def)
  let ?s1 = "?s0\<lparr>sys_manifest := m, sys_procs := (sys_procs ?s0)(0 := self),
    sys_issued := (7, alloc_id a) # sys_issued ?s0\<rparr>"
  have reach: "(hilo_step reserve_hilo_v1_block)\<^sup>*\<^sup>* ?s0 ?s1"
    using hilo_step.allocated [where reserve = reserve_hilo_v1_block and c = Committed, OF a(1)] by blast
  have "sys_issued ?s1 = [(7, 2 ^ 61 + 1)]"
    using a(2) by (simp add: hilo_start_def)
  with reach hilo_ids_never_reused [OF reach sample_hilo_ok] show ?thesis by blast
qed

end
