(* ===== verification/Index_Key.thy ===== *)
theory Index_Key
  imports Types Ordered_Code
begin

unbundle bit_operations_syntax

text \<open>
  Canonical global-index keys, \<open>core/index_key.rs\<close>: encoding of compound keys into
  byte strings whose lexicographic order is the order of the index, and their
  decoding and validation.  Signed integers are their two's complement words,
  compared through \<open>sint\<close>; floats are their bit patterns; text is its UTF-8 bytes.
  A \<open>Cursor\<close> is the list of the bytes that are left.
\<close>

section \<open>Definitions\<close>

definition INDEX_KEY_ENCODING_VERSION :: u32 where "INDEX_KEY_ENCODING_VERSION = 1"
definition INDEX_KEY_MAGIC :: bytes where "INDEX_KEY_MAGIC = [0x42, 0x49, 0x44, 0x58]"
definition INDEX_KEY_HEADER_LEN :: nat where "INDEX_KEY_HEADER_LEN = length INDEX_KEY_MAGIC + 4"
definition OPTIONS_BASE :: byte where "OPTIONS_BASE = 0x10"
definition OPTIONS_DESCENDING :: byte where "OPTIONS_DESCENDING = 0x01"
definition OPTIONS_NULLS_LAST :: byte where "OPTIONS_NULLS_LAST = 0x02"
definition COLLATION_BINARY :: byte where "COLLATION_BINARY = 0x01"

definition TAG_BOOLEAN :: byte where "TAG_BOOLEAN = 0x10"
definition TAG_INT64 :: byte where "TAG_INT64 = 0x20"
definition TAG_UINT64 :: byte where "TAG_UINT64 = 0x21"
definition TAG_FLOAT64 :: byte where "TAG_FLOAT64 = 0x30"
definition TAG_DATE :: byte where "TAG_DATE = 0x40"
definition TAG_TIMESTAMP :: byte where "TAG_TIMESTAMP = 0x41"
definition TAG_TEXT :: byte where "TAG_TEXT = 0x50"
definition TAG_BINARY :: byte where "TAG_BINARY = 0x51"

definition VARIABLE_ESCAPE :: byte where "VARIABLE_ESCAPE = 0xFF"
definition VARIABLE_TERMINATOR :: byte where "VARIABLE_TERMINATOR = 0x00"
definition CANONICAL_NAN_BITS :: u64 where "CANONICAL_NAN_BITS = 0x7FF8000000000000"

lemmas index_key_consts = INDEX_KEY_ENCODING_VERSION_def INDEX_KEY_MAGIC_def INDEX_KEY_HEADER_LEN_def
  OPTIONS_BASE_def OPTIONS_DESCENDING_def OPTIONS_NULLS_LAST_def COLLATION_BINARY_def
lemmas index_key_tags = TAG_BOOLEAN_def TAG_INT64_def TAG_UINT64_def TAG_FLOAT64_def TAG_DATE_def
  TAG_TIMESTAMP_def TAG_TEXT_def TAG_BINARY_def
lemmas index_key_variable = VARIABLE_ESCAPE_def VARIABLE_TERMINATOR_def

datatype IndexKeyOrder = Ascending | Descending
datatype IndexNullOrder = First | Last
datatype UniqueNullSemantics = Distinct | NotDistinct
datatype IndexKeyCollation = CollationBinary

text \<open>\<open>IndexKeyValueRef\<close>; the owned \<open>IndexKeyValue\<close> has the same values without
  \<open>Decimal\<close> and \<open>InvalidText\<close>.\<close>

datatype IndexKeyValueRef =
    KNull
  | KBoolean bool
  | KInt64 u64
  | KUInt64 u64
  | KFloat64 f64
  | KDecimal bytes
  | KText bytes
  | KInvalidText bytes
  | KBinary bytes
  | KDate u32
  | KTimestamp u64

fun is_null :: "IndexKeyValueRef \<Rightarrow> bool" where
  "is_null KNull = True"
| "is_null _ = False"

record IndexKeyPart =
  part_value :: IndexKeyValueRef
  part_order :: IndexKeyOrder
  part_null_order :: IndexNullOrder
  part_collation :: IndexKeyCollation

definition ascending :: "IndexKeyValueRef \<Rightarrow> IndexKeyPart" where
  "ascending v = \<lparr>part_value = v, part_order = Ascending, part_null_order = First,
    part_collation = CollationBinary\<rparr>"

definition descending :: "IndexKeyValueRef \<Rightarrow> IndexKeyPart" where
  "descending v = \<lparr>part_value = v, part_order = Descending, part_null_order = Last,
    part_collation = CollationBinary\<rparr>"

record CanonicalIndexKey =
  key_bytes :: bytes
  component_count :: nat

fun ordered_byte :: "byte \<Rightarrow> IndexKeyOrder \<Rightarrow> byte" where
  "ordered_byte b Ascending = b"
| "ordered_byte b Descending = NOT b"

fun null_rank :: "IndexNullOrder \<Rightarrow> bool \<Rightarrow> byte" where
  "null_rank First True = 0"
| "null_rank Last False = 0"
| "null_rank First False = 1"
| "null_rank Last True = 1"

definition push_ordered :: "bytes \<Rightarrow> byte \<Rightarrow> IndexKeyOrder \<Rightarrow> bytes" where
  "push_ordered out b order = out @ [ordered_byte b order]"

definition push_fixed :: "bytes \<Rightarrow> bytes \<Rightarrow> IndexKeyOrder \<Rightarrow> bytes" where
  "push_fixed out bs order = out @ map (\<lambda>b. ordered_byte b order) bs"

text \<open>The loop of \<open>push_variable\<close>.\<close>

fun push_variable_bytes :: "bytes \<Rightarrow> bytes \<Rightarrow> IndexKeyOrder \<Rightarrow> bytes" where
  "push_variable_bytes out [] order = out"
| "push_variable_bytes out (b # bs) order =
    push_variable_bytes
      (if b = VARIABLE_TERMINATOR
       then push_ordered (push_ordered out b order) VARIABLE_ESCAPE order
       else push_ordered out b order) bs order"

definition push_variable :: "bytes \<Rightarrow> bytes \<Rightarrow> IndexKeyOrder \<Rightarrow> bytes" where
  "push_variable out bs order =
    push_ordered (push_ordered (push_variable_bytes out bs order) VARIABLE_TERMINATOR order)
      VARIABLE_TERMINATOR order"

definition u64_be :: "u64 \<Rightarrow> bytes" where "u64_be w = be_bytes 8 (unat w)"
definition u32_be :: "u32 \<Rightarrow> bytes" where "u32_be w = be_bytes 4 (unat w)"
definition u64_from_be :: "bytes \<Rightarrow> u64" where "u64_from_be bs = word_of_nat (be_nat bs)"
definition u32_from_be :: "bytes \<Rightarrow> u32" where "u32_from_be bs = word_of_nat (be_nat bs)"

definition ordered_float_bits :: "f64 \<Rightarrow> u64" where
  "ordered_float_bits v =
    (let bits = (if f64_is_nan v then CANONICAL_NAN_BITS else if f64_is_zero v then 0 else v) in
     if bits AND push_bit 63 1 = 0 then bits XOR push_bit 63 1 else NOT bits)"

definition float_from_ordered_bits :: "u64 \<Rightarrow> f64" where
  "float_from_ordered_bits ordered =
    (if ordered AND push_bit 63 1 = 0 then NOT ordered else ordered XOR push_bit 63 1)"

definition part_options :: "IndexKeyOrder \<Rightarrow> IndexNullOrder \<Rightarrow> byte" where
  "part_options order null_order =
    OPTIONS_BASE
    OR (case order of Ascending \<Rightarrow> 0 | Descending \<Rightarrow> OPTIONS_DESCENDING)
    OR (case null_order of First \<Rightarrow> 0 | Last \<Rightarrow> OPTIONS_NULLS_LAST)"

definition encode_part :: "bytes \<Rightarrow> IndexKeyPart \<Rightarrow> bytes EngineResult" where
  "encode_part output0 part =
    (let order = part_order part;
         output1 = output0 @ [part_options order (part_null_order part)];
         output2 = output1 @ [case part_collation part of CollationBinary \<Rightarrow> COLLATION_BINARY];
         out = output2 @ [null_rank (part_null_order part) (is_null (part_value part))] in
     case part_value part of
       KNull \<Rightarrow> Inr out
     | KBoolean v \<Rightarrow> Inr (push_ordered (push_ordered out TAG_BOOLEAN order) (if v then 1 else 0) order)
     | KInt64 v \<Rightarrow> Inr (push_fixed (push_ordered out TAG_INT64 order) (u64_be (v XOR push_bit 63 1)) order)
     | KUInt64 v \<Rightarrow> Inr (push_fixed (push_ordered out TAG_UINT64 order) (u64_be v) order)
     | KFloat64 v \<Rightarrow>
         Inr (push_fixed (push_ordered out TAG_FLOAT64 order) (u64_be (ordered_float_bits v)) order)
     | KDecimal _ \<Rightarrow> Inl Unsupported
     | KText v \<Rightarrow> Inr (push_variable (push_ordered out TAG_TEXT order) v order)
     | KInvalidText _ \<Rightarrow> Inl InvalidTextEncoding
     | KBinary v \<Rightarrow> Inr (push_variable (push_ordered out TAG_BINARY order) v order)
     | KDate v \<Rightarrow> Inr (push_fixed (push_ordered out TAG_DATE order) (u32_be (v XOR push_bit 31 1)) order)
     | KTimestamp v \<Rightarrow>
         Inr (push_fixed (push_ordered out TAG_TIMESTAMP order) (u64_be (v XOR push_bit 63 1)) order))"

fun encode_each :: "bytes \<Rightarrow> IndexKeyPart list \<Rightarrow> bytes EngineResult" where
  "encode_each out [] = Inr out"
| "encode_each out (part # parts) = and_then (encode_part out part) (\<lambda>out. encode_each out parts)"

definition encode_parts :: "IndexKeyPart list \<Rightarrow> CanonicalIndexKey EngineResult" where
  "encode_parts parts =
    (if length parts = 0 then Inl InvalidArgument
     else and_then (encode_each (INDEX_KEY_MAGIC @ u32_be INDEX_KEY_ENCODING_VERSION) parts)
       (\<lambda>bs. Inr \<lparr>key_bytes = bs, component_count = length parts\<rparr>))"

definition encode :: "IndexKeyPart list \<Rightarrow> CanonicalIndexKey EngineResult" where
  "encode parts = encode_parts parts"


fun key_value_from :: "Value \<Rightarrow> IndexKeyValueRef" where
  "key_value_from VNull = KNull"
| "key_value_from (VBoolean v) = KBoolean v"
| "key_value_from (VInt64 v) = KInt64 v"
| "key_value_from (VUInt64 v) = KUInt64 v"
| "key_value_from (VFloat64 v) = KFloat64 v"
| "key_value_from (VDecimal v) = KDecimal v"
| "key_value_from (VText v) = KText v"
| "key_value_from (VInvalidText v) = KInvalidText v"
| "key_value_from (VBinary v) = KBinary v"

definition encode_values :: "Value list \<Rightarrow> CanonicalIndexKey EngineResult" where
  "encode_values vs = encode_parts (map (\<lambda>v. ascending (key_value_from v)) vs)"

subsection \<open>Decoding\<close>

type_synonym Cursor = bytes

fun cursor_next :: "Cursor \<Rightarrow> (byte \<times> Cursor) EngineResult" where
  "cursor_next [] = Inl DataCorruption"
| "cursor_next (b # rest) = Inr (b, rest)"

definition next_ordered :: "IndexKeyOrder \<Rightarrow> Cursor \<Rightarrow> (byte \<times> Cursor) EngineResult" where
  "next_ordered order cursor = and_then (cursor_next cursor) (\<lambda>(b, rest). Inr (ordered_byte b order, rest))"

definition fixed_ordered :: "nat \<Rightarrow> IndexKeyOrder \<Rightarrow> Cursor \<Rightarrow> (bytes \<times> Cursor) EngineResult" where
  "fixed_ordered n order cursor =
    (if n \<le> length cursor then Inr (map (\<lambda>b. ordered_byte b order) (take n cursor), drop n cursor)
     else Inl DataCorruption)"

lemma next_ordered_Cons [simp]: "next_ordered order (b # rest) = Inr (ordered_byte b order, rest)"
  by (simp add: next_ordered_def)

lemma next_ordered_Nil [simp]: "next_ordered order [] = Inl DataCorruption"
  by (simp add: next_ordered_def)

lemma next_ordered_shorter: "next_ordered order c = Inr (b, rest) \<Longrightarrow> length c = Suc (length rest)"
  by (cases c) auto

text \<open>The loop of \<open>variable_ordered\<close>, with the bytes read so far.\<close>

function variable_loop :: "IndexKeyOrder \<Rightarrow> bytes \<Rightarrow> Cursor \<Rightarrow> (bytes \<times> Cursor) EngineResult" where
  "variable_loop order out cursor =
    and_then (next_ordered order cursor) (\<lambda>(b, rest).
      if b \<noteq> VARIABLE_TERMINATOR then variable_loop order (out @ [b]) rest
      else and_then (next_ordered order rest) (\<lambda>(e, rest).
        if e = VARIABLE_TERMINATOR then Inr (out, rest)
        else if e = VARIABLE_ESCAPE then variable_loop order (out @ [VARIABLE_TERMINATOR]) rest
        else Inl DataCorruption))"
  by pat_completeness auto
termination
  by (relation "measure (\<lambda>(_, _, cursor). length cursor)") (auto dest!: next_ordered_shorter)

declare variable_loop.simps [simp del]

definition variable_ordered :: "IndexKeyOrder \<Rightarrow> Cursor \<Rightarrow> (bytes \<times> Cursor) EngineResult" where
  "variable_ordered order cursor = variable_loop order [] cursor"

definition decode_value :: "byte \<Rightarrow> IndexKeyOrder \<Rightarrow> Cursor \<Rightarrow> (IndexKeyValueRef \<times> Cursor) EngineResult" where
  "decode_value tag order cursor =
    (if tag = TAG_BOOLEAN then
       and_then (next_ordered order cursor) (\<lambda>(b, rest).
         if b = 0 then Inr (KBoolean False, rest)
         else if b = 1 then Inr (KBoolean True, rest)
         else Inl DataCorruption)
     else if tag = TAG_INT64 then
       and_then (fixed_ordered 8 order cursor) (\<lambda>(bs, rest).
         Inr (KInt64 (u64_from_be bs XOR push_bit 63 1), rest))
     else if tag = TAG_UINT64 then
       and_then (fixed_ordered 8 order cursor) (\<lambda>(bs, rest). Inr (KUInt64 (u64_from_be bs), rest))
     else if tag = TAG_FLOAT64 then
       and_then (fixed_ordered 8 order cursor) (\<lambda>(bs, rest).
         Inr (KFloat64 (float_from_ordered_bits (u64_from_be bs)), rest))
     else if tag = TAG_DATE then
       and_then (fixed_ordered 4 order cursor) (\<lambda>(bs, rest).
         Inr (KDate (u32_from_be bs XOR push_bit 31 1), rest))
     else if tag = TAG_TIMESTAMP then
       and_then (fixed_ordered 8 order cursor) (\<lambda>(bs, rest).
         Inr (KTimestamp (u64_from_be bs XOR push_bit 63 1), rest))
     else if tag = TAG_TEXT then
       and_then (variable_ordered order cursor) (\<lambda>(bs, rest).
         if utf8_valid bs then Inr (KText bs, rest) else Inl DataCorruption)
     else if tag = TAG_BINARY then
       and_then (variable_ordered order cursor) (\<lambda>(bs, rest). Inr (KBinary bs, rest))
     else Inl DataCorruption)"

definition decode_part :: "Cursor \<Rightarrow> (IndexKeyPart \<times> Cursor) EngineResult" where
  "decode_part cursor =
    and_then (cursor_next cursor) (\<lambda>(options, cursor).
    if \<not> (OPTIONS_BASE \<le> options \<and> options \<le> (OPTIONS_BASE OR OPTIONS_DESCENDING OR OPTIONS_NULLS_LAST))
    then Inl DataCorruption
    else let
      order = (if options AND OPTIONS_DESCENDING = 0 then Ascending else Descending);
      null_order = (if options AND OPTIONS_NULLS_LAST = 0 then First else Last) in
    and_then (cursor_next cursor) (\<lambda>(collation, cursor).
    if collation \<noteq> COLLATION_BINARY then Inl DataCorruption
    else and_then (cursor_next cursor) (\<lambda>(rank, cursor).
    if rank = null_rank null_order True then
      Inr (\<lparr>part_value = KNull, part_order = order, part_null_order = null_order,
        part_collation = CollationBinary\<rparr>, cursor)
    else if rank \<noteq> null_rank null_order False then Inl DataCorruption
    else and_then (next_ordered order cursor) (\<lambda>(tag, cursor).
    and_then (decode_value tag order cursor) (\<lambda>(v, cursor).
    Inr (\<lparr>part_value = v, part_order = order, part_null_order = null_order,
      part_collation = CollationBinary\<rparr>, cursor))))))"

lemma cursor_next_shorter: "cursor_next c = Inr (b, rest) \<Longrightarrow> length c = Suc (length rest)"
  by (cases c) auto

lemma fixed_ordered_shorter: "fixed_ordered n order c = Inr (bs, rest) \<Longrightarrow> length rest \<le> length c"
  by (auto simp: fixed_ordered_def split: if_splits)

lemma variable_loop_shorter:
  "variable_loop order out c = Inr (bs, rest) \<Longrightarrow> length rest \<le> length c"
proof (induction order out c rule: variable_loop.induct)
  case (1 order out c)
  obtain b c1 where b: "next_ordered order c = Inr (b, c1)"
    using "1.prems" by (subst (asm) variable_loop.simps) (auto simp: result_simps)
  note len = next_ordered_shorter [OF b]
  show ?case
  proof (cases "b = VARIABLE_TERMINATOR")
    case False
    then have "variable_loop order (out @ [b]) c1 = Inr (bs, rest)"
      using "1.prems" b by (subst (asm) variable_loop.simps) simp
    then show ?thesis using "1.IH"(1) [OF b refl False] len by simp
  next
    case True
    then obtain e c2 where e: "next_ordered order c1 = Inr (e, c2)"
      using "1.prems" b by (subst (asm) variable_loop.simps) (auto simp: result_simps)
    then have "c2 = rest \<or> variable_loop order (out @ [VARIABLE_TERMINATOR]) c2 = Inr (bs, rest)
        \<and> e \<noteq> VARIABLE_TERMINATOR \<and> e = VARIABLE_ESCAPE"
      using "1.prems" b True by (subst (asm) variable_loop.simps) (auto split: if_splits)
    then show ?thesis
      using "1.IH"(2) [OF b refl _ e refl] True len next_ordered_shorter [OF e] by auto
  qed
qed

lemma variable_ordered_shorter: "variable_ordered order c = Inr (bs, rest) \<Longrightarrow> length rest \<le> length c"
  unfolding variable_ordered_def by (rule variable_loop_shorter)

lemma decode_value_shorter:
  "decode_value tag order c = Inr (v, rest) \<Longrightarrow> length rest \<le> length c"
  unfolding decode_value_def
  by (simp only: split: if_split_asm)
   (auto simp: result_simps split: if_splits
     dest: fixed_ordered_shorter variable_ordered_shorter next_ordered_shorter)

lemma decode_part_shorter:
  assumes "decode_part c = Inr (part, rest)"
  shows "length rest < length c"
proof -
  obtain options c1 where c1: "cursor_next c = Inr (options, c1)"
    using assms by (auto simp: decode_part_def result_simps)
  obtain collation c2 where c2: "cursor_next c1 = Inr (collation, c2)"
    using assms c1 by (auto simp: decode_part_def result_simps Let_def split: if_splits)
  obtain rank c3 where c3: "cursor_next c2 = Inr (rank, c3)"
    using assms c1 c2 by (auto simp: decode_part_def result_simps Let_def split: if_splits)
  have "rest = c3 \<or> (\<exists>order tag c4 v. next_ordered order c3 = Inr (tag, c4)
      \<and> decode_value tag order c4 = Inr (v, rest))"
    using assms c1 c2 c3 unfolding decode_part_def Let_def
    by (simp split: if_split_asm) (auto simp: result_simps split: if_splits)
  then show ?thesis
    using cursor_next_shorter [OF c1] cursor_next_shorter [OF c2] cursor_next_shorter [OF c3]
    by (auto dest!: next_ordered_shorter decode_value_shorter)
qed

function decode_loop :: "Cursor \<Rightarrow> IndexKeyPart list EngineResult" where
  "decode_loop cursor =
    (if cursor = [] then Inr []
     else and_then (decode_part cursor) (\<lambda>(part, rest).
       and_then (decode_loop rest) (\<lambda>parts. Inr (part # parts))))"
  by pat_completeness auto
termination
  by (relation "measure length") (auto dest!: decode_part_shorter)

declare decode_loop.simps [simp del]

definition decode_header :: "bytes \<Rightarrow> u32 EngineResult" where
  "decode_header bs =
    (if length bs < INDEX_KEY_HEADER_LEN \<or> take (length INDEX_KEY_MAGIC) bs \<noteq> INDEX_KEY_MAGIC
     then Inl DataCorruption
     else Inr (u32_from_be (drop (length INDEX_KEY_MAGIC) (take INDEX_KEY_HEADER_LEN bs))))"

definition decode_parts :: "bytes \<Rightarrow> IndexKeyPart list EngineResult" where
  "decode_parts bs =
    and_then (decode_header bs) (\<lambda>version.
    if version \<noteq> INDEX_KEY_ENCODING_VERSION then Inl Unsupported
    else and_then (decode_loop (drop INDEX_KEY_HEADER_LEN bs)) (\<lambda>parts.
      if parts = [] then Inl DataCorruption else Inr parts))"

definition from_bytes :: "bytes \<Rightarrow> CanonicalIndexKey EngineResult" where
  "from_bytes bs =
    and_then (decode_parts bs) (\<lambda>parts.
    and_then (encode_parts parts) (\<lambda>canonical.
      if key_bytes canonical \<noteq> bs then Inl DataCorruption else Inr canonical))"

definition decode :: "CanonicalIndexKey \<Rightarrow> IndexKeyPart list EngineResult" where
  "decode self = decode_parts (key_bytes self)"

section \<open>The bytes of a component\<close>

definition escape :: "byte \<Rightarrow> bytes" where
  "escape b = (if b = VARIABLE_TERMINATOR then [b, VARIABLE_ESCAPE] else [b])"

fun variable_bytes :: "bytes \<Rightarrow> bytes" where
  "variable_bytes [] = [VARIABLE_TERMINATOR, VARIABLE_TERMINATOR]"
| "variable_bytes (b # bs) = escape b @ variable_bytes bs"

fun value_bytes :: "IndexKeyValueRef \<Rightarrow> bytes" where
  "value_bytes (KBoolean v) = [TAG_BOOLEAN, if v then 1 else 0]"
| "value_bytes (KInt64 v) = TAG_INT64 # u64_be (v XOR push_bit 63 1)"
| "value_bytes (KUInt64 v) = TAG_UINT64 # u64_be v"
| "value_bytes (KFloat64 v) = TAG_FLOAT64 # u64_be (ordered_float_bits v)"
| "value_bytes (KText v) = TAG_TEXT # variable_bytes v"
| "value_bytes (KBinary v) = TAG_BINARY # variable_bytes v"
| "value_bytes (KDate v) = TAG_DATE # u32_be (v XOR push_bit 31 1)"
| "value_bytes (KTimestamp v) = TAG_TIMESTAMP # u64_be (v XOR push_bit 63 1)"
| "value_bytes _ = []"

fun encodable :: "IndexKeyValueRef \<Rightarrow> bool" where
  "encodable (KDecimal _) = False"
| "encodable (KInvalidText _) = False"
| "encodable _ = True"

fun encode_error :: "IndexKeyValueRef \<Rightarrow> EngineErrorKind" where
  "encode_error (KDecimal _) = Unsupported"
| "encode_error _ = InvalidTextEncoding"

definition part_bytes :: "IndexKeyPart \<Rightarrow> bytes" where
  "part_bytes p = [part_options (part_order p) (part_null_order p), COLLATION_BINARY,
    null_rank (part_null_order p) (is_null (part_value p))]
    @ map (\<lambda>b. ordered_byte b (part_order p)) (value_bytes (part_value p))"

lemma push_variable_bytes_eq:
  "push_variable_bytes out bs order @ map (\<lambda>b. ordered_byte b order) [VARIABLE_TERMINATOR, VARIABLE_TERMINATOR]
    = out @ map (\<lambda>b. ordered_byte b order) (variable_bytes bs)"
  by (induction bs arbitrary: out) (simp_all add: push_ordered_def escape_def)

lemma push_variable_eq:
  "push_variable out bs order = out @ map (\<lambda>b. ordered_byte b order) (variable_bytes bs)"
  using push_variable_bytes_eq [of out bs order] by (simp add: push_variable_def push_ordered_def)

lemma encode_part_eq:
  "encode_part out p =
    (if encodable (part_value p) then Inr (out @ part_bytes p) else Inl (encode_error (part_value p)))"
  by (cases "part_value p"; cases "part_collation p")
    (simp_all add: encode_part_def Let_def part_bytes_def push_ordered_def push_fixed_def push_variable_eq)

lemma encode_each_Inr_iff:
  "encode_each out ps = Inr bs \<longleftrightarrow>
    list_all (\<lambda>p. encodable (part_value p)) ps \<and> bs = out @ concat (map part_bytes ps)"
  by (induction ps arbitrary: out) (auto simp: encode_part_eq result_simps)

definition header_bytes :: bytes where
  "header_bytes = INDEX_KEY_MAGIC @ u32_be INDEX_KEY_ENCODING_VERSION"

lemma encode_parts_Inr_iff:
  "encode_parts ps = Inr k \<longleftrightarrow> ps \<noteq> [] \<and> list_all (\<lambda>p. encodable (part_value p)) ps
    \<and> k = \<lparr>key_bytes = header_bytes @ concat (map part_bytes ps), component_count = length ps\<rparr>"
  by (auto simp: encode_parts_def result_simps encode_each_Inr_iff header_bytes_def)

section \<open>The order of values\<close>

fun value_rank :: "IndexKeyValueRef \<Rightarrow> nat" where
  "value_rank (KBoolean _) = 1"
| "value_rank (KInt64 _) = 2"
| "value_rank (KUInt64 _) = 3"
| "value_rank (KFloat64 _) = 4"
| "value_rank (KDate _) = 5"
| "value_rank (KTimestamp _) = 6"
| "value_rank (KText _) = 7"
| "value_rank (KBinary _) = 8"
| "value_rank _ = 0"

text \<open>Values of different types are ordered by type; within a type by value.\<close>

definition same_type_cmp :: "IndexKeyValueRef \<Rightarrow> IndexKeyValueRef \<Rightarrow> Ordering" where
  "same_type_cmp v w =
    (case v of
       KBoolean a \<Rightarrow> (case w of KBoolean b \<Rightarrow> cmp a b | _ \<Rightarrow> Equal)
     | KInt64 a \<Rightarrow> (case w of KInt64 b \<Rightarrow> cmp (sint a) (sint b) | _ \<Rightarrow> Equal)
     | KUInt64 a \<Rightarrow> (case w of KUInt64 b \<Rightarrow> cmp a b | _ \<Rightarrow> Equal)
     | KFloat64 a \<Rightarrow> (case w of KFloat64 b \<Rightarrow> f64_total_cmp a b | _ \<Rightarrow> Equal)
     | KDate a \<Rightarrow> (case w of KDate b \<Rightarrow> cmp (sint a) (sint b) | _ \<Rightarrow> Equal)
     | KTimestamp a \<Rightarrow> (case w of KTimestamp b \<Rightarrow> cmp (sint a) (sint b) | _ \<Rightarrow> Equal)
     | KText a \<Rightarrow> (case w of KText b \<Rightarrow> cmp a b | _ \<Rightarrow> Equal)
     | KBinary a \<Rightarrow> (case w of KBinary b \<Rightarrow> cmp a b | _ \<Rightarrow> Equal)
     | _ \<Rightarrow> Equal)"

definition value_cmp :: "IndexKeyValueRef \<Rightarrow> IndexKeyValueRef \<Rightarrow> Ordering" where
  "value_cmp v w = then_with (cmp (value_rank v) (value_rank w)) (\<lambda>_. same_type_cmp v w)"

lemma variable_bytes_less:
  "x < y \<Longrightarrow> variable_bytes x @ r < variable_bytes y @ s"
proof (induction x arbitrary: y)
  case Nil
  then show ?case
    by (cases y) (auto simp: escape_def index_key_variable word_greater_zero_iff)
next
  case (Cons a x)
  then show ?case
    by (cases y) (auto simp: escape_def index_key_variable word_greater_zero_iff)
qed

interpretation variable_code: ordered_code "\<lambda>_. True" variable_bytes cmp
  by unfold_locales (auto intro: variable_bytes_less)

lemma u64_be_less: "a < b \<Longrightarrow> u64_be a @ r < u64_be b @ s"
  using unsigned_less [of a, where ?'a = nat] unsigned_less [of b, where ?'a = nat]
  by (simp add: u64_be_def append_less_append_same_length be_bytes_less_iff word_less_nat_alt)

lemma u32_be_less: "a < b \<Longrightarrow> u32_be a @ r < u32_be b @ s"
  using unsigned_less [of a, where ?'a = nat] unsigned_less [of b, where ?'a = nat]
  by (simp add: u32_be_def append_less_append_same_length be_bytes_less_iff word_less_nat_alt)

interpretation u64_code: ordered_code "\<lambda>_. True" u64_be cmp
  by unfold_locales (auto intro: u64_be_less)

interpretation u32_code: ordered_code "\<lambda>_. True" u32_be cmp
  by unfold_locales (auto intro: u32_be_less)

text \<open>Floats: the ordered bits are monotone in the value, with one pattern for both
  zeros and one, the greatest, for every NaN.\<close>

lemma and_sign_bit: "v AND push_bit 63 1 = 0 \<longleftrightarrow> \<not> f64_sign v"
  using and_exp_eq_0_iff_not_bit [of v 63] by (simp add: f64_sign_def)

definition ordered_value :: "f64 \<Rightarrow> int" where
  "ordered_value v =
    (let m = int (unat v mod 2 ^ 63) in
     if f64_is_nan v then 2 ^ 63 + 0x7FF8000000000000
     else if f64_is_zero v then 2 ^ 63
     else if f64_sign v then 2 ^ 63 - 1 - m
     else 2 ^ 63 + m)"

lemma uint_ordered_float_bits: "uint (ordered_float_bits v) = ordered_value v"
proof -
  have pos: "uint (w XOR push_bit 63 1) = 2 ^ 63 + uint w" if "\<not> f64_sign w" for w :: u64
  proof -
    have "uint (w XOR push_bit 63 1) = uint w XOR 2 ^ 63"
      by (simp add: unsigned_xor_eq)
    moreover have "int (unat w) < int (2 ^ 63)"
      using that unfolding of_nat_less_iff by (simp add: f64_sign_iff)
    then have "uint w < 2 ^ 63" by simp
    ultimately show ?thesis
      using int_xor_disjoint(1) [of "uint w" 63] by simp
  qed
  have fields: "\<not> f64_sign CANONICAL_NAN_BITS" "uint CANONICAL_NAN_BITS = 0x7FF8000000000000" "\<not> f64_sign 0"
    by (simp_all add: f64_sign_iff CANONICAL_NAN_BITS_def)
  have u: "uint v = (if f64_sign v then 2 ^ 63 else 0) + int (unat v mod 2 ^ 63)"
    using arg_cong [OF unat_f64 [of v], of int] by (cases "f64_sign v") (simp_all add: zmod_int)
  show ?thesis
    using pos [OF fields(1)] fields pos [of 0] pos [of v] uint_not [of v] u
    unfolding ordered_float_bits_def Let_def ordered_value_def and_sign_bit
    by (simp split del: if_split) auto
qed

lemma ordered_value_cmp: "cmp (ordered_value a) (ordered_value b) = f64_total_cmp a b"
proof -
  define m n where "m = unat a mod 2 ^ 63" and "n = unat b mod 2 ^ 63"
  have z: "f64_is_zero a \<longleftrightarrow> m = 0" "f64_is_zero b \<longleftrightarrow> n = 0"
    by (simp_all only: f64_is_zero_iff m_def n_def)
  have nan: "f64_is_nan a \<longleftrightarrow> 2047 * 2 ^ 52 < m" "f64_is_nan b \<longleftrightarrow> 2047 * 2 ^ 52 < n"
    by (simp_all only: f64_is_nan_iff m_def n_def)
  note less = f64_scaled_less_iff [of a b, folded m_def n_def]
    f64_scaled_less_iff [of b a, folded m_def n_def]
  have eq: "f64_scaled a = f64_scaled b \<longleftrightarrow> \<not> f64_scaled a < f64_scaled b \<and> \<not> f64_scaled b < f64_scaled a"
    by auto
  show ?thesis
    unfolding f64_total_cmp_def ordered_value_def Let_def cmp_def eq less z nan
      m_def [symmetric] n_def [symmetric]
    by (cases "f64_sign a"; cases "f64_sign b") auto
qed

lemma ordered_float_bits_cmp: "cmp (ordered_float_bits a) (ordered_float_bits b) = f64_total_cmp a b"
  using ordered_value_cmp [of a b]
  by (auto simp: cmp_def word_less_def word_uint_eq_iff uint_ordered_float_bits)

section \<open>Encodings are ordered like values\<close>

lemma flip64_cmp: "cmp (v XOR push_bit 63 1) (w XOR push_bit 63 1) = cmp (sint v) (sint (w :: u64))"
  using flip_sign_less_iff [of 63 v w] uint_flip_sign [of 63 v] uint_flip_sign [of 63 w]
  by (auto simp: cmp_def word_uint_eq_iff)

lemma flip32_cmp: "cmp (v XOR push_bit 31 1) (w XOR push_bit 31 1) = cmp (sint v) (sint (w :: u32))"
  using flip_sign_less_iff [of 31 v w] uint_flip_sign [of 31 v] uint_flip_sign [of 31 w]
  by (auto simp: cmp_def word_uint_eq_iff)

lemmas flip_cmp = flip64_cmp flip32_cmp flip64_cmp [simplified] flip32_cmp [simplified]

definition plain :: "IndexKeyValueRef \<Rightarrow> bool" where
  "plain v \<longleftrightarrow> encodable v \<and> \<not> is_null v"

lemma cmp_value_bytes_append:
  assumes "plain v" "plain w"
  shows "cmp (value_bytes v @ r) (value_bytes w @ s) = then_with (value_cmp v w) (\<lambda>_. cmp r s)"
proof (cases "value_rank v = value_rank w")
  case True
  have bool: "cmp (if a then 1 else 0 :: byte) (if b then 1 else 0) = cmp a b" for a b
    by (cases a; cases b) (simp_all add: cmp_def)
  note codes = u64_code.cmp_append [OF TrueI TrueI] u32_code.cmp_append [OF TrueI TrueI]
    variable_code.cmp_append [OF TrueI TrueI]
  from True assms show ?thesis
    by (cases v; cases w) (simp_all add: plain_def value_cmp_def same_type_cmp_def cmp_Cons codes bool
        flip_cmp ordered_float_bits_cmp split del: if_split)
next
  case False
  then show ?thesis
    using assms by (cases v; cases w)
      (simp_all add: plain_def value_cmp_def cmp_Cons index_key_tags cmp_def)
qed

interpretation value_code: ordered_code plain value_bytes value_cmp
proof
  fix v w :: IndexKeyValueRef and r s
  assume "plain v" "plain w"
  note eq = cmp_value_bytes_append [OF this]
  show "value_bytes v = value_bytes w" if "value_cmp v w = Equal"
    using eq [of "[]" "[]"] that by (simp flip: cmp_iff(2))
  show "value_bytes v @ r < value_bytes w @ s" if "value_cmp v w = Less"
    using eq [of r s] that by simp
  show "value_bytes w @ s < value_bytes v @ r" if "value_cmp v w = Greater"
    using eq [of r s] that by simp
qed

text \<open>The declared order of a component: NULL first or last whatever the direction,
  values by their order or its reverse.\<close>

definition same_spec :: "IndexKeyPart \<Rightarrow> IndexKeyPart \<Rightarrow> bool" where
  "same_spec p q \<longleftrightarrow> part_order p = part_order q \<and> part_null_order p = part_null_order q"

definition part_cmp :: "IndexKeyPart \<Rightarrow> IndexKeyPart \<Rightarrow> Ordering" where
  "part_cmp p q =
    (if is_null (part_value p) then
       (if is_null (part_value q) then Equal
        else case part_null_order p of First \<Rightarrow> Less | Last \<Rightarrow> Greater)
     else if is_null (part_value q) then
       (case part_null_order p of First \<Rightarrow> Greater | Last \<Rightarrow> Less)
     else case part_order p of
       Ascending \<Rightarrow> value_cmp (part_value p) (part_value q)
     | Descending \<Rightarrow> reverse (value_cmp (part_value p) (part_value q)))"

fun parts_cmp :: "IndexKeyPart list \<Rightarrow> IndexKeyPart list \<Rightarrow> Ordering" where
  "parts_cmp [] [] = Equal"
| "parts_cmp [] (q # qs) = Less"
| "parts_cmp (p # ps) [] = Greater"
| "parts_cmp (p # ps) (q # qs) = then_with (part_cmp p q) (\<lambda>_. parts_cmp ps qs)"

lemma map_ordered_byte:
  "map (\<lambda>b. ordered_byte b Ascending) bs = bs"
  "map (\<lambda>b. ordered_byte b Descending) bs = map (\<lambda>b. NOT b) bs"
  by simp_all

lemma cmp_part_bytes_append:
  assumes "same_spec p q" "encodable (part_value p)" "encodable (part_value q)"
  shows "cmp (part_bytes p @ r) (part_bytes q @ s) = then_with (part_cmp p q) (\<lambda>_. cmp r s)"
proof (cases "is_null (part_value p) \<or> is_null (part_value q)")
  case True
  have null: "value_bytes v = []" if "is_null v" for v
    using that by (cases v) simp_all
  show ?thesis
    using True assms(1) null
    by (cases "part_null_order q"; cases "is_null (part_value p)"; cases "is_null (part_value q)")
      (auto simp: part_bytes_def part_cmp_def same_spec_def cmp_Cons cmp_def)
next
  case False
  then have plain: "plain (part_value p)" "plain (part_value q)"
    using assms by (simp_all add: plain_def)
  show ?thesis
    using False assms(1) value_code.cmp_append [OF plain, of r s]
      value_code.cmp_append_complement [OF plain, of r s]
    by (cases "part_order q")
      (simp_all add: part_bytes_def part_cmp_def same_spec_def cmp_Cons map_ordered_byte
        del: list.map)
qed

lemma cmp_parts_bytes:
  assumes "list_all2 same_spec ps qs"
    "list_all (\<lambda>p. encodable (part_value p)) ps" "list_all (\<lambda>p. encodable (part_value p)) qs"
  shows "cmp (concat (map part_bytes ps)) (concat (map part_bytes qs)) = parts_cmp ps qs"
  using assms
proof (induction rule: list_all2_induct)
  case (Cons p ps q qs)
  then show ?case by (simp add: cmp_part_bytes_append)
qed simp

text \<open>C2: The bytes of canonical index keys sort like the declared index order: for compound
  keys with the same component rules, comparing the encoded bytes lexicographically gives
  the comparison of the components in turn, with direction and NULL placement.\<close>

theorem index_key_order_preserving:
  assumes "list_all2 same_spec ps qs" "encode ps = Inr k" "encode qs = Inr l"
  shows "cmp (key_bytes k) (key_bytes l) = parts_cmp ps qs"
proof -
  have "cmp (key_bytes k) (key_bytes l) = cmp (concat (map part_bytes ps)) (concat (map part_bytes qs))"
    using assms(2,3) cmp_append_same_length [OF refl, of header_bytes]
    by (simp add: encode_def encode_parts_Inr_iff)
  then show ?thesis
    using cmp_parts_bytes [OF assms(1)] assms(2,3) by (simp add: encode_def encode_parts_Inr_iff)
qed

section \<open>Round trips\<close>

fun canonical_value :: "IndexKeyValueRef \<Rightarrow> IndexKeyValueRef" where
  "canonical_value (KFloat64 v) =
    KFloat64 (if f64_is_nan v then CANONICAL_NAN_BITS else if f64_is_zero v then 0 else v)"
| "canonical_value v = v"

fun text_ok :: "IndexKeyValueRef \<Rightarrow> bool" where
  "text_ok (KText v) = utf8_valid v"
| "text_ok _ = True"

definition canonical_part :: "IndexKeyPart \<Rightarrow> IndexKeyPart" where
  "canonical_part p = p\<lparr>part_value := canonical_value (part_value p)\<rparr>"

lemma ordered_byte_involution [simp]: "ordered_byte (ordered_byte b order) order = b"
  by (cases order) simp_all

lemma u64_from_be_u64_be [simp]: "u64_from_be (u64_be w) = w"
proof -
  have "unat w mod 256 ^ 8 = unat w"
    using unsigned_less [of w, where ?'a = nat] by (intro mod_less) simp
  then show ?thesis by (simp add: u64_from_be_def u64_be_def be_nat_be_bytes)
qed

lemma u32_from_be_u32_be [simp]: "u32_from_be (u32_be w) = w"
proof -
  have "unat w mod 256 ^ 4 = unat w"
    using unsigned_less [of w, where ?'a = nat] by (intro mod_less) simp
  then show ?thesis by (simp add: u32_from_be_def u32_be_def be_nat_be_bytes)
qed

lemma length_u64_be [simp]: "length (u64_be w) = 8" and length_u32_be [simp]: "length (u32_be v) = 4"
  by (simp_all add: u64_be_def u32_be_def)

lemma fixed_ordered_append:
  "length bs = n \<Longrightarrow>
    fixed_ordered n order (map (\<lambda>b. ordered_byte b order) bs @ rest) = Inr (bs, rest)"
  by (simp add: fixed_ordered_def comp_def)

lemma variable_loop_append:
  "variable_loop order out (map (\<lambda>b. ordered_byte b order) (variable_bytes bs) @ rest) = Inr (out @ bs, rest)"
proof (induction bs arbitrary: out)
  case Nil
  show ?case by (subst variable_loop.simps) (simp add: index_key_variable)
next
  case (Cons b bs)
  then show ?case
    by (subst variable_loop.simps) (simp add: escape_def index_key_variable)
qed

lemma float_from_ordered_bits_ordered:
  "float_from_ordered_bits (ordered_float_bits v) =
    (if f64_is_nan v then CANONICAL_NAN_BITS else if f64_is_zero v then 0 else v)"
proof -
  define bits where "bits = (if f64_is_nan v then CANONICAL_NAN_BITS else if f64_is_zero v then 0 else v)"
  have "f64_sign (bits XOR push_bit 63 1)" if "\<not> f64_sign bits"
    using that by (simp add: f64_sign_def bit_simps del: push_bit_numeral_minus_1)
  moreover have "\<not> f64_sign (NOT bits)" if "f64_sign bits"
    using that by (simp add: f64_sign_def bit_simps)
  ultimately show ?thesis
    unfolding ordered_float_bits_def float_from_ordered_bits_def Let_def and_sign_bit bits_def [symmetric]
    by (simp only: flip_sign_flip_sign bit.double_compl if_True if_False split: if_split) simp
qed

lemma decode_value_bytes:
  assumes "plain v" "text_ok v"
  shows "\<exists>tag payload. value_bytes v = tag # payload \<and>
    decode_value tag order (map (\<lambda>b. ordered_byte b order) payload @ rest) = Inr (canonical_value v, rest)"
  using assms
  by (cases v) (auto simp: plain_def decode_value_def index_key_tags fixed_ordered_append
      variable_ordered_def variable_loop_append float_from_ordered_bits_ordered)

lemma part_options_cases:
  "part_options order null_order AND OPTIONS_DESCENDING = 0 \<longleftrightarrow> order = Ascending"
  "part_options order null_order AND OPTIONS_NULLS_LAST = 0 \<longleftrightarrow> null_order = First"
  "OPTIONS_BASE \<le> part_options order null_order"
  "part_options order null_order \<le> (OPTIONS_BASE OR OPTIONS_DESCENDING OR OPTIONS_NULLS_LAST)"
  by (cases order; cases null_order; simp add: part_options_def index_key_consts)+

lemma null_rank_neq: "null_rank n True \<noteq> null_rank n False"
  by (cases n) simp_all

lemma part_with_value:
  "\<lparr>part_value = v, part_order = part_order p, part_null_order = part_null_order p,
    part_collation = CollationBinary\<rparr> = p\<lparr>part_value := v\<rparr>"
proof (cases p)
  case (fields v1 ord1 null1 coll1)
  then show ?thesis by (cases coll1) simp
qed

lemma decode_part_bytes:
  assumes "encodable (part_value p)" "text_ok (part_value p)"
  shows "decode_part (part_bytes p @ rest) = Inr (canonical_part p, rest)"
proof -
  have order: "(if order = Ascending then Ascending else Descending) = order" for order
    by (cases order) simp_all
  have null: "(if n = First then First else Last) = n" for n
    by (cases n) simp_all
  note opts = part_options_cases order null
  show ?thesis
  proof (cases "is_null (part_value p)")
    case True
    then have v: "part_value p = KNull" by (cases "part_value p") simp_all
    show ?thesis
      using part_with_value [of KNull p]
      by (simp add: part_bytes_def decode_part_def opts v canonical_part_def Let_def)
  next
    case False
    then have "plain (part_value p)" using assms by (simp add: plain_def)
    then obtain tag payload where v: "value_bytes (part_value p) = tag # payload"
      "decode_value tag (part_order p) (map (\<lambda>b. ordered_byte b (part_order p)) payload @ rest)
        = Inr (canonical_value (part_value p), rest)"
      using decode_value_bytes assms(2) by blast
    show ?thesis
      using False null_rank_neq [of "part_null_order p"] part_with_value [of _ p]
      by (simp add: part_bytes_def decode_part_def opts v canonical_part_def Let_def)
  qed
qed

lemma part_bytes_nonempty [simp]: "part_bytes p \<noteq> []"
  by (simp add: part_bytes_def)

lemma decode_loop_bytes:
  assumes "list_all (\<lambda>p. encodable (part_value p) \<and> text_ok (part_value p)) ps"
  shows "decode_loop (concat (map part_bytes ps)) = Inr (map canonical_part ps)"
  using assms
proof (induction ps)
  case Nil
  show ?case by (subst decode_loop.simps) simp
next
  case (Cons p ps)
  then show ?case by (subst decode_loop.simps) (simp add: decode_part_bytes)
qed

lemma decode_parts_header:
  "decode_parts (header_bytes @ bs) =
    and_then (decode_loop bs) (\<lambda>parts. if parts = [] then Inl DataCorruption else Inr parts)"
proof -
  have len: "length header_bytes = INDEX_KEY_HEADER_LEN"
    by (simp add: header_bytes_def index_key_consts)
  have "decode_header (header_bytes @ bs) = Inr INDEX_KEY_ENCODING_VERSION"
    unfolding decode_header_def using len by (simp add: header_bytes_def INDEX_KEY_HEADER_LEN_def)
  then show ?thesis
    using len by (simp add: decode_parts_def)
qed

lemma decode_value_text_ok:
  "decode_value tag order c = Inr (v, rest) \<Longrightarrow> text_ok v"
  unfolding decode_value_def
  by (simp only: split: if_split_asm) (auto simp: result_simps split: if_splits)

lemma decode_part_text_ok: "decode_part c = Inr (part, rest) \<Longrightarrow> text_ok (part_value part)"
  unfolding decode_part_def Let_def
  by (auto simp: result_simps split: if_splits dest: decode_value_text_ok)

lemma decode_loop_text_ok:
  "decode_loop c = Inr ps \<Longrightarrow> list_all (\<lambda>p. text_ok (part_value p)) ps"
proof (induction c arbitrary: ps rule: decode_loop.induct)
  case (1 c)
  show ?case
  proof (cases "c = []")
    case False
    then obtain part rest ps' where *: "decode_part c = Inr (part, rest)"
      "decode_loop rest = Inr ps'" "ps = part # ps'"
      using "1.prems" by (subst (asm) decode_loop.simps) (auto simp: result_simps)
    then show ?thesis
      using "1.IH" [OF False *(1) refl *(2)] decode_part_text_ok by simp
  qed (use "1.prems" in \<open>subst (asm) decode_loop.simps, simp\<close>)
qed

lemma part_bytes_canonical: "part_bytes (canonical_part p) = part_bytes p"
proof -
  have c: "f64_is_nan CANONICAL_NAN_BITS" "\<not> f64_is_nan 0" "f64_is_zero 0"
    by (simp_all add: f64_is_nan_iff f64_is_zero_iff CANONICAL_NAN_BITS_def)
  have "ordered_float_bits (if f64_is_nan v then CANONICAL_NAN_BITS else if f64_is_zero v then 0 else v)
      = ordered_float_bits v" for v
    by (cases "f64_is_nan v"; cases "f64_is_zero v")
      (simp_all only: ordered_float_bits_def Let_def c if_True if_False)
  then show ?thesis
    by (cases "part_value p") (simp_all add: part_bytes_def canonical_part_def)
qed

lemma encodable_canonical: "encodable (canonical_value v) = encodable v"
  by (cases v) simp_all

text \<open>C14: Decoding an encoded key gives back its components with their ordering rules; the
  two float zeros and the NaN patterns come back as their canonical representative.\<close>

theorem index_key_roundtrip:
  assumes "encode ps = Inr k" "list_all (\<lambda>p. text_ok (part_value p)) ps"
  shows "decode k = Inr (map canonical_part ps)"
proof -
  have "list_all (\<lambda>p. encodable (part_value p) \<and> text_ok (part_value p)) ps"
    using assms by (auto simp: encode_def encode_parts_Inr_iff list_all_iff)
  then show ?thesis
    using assms(1) decode_loop_bytes [of ps]
    by (simp add: decode_def encode_def encode_parts_Inr_iff decode_parts_header)
qed

text \<open>C15: Validation of stored bytes accepts exactly the canonical encodings, and returns the
  key that the encoder would have produced.\<close>

theorem from_bytes_exact:
  "from_bytes bs = Inr k \<longleftrightarrow>
    key_bytes k = bs \<and> (\<exists>ps. encode ps = Inr k \<and> list_all (\<lambda>p. text_ok (part_value p)) ps)"
proof
  assume "from_bytes bs = Inr k"
  then obtain ps where ps: "decode_parts bs = Inr ps" "encode_parts ps = Inr k" "key_bytes k = bs"
    by (auto simp: from_bytes_def result_simps split: if_splits)
  then have "list_all (\<lambda>p. text_ok (part_value p)) ps"
    by (auto simp: decode_parts_def result_simps split: if_splits dest: decode_loop_text_ok)
  with ps show "key_bytes k = bs \<and> (\<exists>ps. encode ps = Inr k \<and> list_all (\<lambda>p. text_ok (part_value p)) ps)"
    by (auto simp: encode_def)
next
  assume "key_bytes k = bs \<and> (\<exists>ps. encode ps = Inr k \<and> list_all (\<lambda>p. text_ok (part_value p)) ps)"
  then obtain ps where ps: "key_bytes k = bs" "encode_parts ps = Inr k"
    "list_all (\<lambda>p. text_ok (part_value p)) ps" by (auto simp: encode_def)
  then have "list_all (\<lambda>p. encodable (part_value p) \<and> text_ok (part_value p)) ps"
    by (auto simp: encode_parts_Inr_iff list_all_iff)
  then have "decode_parts bs = Inr (map canonical_part ps)"
    using ps decode_loop_bytes [of ps] by (auto simp: encode_parts_Inr_iff decode_parts_header)
  moreover have "encodable (part_value (canonical_part p)) = encodable (part_value p)" for p
    by (simp add: canonical_part_def encodable_canonical)
  then have "encode_parts (map canonical_part ps) = Inr k"
    using ps(2) by (simp add: encode_parts_Inr_iff list_all_iff comp_def part_bytes_canonical)
  ultimately show "from_bytes bs = Inr k"
    using ps(1) by (simp add: from_bytes_def)
qed

theorem index_key_order_preserving_witness:
  "\<exists>k l. encode [descending (KText [0x61]), ascending (KInt64 (- 1))] = Inr k
    \<and> encode [descending (KText [0x61]), ascending (KInt64 1)] = Inr l
    \<and> cmp (key_bytes k) (key_bytes l) = Less"
proof -
  let ?ps = "[descending (KText [0x61]), ascending (KInt64 (- 1))]"
  let ?qs = "[descending (KText [0x61]), ascending (KInt64 1)]"
  obtain k l where kl: "encode ?ps = Inr k" "encode ?qs = Inr l"
    by (simp add: encode_def encode_parts_Inr_iff ascending_def descending_def)
  have "cmp (key_bytes k) (key_bytes l) = parts_cmp ?ps ?qs"
    by (rule index_key_order_preserving [OF _ kl]) (simp add: same_spec_def ascending_def descending_def)
  also have "\<dots> = Less"
    by (simp add: part_cmp_def ascending_def descending_def value_cmp_def same_type_cmp_def)
  finally show ?thesis using kl by blast
qed

theorem index_key_roundtrip_witness:
  "\<exists>k. encode [ascending (KFloat64 0x8000000000000000), descending KNull] = Inr k
    \<and> decode k = Inr [ascending (KFloat64 0), descending KNull]"
proof -
  let ?ps = "[ascending (KFloat64 0x8000000000000000), descending KNull]"
  obtain k where k: "encode ?ps = Inr k"
    by (simp add: encode_def encode_parts_Inr_iff ascending_def descending_def)
  have "decode k = Inr (map canonical_part ?ps)"
    by (rule index_key_roundtrip [OF k]) (simp add: ascending_def descending_def)
  moreover have "f64_is_zero 0x8000000000000000" "\<not> f64_is_nan 0x8000000000000000"
    by (simp_all add: f64_is_zero_iff f64_is_nan_iff)
  ultimately show ?thesis
    using k by (simp add: canonical_part_def ascending_def descending_def)
qed


end
