(* ===== verification/Byte_Buffer.thy ===== *)
theory Byte_Buffer
  imports Prelude
begin

text \<open>
  Fixed-size byte buffers and random-access files.  \<open>sub_slice\<close> and
  \<open>copy_from_slice\<close> are the Rust sub_slice operations on in-range indices; the file
  operations are the positioned reads and writes of \<open>std::os::unix::fs::FileExt\<close>.
  A file carries the set of offsets whose reads the operating system fails, so that
  every read of the model has its error branch.
\<close>

named_theorems slice_simps \<open>slices of buffers and of concatenations\<close>

definition sub_slice :: "'a list \<Rightarrow> nat \<Rightarrow> nat \<Rightarrow> 'a list" where
  "sub_slice xs a b = take (b - a) (drop a xs)"

definition copy_from_slice :: "'a list \<Rightarrow> nat \<Rightarrow> 'a list \<Rightarrow> 'a list" where
  "copy_from_slice xs a v = take a xs @ v @ drop (a + length v) xs"

definition zeros :: "nat \<Rightarrow> bytes" where
  "zeros n = replicate n 0"

lemma length_zeros [simp]: "length (zeros n) = n"
  by (simp add: zeros_def)

lemma set_zeros: "x \<in> set (zeros n) \<Longrightarrow> x = 0"
  by (simp add: zeros_def)

lemma zeros_add: "zeros m @ zeros n = zeros (m + n)"
  by (simp add: zeros_def replicate_add)

lemma take_zeros [simp]: "take k (zeros n) = zeros (min k n)"
  by (simp add: zeros_def)

lemma drop_zeros [simp]: "drop k (zeros n) = zeros (n - k)"
  by (simp add: zeros_def)

lemma zeros_0 [simp]: "zeros 0 = []"
  by (simp add: zeros_def)

lemma all_zero_iff: "list_all (\<lambda>b. b = 0) xs \<longleftrightarrow> xs = zeros (length xs)"
  by (induction xs) (auto simp: zeros_def)

lemma length_copy_from_slice [simp]:
  "a + length v \<le> length xs \<Longrightarrow> length (copy_from_slice xs a v) = length xs"
  by (simp add: copy_from_slice_def)

lemma length_sub_slice [simp]: "b \<le> length xs \<Longrightarrow> length (sub_slice xs a b) = b - a"
  by (simp add: sub_slice_def)

lemma copy_from_slice_zeros:
  "a + length v \<le> n \<Longrightarrow> copy_from_slice (zeros n) a v = zeros a @ v @ zeros (n - a - length v)"
  by (simp add: copy_from_slice_def)

text \<open>Filling a buffer from left to right: the written prefix, then zeros.\<close>

lemma copy_from_slice_append:
  assumes "length xs = a" "length v \<le> n"
  shows "copy_from_slice (xs @ zeros n) a v = (xs @ v) @ zeros (n - length v)"
  using assms by (simp add: copy_from_slice_def)

lemma copy_from_slice_skip:
  assumes "length xs + k = a" "k + length v \<le> n"
  shows "copy_from_slice (xs @ zeros n) a v = (xs @ zeros k @ v) @ zeros (n - k - length v)"
proof -
  have "zeros n = zeros k @ zeros (n - k)"
    using assms by (simp add: zeros_add)
  then show ?thesis
    using assms by (auto simp: copy_from_slice_def)
qed

lemma sub_slice_append1 [slice_simps]: "b \<le> length xs \<Longrightarrow> sub_slice (xs @ ys) a b = sub_slice xs a b"
  by (cases "a \<le> b") (simp_all add: sub_slice_def)

lemma sub_slice_append2 [slice_simps]:
  "length xs \<le> a \<Longrightarrow> sub_slice (xs @ ys) a b = sub_slice ys (a - length xs) (b - length xs)"
  by (simp add: sub_slice_def)

lemma sub_slice_all [slice_simps]: "b = length xs \<Longrightarrow> sub_slice xs 0 b = xs"
  by (simp add: sub_slice_def)

lemma sub_slice_zeros [slice_simps]: "sub_slice (zeros n) a b = zeros (min (b - a) (n - a))"
  by (simp add: sub_slice_def)

lemma sub_slice_Cons_Suc [slice_simps]: "sub_slice (x # xs) (Suc a) (Suc b) = sub_slice xs a b"
  by (simp add: sub_slice_def)

lemma sub_slice_0: "sub_slice xs 0 b = take b xs"
  by (simp add: sub_slice_def)

lemma sub_slice_sub_slice: "c \<le> d \<Longrightarrow> a + d \<le> b \<Longrightarrow> sub_slice (sub_slice xs a b) c d = sub_slice xs (a + c) (a + d)"
  by (simp add: sub_slice_def min_def drop_take add.commute)

lemma sub_slice_split:
  assumes "a \<le> b" "b \<le> c"
  shows "sub_slice xs a c = sub_slice xs a b @ sub_slice xs b c"
proof -
  have "c - a = (b - a) + (c - b)" "b = a + (b - a)" using assms by simp_all
  then show ?thesis
    using take_add [of "b - a" "c - b" "drop a xs"] assms by (simp add: sub_slice_def)
qed

lemma sub_slice_take: "b \<le> a \<Longrightarrow> sub_slice (take a xs) c b = sub_slice xs c b"
  by (simp add: sub_slice_def drop_take min_def)

lemma sub_slice_append:
  "sub_slice (xs @ ys) a b = sub_slice xs a b @ sub_slice ys (a - length xs) (b - length xs)"
proof (cases "a \<le> length xs")
  case True
  then have "b - a - (length xs - a) = b - length xs" by simp
  with True show ?thesis by (simp add: sub_slice_def)
qed (simp add: sub_slice_def)

lemma sub_slice_beyond: "length xs \<le> a \<Longrightarrow> sub_slice xs a b = []" "b \<le> a \<Longrightarrow> sub_slice xs a b = []"
  by (simp_all add: sub_slice_def)

lemma zeros_add_left: "zeros m @ zeros n @ xs = zeros (m + n) @ xs"
  by (simp add: zeros_add flip: append_assoc)

lemma fill_next:
  "length xs = a \<Longrightarrow> length v = m \<Longrightarrow> n = m + r \<Longrightarrow>
    copy_from_slice (xs @ zeros n) a v = (xs @ v) @ zeros r"
  by (simp add: copy_from_slice_append)

lemma fill_gap:
  "length xs + k = a \<Longrightarrow> length v = m \<Longrightarrow> n = k + m + r \<Longrightarrow>
    copy_from_slice (xs @ zeros n) a v = ((xs @ zeros k) @ v) @ zeros r"
  by (simp add: copy_from_slice_skip)

lemma le_nat_zeros [simp]: "le_nat (zeros n) = 0"
  by (induction n) (simp_all add: zeros_def)

section \<open>Files\<close>

record File =
  file_bytes :: bytes
  io_fails :: "nat \<Rightarrow> bool"

datatype ReadError = UnexpectedEof | OtherIo

definition read_exact_at :: "File \<Rightarrow> nat \<Rightarrow> nat \<Rightarrow> ReadError + bytes" where
  "read_exact_at f n offset =
    (if io_fails f offset then Inl OtherIo
     else if offset + n \<le> length (file_bytes f) then Inr (sub_slice (file_bytes f) offset (offset + n))
     else Inl UnexpectedEof)"

text \<open>A file grows with zero bytes.\<close>

definition extend_to :: "nat \<Rightarrow> bytes \<Rightarrow> bytes" where
  "extend_to n xs = xs @ zeros (n - length xs)"

definition write_all_at :: "File \<Rightarrow> bytes \<Rightarrow> nat \<Rightarrow> File" where
  "write_all_at f bs offset =
    f\<lparr>file_bytes := copy_from_slice (extend_to (offset + length bs) (file_bytes f)) offset bs\<rparr>"

definition set_len :: "File \<Rightarrow> nat \<Rightarrow> File" where
  "set_len f n = f\<lparr>file_bytes := take n (extend_to n (file_bytes f))\<rparr>"

lemma length_extend_to [simp]: "length (extend_to n xs) = max n (length xs)"
  by (simp add: extend_to_def)

lemma length_write_all_at [simp]:
  "length (file_bytes (write_all_at f bs offset)) = max (offset + length bs) (length (file_bytes f))"
  by (simp add: write_all_at_def)

lemma io_fails_write_all_at [simp]: "io_fails (write_all_at f bs offset) = io_fails f"
  by (simp add: write_all_at_def)

lemma length_set_len [simp]: "length (file_bytes (set_len f n)) = n"
  by (simp add: set_len_def)

lemma io_fails_set_len [simp]: "io_fails (set_len f n) = io_fails f"
  by (simp add: set_len_def)

lemma sub_slice_extend_to: "b \<le> length xs \<Longrightarrow> sub_slice (extend_to n xs) a b = sub_slice xs a b"
  by (simp add: extend_to_def sub_slice_append1)

lemma sub_slice_copy_same:
  "a + length v \<le> length xs \<Longrightarrow> sub_slice (copy_from_slice xs a v) a (a + length v) = v"
  by (simp add: copy_from_slice_def sub_slice_def)

lemma sub_slice_copy_before:
  "b \<le> a \<Longrightarrow> a \<le> length xs \<Longrightarrow> sub_slice (copy_from_slice xs a v) c b = sub_slice xs c b"
  by (simp add: copy_from_slice_def sub_slice_append1 sub_slice_take)

lemma sub_slice_copy_after:
  assumes "a + length v \<le> c" "a + length v \<le> length xs"
  shows "sub_slice (copy_from_slice xs a v) c b = sub_slice xs c b"
  using assms by (simp add: copy_from_slice_def sub_slice_def add.commute)

lemma read_write_same [simp]:
  "length bs = n \<Longrightarrow> \<not> io_fails f offset \<Longrightarrow>
    read_exact_at (write_all_at f bs offset) n offset = Inr bs"
  using sub_slice_copy_same [of offset bs "extend_to (offset + length bs) (file_bytes f)"]
  by (auto simp: read_exact_at_def write_all_at_def)

lemma read_write_other:
  assumes "offset + length bs \<le> p \<or> p + n \<le> offset" "p + n \<le> length (file_bytes f)"
  shows "read_exact_at (write_all_at f bs offset) n p = read_exact_at f n p"
proof -
  let ?xs = "extend_to (offset + length bs) (file_bytes f)"
  have len: "offset + length bs \<le> length ?xs" by simp
  have "sub_slice (copy_from_slice ?xs offset bs) p (p + n) = sub_slice ?xs p (p + n)"
    using assms(1) sub_slice_copy_before [of "p + n" offset ?xs bs p] sub_slice_copy_after [of offset bs p ?xs "p + n"] len
    by auto
  also have "\<dots> = sub_slice (file_bytes f) p (p + n)"
    using assms(2) by (rule sub_slice_extend_to)
  finally show ?thesis
    using assms(2) by (simp add: read_exact_at_def write_all_at_def le_max_iff_disj)
qed

lemma read_set_len:
  assumes "p + n \<le> length (file_bytes f)" "length (file_bytes f) \<le> m"
  shows "read_exact_at (set_len f m) n p = read_exact_at f n p"
proof -
  have "take m (extend_to m (file_bytes f)) = extend_to m (file_bytes f)"
    using assms(2) by (simp add: extend_to_def)
  then show ?thesis
    using assms by (simp add: read_exact_at_def set_len_def sub_slice_extend_to)
qed

lemma read_exact_at_Inr_length: "read_exact_at f n p = Inr bs \<Longrightarrow> length bs = n"
  by (auto simp: read_exact_at_def split: if_splits)

lemma length_sub_slice_le: "length (sub_slice xs a b) \<le> b - a"
  by (simp add: sub_slice_def)

lemma read_exact_at_Inr_bound: "read_exact_at f n p = Inr bs \<Longrightarrow> p + n \<le> length (file_bytes f)"
  by (auto simp: read_exact_at_def split: if_splits)

end
