(* ===== verification/Isam_Format.thy ===== *)
theory Isam_Format
  imports Byte_Buffer
begin

unbundle bit_operations_syntax

text \<open>
  The file header of the ISAM record store (\<open>storage/isam/format.rs\<close>) with the types
  it shares with the rest of the component (\<open>storage/isam/mod.rs\<close>): the two
  alternating root slots, the working root of the pipelined format, and the choice
  of the current root at open.  Unsigned 64-bit fields are natural numbers; their
  range is part of \<open>snapshot_ok\<close>, and checked additions carry their overflow test.
\<close>

named_theorems isam_consts \<open>sizes and offsets of the ISAM format\<close>

section \<open>Types of the component\<close>

text \<open>The texts of the errors are not part of the model.\<close>

datatype IsamError =
    Io | Invalid | Corrupt | IsamBusy | Duplicate | IsamReadOnly | WrongProcess
  | LockRegistryPoisoned | CommitUnknown

record Layout =
  key_bytes :: nat
  max_value_bytes :: nat

definition layout_new :: "nat \<Rightarrow> nat \<Rightarrow> IsamError + Layout" where
  "layout_new kb mv =
    (if \<not> (1 \<le> kb \<and> kb \<le> 128) \<or> mv > 1024 then Inl Invalid
     else Inr \<lparr>key_bytes = kb, max_value_bytes = mv\<rparr>)"

definition check_key :: "Layout \<Rightarrow> bytes \<Rightarrow> IsamError + unit" where
  "check_key self k = check_that (length k = key_bytes self) Invalid"

record Snapshot =
  format_version :: nat
  layout :: Layout
  generation :: nat
  publication :: nat
  root :: nat
  end_of :: nat

record WorkingState =
  ws_snapshot :: Snapshot
  durable_generation :: nat
  ready :: u64
  failed :: bool

section \<open>Constants\<close>

definition PAGE_BYTES :: nat where [isam_consts]: "PAGE_BYTES = 4096"
definition HEADER_BYTES :: nat where [isam_consts]: "HEADER_BYTES = 2 * 4096"
definition CHECKSUM_START :: nat where [isam_consts]: "CHECKSUM_START = 4096 - 32"
definition FORMAT_VERSION :: nat where [isam_consts]: "FORMAT_VERSION = 2"
definition PACKED_FORMAT_VERSION :: nat where [isam_consts]: "PACKED_FORMAT_VERSION = 3"
definition PIPELINED_FORMAT_VERSION :: nat where [isam_consts]: "PIPELINED_FORMAT_VERSION = 4"
definition WORKING_ROOT_OFFSET :: nat where [isam_consts]: "WORKING_ROOT_OFFSET = 2 * 4096"

text \<open>The bytes of \<open>"BRISAM02"\<close>, \<open>"BRISAM03"\<close> and \<open>"BRISAM04"\<close>.\<close>

definition ISAM_MAGIC :: bytes where "ISAM_MAGIC = [66, 82, 73, 83, 65, 77, 48, 50]"
definition ISAM_PACKED_MAGIC :: bytes where "ISAM_PACKED_MAGIC = [66, 82, 73, 83, 65, 77, 48, 51]"
definition ISAM_PIPELINED_MAGIC :: bytes where "ISAM_PIPELINED_MAGIC = [66, 82, 73, 83, 65, 77, 48, 52]"

definition I64_MAX :: nat where [isam_consts]: "I64_MAX = 2 ^ 63 - 1"

definition data_start :: "nat \<Rightarrow> nat" where
  "data_start version =
    (if version = PIPELINED_FORMAT_VERSION then HEADER_BYTES + PAGE_BYTES else HEADER_BYTES)"

section \<open>Checksums and fields\<close>

definition seal :: "(bytes \<Rightarrow> bytes) \<Rightarrow> bytes \<Rightarrow> bytes" where
  "seal blake3 bs = copy_from_slice bs CHECKSUM_START (blake3 (take CHECKSUM_START bs))"

definition checksum_valid :: "(bytes \<Rightarrow> bytes) \<Rightarrow> bytes \<Rightarrow> bool" where
  "checksum_valid blake3 bs \<longleftrightarrow> blake3 (take CHECKSUM_START bs) = drop CHECKSUM_START bs"

definition u16_at :: "bytes \<Rightarrow> nat \<Rightarrow> nat" where
  "u16_at bs offset = le_nat (sub_slice bs offset (offset + 2))"

definition u64_at :: "bytes \<Rightarrow> nat \<Rightarrow> nat" where
  "u64_at bs offset = le_nat (sub_slice bs offset (offset + 8))"

section \<open>Writing a root\<close>

text \<open>The page of a root before sealing; \<open>None\<close> for an unknown format version.\<close>

definition root_magic :: "nat \<Rightarrow> bytes option" where
  "root_magic version =
    (if version = FORMAT_VERSION then Some ISAM_MAGIC
     else if version = PACKED_FORMAT_VERSION then Some ISAM_PACKED_MAGIC
     else if version = PIPELINED_FORMAT_VERSION then Some ISAM_PIPELINED_MAGIC
     else None)"

definition root_page :: "bytes \<Rightarrow> Snapshot \<Rightarrow> (nat \<times> u64 \<times> bool) option \<Rightarrow> bytes" where
  "root_page magic snapshot working =
    (let b1 = copy_from_slice (zeros PAGE_BYTES) 0 magic;
         b2 = copy_from_slice b1 8 (le_bytes 2 (format_version snapshot));
         b3 = copy_from_slice b2 10 (le_bytes 2 (key_bytes (layout snapshot)));
         b4 = copy_from_slice b3 12 (le_bytes 2 (max_value_bytes (layout snapshot)));
         b5 = copy_from_slice b4 16 (le_bytes 8 (generation snapshot));
         b6 = copy_from_slice b5 24 (le_bytes 8 (root snapshot));
         b7 = copy_from_slice b6 32 (le_bytes 8 (end_of snapshot));
         b8 = (if format_version snapshot = PIPELINED_FORMAT_VERSION
               then copy_from_slice b7 40 (le_bytes 8 (publication snapshot)) else b7)
     in case working of
          None \<Rightarrow> b8
        | Some (durable, rdy, fld) \<Rightarrow>
            copy_from_slice (copy_from_slice (copy_from_slice b8 48 (le_bytes 8 durable))
              56 (le_bytes 8 (unat rdy))) 64 (le_bytes 8 (if fld then 1 else 0)))"

definition write_snapshot_at ::
    "(bytes \<Rightarrow> bytes) \<Rightarrow> File \<Rightarrow> Snapshot \<Rightarrow> nat \<Rightarrow> (nat \<times> u64 \<times> bool) option \<Rightarrow> IsamError + File" where
  "write_snapshot_at blake3 file snapshot offset working =
    (case root_magic (format_version snapshot) of
       None \<Rightarrow> Inl Invalid
     | Some magic \<Rightarrow> Inr (write_all_at file (seal blake3 (root_page magic snapshot working)) offset))"

definition write_snapshot :: "(bytes \<Rightarrow> bytes) \<Rightarrow> File \<Rightarrow> Snapshot \<Rightarrow> IsamError + File" where
  "write_snapshot blake3 file snapshot =
    write_snapshot_at blake3 file snapshot
      (((if format_version snapshot = PIPELINED_FORMAT_VERSION then publication snapshot
         else generation snapshot) mod 2) * PAGE_BYTES) None"

definition write_working_state :: "(bytes \<Rightarrow> bytes) \<Rightarrow> File \<Rightarrow> WorkingState \<Rightarrow> IsamError + File" where
  "write_working_state blake3 file state =
    (if format_version (ws_snapshot state) \<noteq> PIPELINED_FORMAT_VERSION then Inl Invalid
     else write_snapshot_at blake3 file (ws_snapshot state) WORKING_ROOT_OFFSET
       (Some (durable_generation state, ready state, failed state)))"

definition write_working_snapshot :: "(bytes \<Rightarrow> bytes) \<Rightarrow> File \<Rightarrow> Snapshot \<Rightarrow> IsamError + File" where
  "write_working_snapshot blake3 file snapshot =
    write_working_state blake3 file
      \<lparr>ws_snapshot = snapshot, durable_generation = generation snapshot, ready = 0, failed = False\<rparr>"

section \<open>Reading a root\<close>

definition decode_snapshot ::
    "(bytes \<Rightarrow> bytes) \<Rightarrow> bytes \<Rightarrow> nat option \<Rightarrow> IsamError + Snapshot option" where
  "decode_snapshot blake3 bs slot =
    (if \<not> checksum_valid blake3 bs then
       (if list_all (\<lambda>b. b = 0) bs then Inr None else Inl Corrupt)
     else
       let version = u16_at bs 8;
           reserved_start = (if version = PIPELINED_FORMAT_VERSION
                             then (if slot = None then 72 else 48) else 40)
       in
       if \<not> ((version = FORMAT_VERSION \<and> sub_slice bs 0 8 = ISAM_MAGIC) \<or>
             (version = PACKED_FORMAT_VERSION \<and> sub_slice bs 0 8 = ISAM_PACKED_MAGIC) \<or>
             (version = PIPELINED_FORMAT_VERSION \<and> sub_slice bs 0 8 = ISAM_PIPELINED_MAGIC))
       then Inl Corrupt
       else if list_ex (\<lambda>b. b \<noteq> 0) (sub_slice bs 14 16 @ sub_slice bs reserved_start CHECKSUM_START)
       then Inl Corrupt
       else (case layout_new (u16_at bs 10) (u16_at bs 12) of
           Inl _ \<Rightarrow> Inl Corrupt
         | Inr l \<Rightarrow>
             let s = \<lparr>format_version = version, layout = l, generation = u64_at bs 16,
                       publication = (if version = PIPELINED_FORMAT_VERSION then u64_at bs 40
                                      else u64_at bs 16),
                       root = u64_at bs 24, end_of = u64_at bs 32\<rparr>
             in
             if generation s = 0 \<or> publication s = 0 \<or> publication s > generation s
                \<or> (case slot of None \<Rightarrow> False | Some k \<Rightarrow> publication s mod 2 \<noteq> k)
                \<or> end_of s < data_start version \<or> end_of s mod PAGE_BYTES \<noteq> 0
                \<or> end_of s > I64_MAX
                \<or> (root s \<noteq> 0 \<and> (root s < data_start version \<or> root s \<ge> end_of s
                                 \<or> root s mod PAGE_BYTES \<noteq> 0))
             then Inl Corrupt else Inr (Some s)))"

text \<open>The error of a positioned read: a short file is corruption.\<close>

definition read_error :: "ReadError \<Rightarrow> IsamError" where
  "read_error e = (case e of UnexpectedEof \<Rightarrow> Corrupt | OtherIo \<Rightarrow> Io)"

definition choose_root :: "Snapshot option \<Rightarrow> Snapshot option \<Rightarrow> IsamError + Snapshot" where
  "choose_root slot0 slot1 =
    (case (slot0, slot1) of
       (Some a, Some b) \<Rightarrow>
         (let (newer, older) = (if publication a > publication b then (a, b) else (b, a)) in
          if layout a \<noteq> layout b \<or> format_version a \<noteq> format_version b
             \<or> (publication a - publication b) + (publication b - publication a) \<noteq> 1
             \<or> generation newer < generation older \<or> end_of newer < end_of older
             \<or> (generation newer = generation older
                \<and> (format_version newer \<noteq> PIPELINED_FORMAT_VERSION
                   \<or> root newer \<noteq> root older \<or> end_of newer \<noteq> end_of older))
          then Inl Corrupt else Inr newer)
     | (Some s, None) \<Rightarrow> if publication s = 1 \<and> generation s = 1 then Inr s else Inl Corrupt
     | (None, Some s) \<Rightarrow> if publication s = 1 \<and> generation s = 1 then Inr s else Inl Corrupt
     | (None, None) \<Rightarrow> Inl Corrupt)"

definition read_snapshot :: "(bytes \<Rightarrow> bytes) \<Rightarrow> File \<Rightarrow> IsamError + Snapshot" where
  "read_snapshot blake3 file =
    (case read_exact_at file HEADER_BYTES 0 of
       Inl e \<Rightarrow> Inl (read_error e)
     | Inr bs \<Rightarrow>
         and_then (decode_snapshot blake3 (take PAGE_BYTES bs) (Some 0)) (\<lambda>a.
         and_then (decode_snapshot blake3 (drop PAGE_BYTES bs) (Some 1)) (\<lambda>b.
         choose_root a b)))"

definition window_bits :: "nat \<Rightarrow> nat \<Rightarrow> u64" where
  "window_bits durable newest =
    fold (\<lambda>delta acc. acc OR push_bit ((durable + delta) mod 64) 1) [1..<Suc (newest - durable)] 0"

definition read_working_state :: "(bytes \<Rightarrow> bytes) \<Rightarrow> File \<Rightarrow> IsamError + WorkingState" where
  "read_working_state blake3 file =
    (case read_exact_at file PAGE_BYTES WORKING_ROOT_OFFSET of
       Inl e \<Rightarrow> Inl Io
     | Inr bs \<Rightarrow>
         and_then (decode_snapshot blake3 bs None) (\<lambda>decoded.
         case decoded of
           None \<Rightarrow> Inl Corrupt
         | Some snapshot \<Rightarrow>
             if format_version snapshot \<noteq> PIPELINED_FORMAT_VERSION then Inl Corrupt
             else
               let durable = u64_at bs 48; rdy = (word_of_nat (u64_at bs 56) :: u64); fld = u64_at bs 64 in
               if durable = 0 \<or> durable > generation snapshot
                  \<or> generation snapshot - durable > 64 \<or> fld > 1
               then Inl Corrupt
               else if rdy AND NOT (window_bits durable (generation snapshot)) \<noteq> 0 then Inl Corrupt
               else Inr \<lparr>ws_snapshot = snapshot, durable_generation = durable, ready = rdy,
                          failed = (fld \<noteq> 0)\<rparr>))"

section \<open>Root pages round-trip\<close>

lemma checksum_valid_seal:
  assumes "digest_32 blake3" "length bs = PAGE_BYTES"
  shows "checksum_valid blake3 (seal blake3 bs)"
  using assms by (simp add: checksum_valid_def seal_def copy_from_slice_def digest_32_def isam_consts)

lemma length_seal [simp]:
  assumes "digest_32 blake3" "length bs = PAGE_BYTES"
  shows "length (seal blake3 bs) = PAGE_BYTES"
  using assms by (simp add: seal_def copy_from_slice_def digest_32_def isam_consts)

lemma seal_append:
  assumes "digest_32 blake3" "length bs = CHECKSUM_START"
  shows "seal blake3 (bs @ zeros 32) = bs @ blake3 bs"
  using assms by (simp add: seal_def copy_from_slice_def digest_32_def isam_consts)

text \<open>The layout of a root page: the fields, then zeros up to the checksum.\<close>

definition root_fields :: "bytes \<Rightarrow> Snapshot \<Rightarrow> (nat \<times> u64 \<times> bool) option \<Rightarrow> bytes" where
  "root_fields magic s working =
    magic @ le_bytes 2 (format_version s) @ le_bytes 2 (key_bytes (layout s))
      @ le_bytes 2 (max_value_bytes (layout s)) @ zeros 2 @ le_bytes 8 (generation s)
      @ le_bytes 8 (root s) @ le_bytes 8 (end_of s)
      @ (if format_version s = PIPELINED_FORMAT_VERSION then le_bytes 8 (publication s) else zeros 8)
      @ (case working of None \<Rightarrow> zeros 24
         | Some (d, r, f) \<Rightarrow> le_bytes 8 d @ le_bytes 8 (unat r) @ le_bytes 8 (if f then 1 else 0))"

lemma length_root_fields: "length magic = 8 \<Longrightarrow> length (root_fields magic s w) = 72"
  by (auto simp: root_fields_def split: option.splits)

lemma root_page_eq:
  assumes m: "length magic = 8"
  shows "root_page magic s working = root_fields magic s working @ zeros (PAGE_BYTES - 72)"
proof -
  let ?v = "le_bytes 2 (format_version s)" and ?k = "le_bytes 2 (key_bytes (layout s))"
    and ?x = "le_bytes 2 (max_value_bytes (layout s))" and ?g = "le_bytes 8 (generation s)"
    and ?r = "le_bytes 8 (root s)" and ?e = "le_bytes 8 (end_of s)" and ?p = "le_bytes 8 (publication s)"
  let ?p7 = "((((((magic @ ?v) @ ?k) @ ?x) @ zeros 2) @ ?g) @ ?r) @ ?e"
  have 1: "copy_from_slice (zeros PAGE_BYTES) 0 magic = magic @ zeros 4088"
    using m by (simp add: copy_from_slice_def isam_consts)
  have 2: "copy_from_slice (magic @ zeros 4088) 8 ?v = (magic @ ?v) @ zeros 4086"
    by (rule fill_next) (simp_all add: m)
  have 3: "copy_from_slice ((magic @ ?v) @ zeros 4086) 10 ?k = ((magic @ ?v) @ ?k) @ zeros 4084"
    by (rule fill_next) (simp_all add: m)
  have 4: "copy_from_slice (((magic @ ?v) @ ?k) @ zeros 4084) 12 ?x =
      (((magic @ ?v) @ ?k) @ ?x) @ zeros 4082"
    by (rule fill_next) (simp_all add: m)
  have 5: "copy_from_slice ((((magic @ ?v) @ ?k) @ ?x) @ zeros 4082) 16 ?g =
      (((((magic @ ?v) @ ?k) @ ?x) @ zeros 2) @ ?g) @ zeros 4072"
    by (rule fill_gap) (simp_all add: m)
  have 6: "copy_from_slice ((((((magic @ ?v) @ ?k) @ ?x) @ zeros 2) @ ?g) @ zeros 4072) 24 ?r =
      ((((((magic @ ?v) @ ?k) @ ?x) @ zeros 2) @ ?g) @ ?r) @ zeros 4064"
    by (rule fill_next) (simp_all add: m)
  have 7: "copy_from_slice (((((((magic @ ?v) @ ?k) @ ?x) @ zeros 2) @ ?g) @ ?r) @ zeros 4064) 32 ?e =
      ?p7 @ zeros 4056"
    by (rule fill_next) (simp_all add: m)
  define p8 where "p8 = ?p7 @ (if format_version s = PIPELINED_FORMAT_VERSION then ?p else zeros 8)"
  have l8: "length p8 = 48" by (simp add: p8_def m)
  have 8: "(if format_version s = PIPELINED_FORMAT_VERSION
      then copy_from_slice (?p7 @ zeros 4056) 40 ?p else ?p7 @ zeros 4056) = p8 @ zeros 4048"
  proof (cases "format_version s = PIPELINED_FORMAT_VERSION")
    case True
    have "copy_from_slice (?p7 @ zeros 4056) 40 ?p = (?p7 @ ?p) @ zeros 4048"
      by (rule fill_next) (simp_all add: m)
    with True show ?thesis by (simp add: p8_def)
  qed (simp add: p8_def zeros_add)
  have 9: "copy_from_slice (p8 @ zeros 4048) 48 (le_bytes 8 d) = (p8 @ le_bytes 8 d) @ zeros 4040"
    for d by (rule fill_next) (simp_all add: l8)
  have 10: "copy_from_slice ((p8 @ le_bytes 8 d) @ zeros 4040) 56 (le_bytes 8 q) =
      ((p8 @ le_bytes 8 d) @ le_bytes 8 q) @ zeros 4032"
    for d q by (rule fill_next) (simp_all add: l8)
  have 11: "copy_from_slice (((p8 @ le_bytes 8 d) @ le_bytes 8 q) @ zeros 4032) 64 (le_bytes 8 f) =
      (((p8 @ le_bytes 8 d) @ le_bytes 8 q) @ le_bytes 8 f) @ zeros 4024"
    for d q f by (rule fill_next) (simp_all add: l8)
  have "root_page magic s working = (case working of None \<Rightarrow> p8 @ zeros 4048
     | Some (d, q, f) \<Rightarrow> (((p8 @ le_bytes 8 d) @ le_bytes 8 (unat q)) @ le_bytes 8 (if f then 1 else 0)) @ zeros 4024)"
    unfolding root_page_def Let_def 1 2 3 4 5 6 7 8 9 10 11 ..
  then show ?thesis
    by (cases working) (auto simp: root_fields_def p8_def zeros_add isam_consts)
qed

lemma length_root_page [simp]: "length magic = 8 \<Longrightarrow> length (root_page magic s w) = PAGE_BYTES"
  by (simp add: root_page_eq length_root_fields isam_consts)

lemma seal_root_page:
  assumes "digest_32 blake3" "length magic = 8"
  shows "seal blake3 (root_page magic s w) =
    root_fields magic s w @ zeros 3992 @ blake3 (root_fields magic s w @ zeros 3992)"
proof -
  have "root_page magic s w = (root_fields magic s w @ zeros 3992) @ zeros 32"
    using assms by (simp add: root_page_eq zeros_add isam_consts)
  moreover have "length (root_fields magic s w @ zeros 3992) = CHECKSUM_START"
    using assms by (simp add: length_root_fields isam_consts)
  ultimately show ?thesis
    using seal_append [OF assms(1), of "root_fields magic s w @ zeros 3992"] by simp
qed

text \<open>What a valid root promises.\<close>

definition snapshot_ok :: "Snapshot \<Rightarrow> bool" where
  "snapshot_ok s \<longleftrightarrow>
    format_version s \<in> {FORMAT_VERSION, PACKED_FORMAT_VERSION, PIPELINED_FORMAT_VERSION}
    \<and> 1 \<le> key_bytes (layout s) \<and> key_bytes (layout s) \<le> 128 \<and> max_value_bytes (layout s) \<le> 1024
    \<and> 0 < generation s \<and> generation s < 2 ^ 64
    \<and> 0 < publication s \<and> publication s \<le> generation s
    \<and> (format_version s \<noteq> PIPELINED_FORMAT_VERSION \<longrightarrow> publication s = generation s)
    \<and> data_start (format_version s) \<le> end_of s \<and> end_of s mod PAGE_BYTES = 0 \<and> end_of s \<le> I64_MAX
    \<and> (root s \<noteq> 0 \<longrightarrow> data_start (format_version s) \<le> root s \<and> root s < end_of s
        \<and> root s mod PAGE_BYTES = 0)"

lemma length_root_magic: "root_magic v = Some m \<Longrightarrow> length m = 8"
  by (auto simp: root_magic_def ISAM_MAGIC_def ISAM_PACKED_MAGIC_def ISAM_PIPELINED_MAGIC_def split: if_splits)

lemma root_magic_ok: "snapshot_ok s \<Longrightarrow> \<exists>m. root_magic (format_version s) = Some m"
  by (auto simp: snapshot_ok_def root_magic_def)

text \<open>The fields of a sealed root page.\<close>

lemma root_page_slices:
  assumes d: "digest_32 blake3" and m: "length magic = 8"
    and bs: "bs = seal blake3 (root_page magic s w)"
  shows "sub_slice bs 0 8 = magic"
    "u16_at bs 8 = format_version s mod 2 ^ 16"
    "u16_at bs 10 = key_bytes (layout s) mod 2 ^ 16"
    "u16_at bs 12 = max_value_bytes (layout s) mod 2 ^ 16"
    "sub_slice bs 14 16 = zeros 2"
    "u64_at bs 16 = generation s mod 2 ^ 64"
    "u64_at bs 24 = root s mod 2 ^ 64"
    "u64_at bs 32 = end_of s mod 2 ^ 64"
    "u64_at bs 40 = (if format_version s = PIPELINED_FORMAT_VERSION then publication s mod 2 ^ 64 else 0)"
    "sub_slice bs 72 CHECKSUM_START = zeros 3992"
    "w = None \<Longrightarrow> sub_slice bs 48 CHECKSUM_START = zeros 4016"
    "w = None \<Longrightarrow> format_version s \<noteq> PIPELINED_FORMAT_VERSION \<Longrightarrow> sub_slice bs 40 CHECKSUM_START = zeros 4024"
    "w = Some (dg, r, f) \<Longrightarrow> u64_at bs 48 = dg mod 2 ^ 64"
    "w = Some (dg, r, f) \<Longrightarrow> u64_at bs 56 = unat r"
    "w = Some (dg, r, f) \<Longrightarrow> u64_at bs 64 = (if f then 1 else 0)"
proof -
  have r: "unat r mod 18446744073709551616 = unat r"
    using unsigned_less [of r, where ?'a = nat] by simp
  note defs = bs seal_root_page [OF d m] root_fields_def u16_at_def u64_at_def
  note simps = m slice_simps le_nat_le_bytes zeros_add isam_consts r
  show "sub_slice bs 0 8 = magic"
    "u16_at bs 8 = format_version s mod 2 ^ 16"
    "u16_at bs 10 = key_bytes (layout s) mod 2 ^ 16"
    "u16_at bs 12 = max_value_bytes (layout s) mod 2 ^ 16"
    "sub_slice bs 14 16 = zeros 2"
    by (simp_all add: defs simps)
  show
    "u64_at bs 16 = generation s mod 2 ^ 64"
    "u64_at bs 24 = root s mod 2 ^ 64"
    "u64_at bs 32 = end_of s mod 2 ^ 64"
    "u64_at bs 40 = (if format_version s = PIPELINED_FORMAT_VERSION then publication s mod 2 ^ 64 else 0)"
    by (simp_all add: defs simps)
  have l: "length (case w of None \<Rightarrow> zeros 24
         | Some (d, r, f) \<Rightarrow> le_bytes 8 d @ le_bytes 8 (unat r) @ le_bytes 8 (if f then 1 else 0)) = 24"
    by (auto split: option.split)
  have cs: "CHECKSUM_START = 4064" by (simp add: isam_consts)
  show "sub_slice bs 72 CHECKSUM_START = zeros 3992"
    unfolding defs cs by (simp add: l simps)
  show "w = None \<Longrightarrow> sub_slice bs 48 CHECKSUM_START = zeros 4016"
    unfolding defs cs by (simp add: simps sub_slice_append sub_slice_beyond zeros_add_left)
  show "w = None \<Longrightarrow> format_version s \<noteq> PIPELINED_FORMAT_VERSION \<Longrightarrow> sub_slice bs 40 CHECKSUM_START = zeros 4024"
    unfolding defs cs by (simp add: simps sub_slice_append sub_slice_beyond zeros_add_left)
  show "w = Some (dg, r, f) \<Longrightarrow> u64_at bs 48 = dg mod 2 ^ 64"
    "w = Some (dg, r, f) \<Longrightarrow> u64_at bs 56 = unat r"
    "w = Some (dg, r, f) \<Longrightarrow> u64_at bs 64 = (if f then 1 else 0)"
    by (simp_all add: defs simps)
qed

lemma snapshot_mods:
  assumes "snapshot_ok s"
  shows "format_version s mod 2 ^ 16 = format_version s" "key_bytes (layout s) mod 2 ^ 16 = key_bytes (layout s)"
    "max_value_bytes (layout s) mod 2 ^ 16 = max_value_bytes (layout s)"
    "generation s mod 2 ^ 64 = generation s" "publication s mod 2 ^ 64 = publication s"
    "root s mod 2 ^ 64 = root s" "end_of s mod 2 ^ 64 = end_of s"
  using assms by (auto simp: snapshot_ok_def isam_consts)

lemma decode_root_page:
  assumes d: "digest_32 blake3" and ok: "snapshot_ok s" and m: "root_magic (format_version s) = Some magic"
    and slot: "slot = Some (publication s mod 2) \<and> w = None \<or>
      slot = None \<and> format_version s = PIPELINED_FORMAT_VERSION"
  shows "decode_snapshot blake3 (seal blake3 (root_page magic s w)) slot = Inr (Some s)"
proof -
  define bs where "bs = seal blake3 (root_page magic s w)"
  have len: "length magic = 8" using m by (rule length_root_magic)
  note slices = root_page_slices [OF d len bs_def, unfolded snapshot_mods [OF ok]]
  have cs: "checksum_valid blake3 bs"
    unfolding bs_def using d len by (intro checksum_valid_seal) simp_all
  have mg: "format_version s = FORMAT_VERSION \<and> magic = ISAM_MAGIC \<or>
      format_version s = PACKED_FORMAT_VERSION \<and> magic = ISAM_PACKED_MAGIC \<or>
      format_version s = PIPELINED_FORMAT_VERSION \<and> magic = ISAM_PIPELINED_MAGIC"
    using m by (auto simp: root_magic_def split: if_splits)
  have res: "\<not> list_ex (\<lambda>b. b \<noteq> 0) (sub_slice bs 14 16 @
      sub_slice bs (if format_version s = PIPELINED_FORMAT_VERSION then (if slot = None then 72 else 48) else 40)
        CHECKSUM_START)"
    using slot slices(5,10-12) by (auto simp: zeros_def list_ex_iff)
  have lay: "layout_new (key_bytes (layout s)) (max_value_bytes (layout s)) = Inr (layout s)"
    using ok by (simp add: snapshot_ok_def layout_new_def)
  have pub: "(if format_version s = PIPELINED_FORMAT_VERSION then u64_at bs 40 else generation s) = publication s"
    using ok slices(9) by (simp add: snapshot_ok_def)
  have bounds: "\<not> (generation s = 0 \<or> publication s = 0 \<or> publication s > generation s
      \<or> (case slot of None \<Rightarrow> False | Some k \<Rightarrow> publication s mod 2 \<noteq> k)
      \<or> end_of s < data_start (format_version s) \<or> end_of s mod PAGE_BYTES \<noteq> 0 \<or> end_of s > I64_MAX
      \<or> (root s \<noteq> 0 \<and> (root s < data_start (format_version s) \<or> root s \<ge> end_of s
                       \<or> root s mod PAGE_BYTES \<noteq> 0)))"
    using ok slot by (auto simp: snapshot_ok_def)
  have rec: "\<lparr>format_version = format_version s, layout = layout s, generation = generation s,
      publication = publication s, root = root s, end_of = end_of s\<rparr> = s"
    by simp
  have "decode_snapshot blake3 bs slot = Inr (Some s)"
    unfolding decode_snapshot_def Let_def slices(2) slices(1) slices(3,4) slices(6-8) pub lay sum.case rec
      if_not_P [OF bounds] if_not_P [OF res]
    using cs mg by simp
  then show ?thesis by (simp add: bs_def)
qed

lemma u64_at_less: "offset + 8 \<le> length bs \<Longrightarrow> u64_at bs offset < 2 ^ 64"
  using le_nat_less [of "sub_slice bs offset (offset + 8)"] by (simp add: u64_at_def)

lemma layout_new_Inr: "layout_new k v = Inr l \<Longrightarrow>
    1 \<le> k \<and> k \<le> 128 \<and> v \<le> 1024 \<and> key_bytes l = k \<and> max_value_bytes l = v"
  by (auto simp: layout_new_def split: if_splits)

lemma decode_snapshot_Inr:
  assumes "decode_snapshot blake3 bs slot = Inr (Some s)"
  obtains l where "layout_new (u16_at bs 10) (u16_at bs 12) = Inr l"
    "u16_at bs 8 \<in> {FORMAT_VERSION, PACKED_FORMAT_VERSION, PIPELINED_FORMAT_VERSION}"
    "s = \<lparr>format_version = u16_at bs 8, layout = l, generation = u64_at bs 16,
          publication = (if u16_at bs 8 = PIPELINED_FORMAT_VERSION then u64_at bs 40 else u64_at bs 16),
          root = u64_at bs 24, end_of = u64_at bs 32\<rparr>"
    "generation s \<noteq> 0" "publication s \<noteq> 0" "publication s \<le> generation s"
    "\<And>k. slot = Some k \<Longrightarrow> publication s mod 2 = k"
    "data_start (format_version s) \<le> end_of s" "end_of s mod PAGE_BYTES = 0" "end_of s \<le> I64_MAX"
    "root s \<noteq> 0 \<Longrightarrow> data_start (format_version s) \<le> root s \<and> root s < end_of s \<and> root s mod PAGE_BYTES = 0"
  using assms
  by (simp only: decode_snapshot_def Let_def split: if_split_asm sum.split_asm)
     (simp_all, (force split: option.splits)+)

lemma decode_snapshot_ok:
  assumes dec: "decode_snapshot blake3 bs slot = Inr (Some s)" and len: "length bs = PAGE_BYTES"
  shows "snapshot_ok s" "slot = Some k \<Longrightarrow> publication s mod 2 = k"
proof -
  show "slot = Some k \<Longrightarrow> publication s mod 2 = k"
    using dec by (elim decode_snapshot_Inr) auto
  have "u64_at bs 16 < 2 ^ 64" "u64_at bs 40 < 2 ^ 64"
    by (rule u64_at_less, simp add: len isam_consts)+
  then show "snapshot_ok s"
    using dec by (elim decode_snapshot_Inr) (auto simp: snapshot_ok_def dest!: layout_new_Inr)
qed

section \<open>Publishing a root\<close>

definition root_successor :: "Snapshot \<Rightarrow> Snapshot \<Rightarrow> bool" where
  "root_successor base next \<longleftrightarrow>
    layout next = layout base \<and> format_version next = format_version base
    \<and> publication next = Suc (publication base) \<and> generation base \<le> generation next
    \<and> end_of base \<le> end_of next
    \<and> (generation next = generation base \<longrightarrow>
        format_version next = PIPELINED_FORMAT_VERSION \<and> root next = root base \<and> end_of next = end_of base)"

lemma choose_root_cases: "choose_root A B = Inr s \<Longrightarrow> A = Some s \<or> B = Some s"
  by (auto simp: choose_root_def Let_def split: option.splits if_splits prod.splits)

lemma choose_root_successor:
  assumes "root_successor base next"
  shows "choose_root (Some next) (Some base) = Inr next" "choose_root (Some base) (Some next) = Inr next"
  using assms by (auto simp: choose_root_def root_successor_def Let_def)

lemma read_snapshot_Inr:
  assumes "read_snapshot blake3 f = Inr s"
  obtains A B where "\<not> io_fails f 0" "HEADER_BYTES \<le> length (file_bytes f)"
    "decode_snapshot blake3 (sub_slice (file_bytes f) 0 PAGE_BYTES) (Some 0) = Inr A"
    "decode_snapshot blake3 (sub_slice (file_bytes f) PAGE_BYTES HEADER_BYTES) (Some 1) = Inr B"
    "choose_root A B = Inr s"
proof -
  have "take PAGE_BYTES (sub_slice (file_bytes f) 0 HEADER_BYTES) = sub_slice (file_bytes f) 0 PAGE_BYTES"
    "drop PAGE_BYTES (sub_slice (file_bytes f) 0 HEADER_BYTES) = sub_slice (file_bytes f) PAGE_BYTES HEADER_BYTES"
    by (simp_all add: sub_slice_def isam_consts drop_take)
  then show thesis
    using assms that
    by (auto simp: read_snapshot_def read_exact_at_def result_simps split: if_splits sum.splits)
qed

lemma read_snapshot_I:
  assumes "\<not> io_fails f 0" "HEADER_BYTES \<le> length (file_bytes f)"
    "decode_snapshot blake3 (sub_slice (file_bytes f) 0 PAGE_BYTES) (Some 0) = Inr A"
    "decode_snapshot blake3 (sub_slice (file_bytes f) PAGE_BYTES HEADER_BYTES) (Some 1) = Inr B"
  shows "read_snapshot blake3 f = choose_root A B"
proof -
  have "take PAGE_BYTES (sub_slice (file_bytes f) 0 HEADER_BYTES) = sub_slice (file_bytes f) 0 PAGE_BYTES"
    "drop PAGE_BYTES (sub_slice (file_bytes f) 0 HEADER_BYTES) = sub_slice (file_bytes f) PAGE_BYTES HEADER_BYTES"
    by (simp_all add: sub_slice_def isam_consts drop_take)
  then show ?thesis
    using assms by (simp add: read_snapshot_def read_exact_at_def)
qed

text \<open>The current root is in the slot of its parity.\<close>

lemma current_slot:
  assumes "read_snapshot blake3 f = Inr s"
  shows "snapshot_ok s"
    "publication s mod 2 = 0 \<Longrightarrow>
      decode_snapshot blake3 (sub_slice (file_bytes f) 0 PAGE_BYTES) (Some 0) = Inr (Some s)"
    "publication s mod 2 = 1 \<Longrightarrow>
      decode_snapshot blake3 (sub_slice (file_bytes f) PAGE_BYTES HEADER_BYTES) (Some 1) = Inr (Some s)"
proof -
  obtain A B where len: "HEADER_BYTES \<le> length (file_bytes f)"
    and A: "decode_snapshot blake3 (sub_slice (file_bytes f) 0 PAGE_BYTES) (Some 0) = Inr A"
    and B: "decode_snapshot blake3 (sub_slice (file_bytes f) PAGE_BYTES HEADER_BYTES) (Some 1) = Inr B"
    and c: "choose_root A B = Inr s"
    using assms by (rule read_snapshot_Inr)
  have l: "length (sub_slice (file_bytes f) 0 PAGE_BYTES) = PAGE_BYTES"
    "length (sub_slice (file_bytes f) PAGE_BYTES HEADER_BYTES) = PAGE_BYTES"
    using len by (simp_all add: isam_consts)
  have pa: "A = Some s \<Longrightarrow> snapshot_ok s \<and> publication s mod 2 = 0"
    using A l(1) decode_snapshot_ok [of blake3 _ "Some 0" s] by blast
  have pb: "B = Some s \<Longrightarrow> snapshot_ok s \<and> publication s mod 2 = 1"
    using B l(2) decode_snapshot_ok [of blake3 _ "Some 1" s] by blast
  from c have "A = Some s \<or> B = Some s" by (rule choose_root_cases)
  with pa pb A B show "snapshot_ok s"
    "publication s mod 2 = 0 \<Longrightarrow>
      decode_snapshot blake3 (sub_slice (file_bytes f) 0 PAGE_BYTES) (Some 0) = Inr (Some s)"
    "publication s mod 2 = 1 \<Longrightarrow>
      decode_snapshot blake3 (sub_slice (file_bytes f) PAGE_BYTES HEADER_BYTES) (Some 1) = Inr (Some s)"
    by auto
qed

lemma write_slot_bytes:
  assumes "HEADER_BYTES \<le> length (file_bytes f)" "length page = PAGE_BYTES"
  shows "sub_slice (file_bytes (write_all_at f page 0)) 0 PAGE_BYTES = page"
    "sub_slice (file_bytes (write_all_at f page 0)) PAGE_BYTES HEADER_BYTES =
      sub_slice (file_bytes f) PAGE_BYTES HEADER_BYTES"
    "sub_slice (file_bytes (write_all_at f page PAGE_BYTES)) PAGE_BYTES HEADER_BYTES = page"
    "sub_slice (file_bytes (write_all_at f page PAGE_BYTES)) 0 PAGE_BYTES =
      sub_slice (file_bytes f) 0 PAGE_BYTES"
proof -
  have e: "extend_to (0 + length page) (file_bytes f) = file_bytes f"
    "extend_to (PAGE_BYTES + length page) (file_bytes f) = file_bytes f"
    using assms by (simp_all add: extend_to_def isam_consts)
  show "sub_slice (file_bytes (write_all_at f page 0)) 0 PAGE_BYTES = page"
    using assms sub_slice_copy_same [of 0 page "file_bytes f"] e
    by (simp add: write_all_at_def isam_consts)
  show "sub_slice (file_bytes (write_all_at f page 0)) PAGE_BYTES HEADER_BYTES =
      sub_slice (file_bytes f) PAGE_BYTES HEADER_BYTES"
    using assms sub_slice_copy_after [of 0 page PAGE_BYTES "file_bytes f"] e
    by (simp add: write_all_at_def isam_consts)
  show "sub_slice (file_bytes (write_all_at f page PAGE_BYTES)) PAGE_BYTES HEADER_BYTES = page"
    using assms sub_slice_copy_same [of PAGE_BYTES page "file_bytes f"] e
    by (simp add: write_all_at_def isam_consts)
  show "sub_slice (file_bytes (write_all_at f page PAGE_BYTES)) 0 PAGE_BYTES =
      sub_slice (file_bytes f) 0 PAGE_BYTES"
    using assms sub_slice_copy_before [of PAGE_BYTES PAGE_BYTES "file_bytes f" page 0] e
    by (simp add: write_all_at_def isam_consts)
qed

lemma publish_root:
  assumes d: "digest_32 blake3" and base: "read_snapshot blake3 f = Inr base"
    and ok: "snapshot_ok next" and suc: "root_successor base next"
  obtains f' where "write_snapshot blake3 f next = Inr f'" "read_snapshot blake3 f' = Inr next"
    "io_fails f' = io_fails f" "length (file_bytes f') = length (file_bytes f)"
    "\<And>p n. HEADER_BYTES \<le> p \<Longrightarrow> read_exact_at f' n p = read_exact_at f n p"
    "sub_slice (file_bytes f') 0 PAGE_BYTES = sub_slice (file_bytes f) 0 PAGE_BYTES
      \<or> sub_slice (file_bytes f') PAGE_BYTES HEADER_BYTES = sub_slice (file_bytes f) PAGE_BYTES HEADER_BYTES"
proof -
  obtain magic where m: "root_magic (format_version next) = Some magic"
    using root_magic_ok [OF ok] by blast
  define page where "page = seal blake3 (root_page magic next None)"
  define k where "k = publication next mod 2"
  have lp: "length page = PAGE_BYTES"
    using d length_root_magic [OF m] by (simp add: page_def)
  have dec: "decode_snapshot blake3 page (Some k) = Inr (Some next)"
    unfolding page_def k_def by (rule decode_root_page [OF d ok m]) simp
  have io: "\<not> io_fails f 0" and len: "HEADER_BYTES \<le> length (file_bytes f)"
    using base by (auto elim: read_snapshot_Inr)
  let ?f' = "write_all_at f page (k * PAGE_BYTES)"
  have w: "write_snapshot blake3 f next = Inr ?f'"
    using ok m by (auto simp: write_snapshot_def write_snapshot_at_def page_def k_def snapshot_ok_def)
  have k: "k = 0 \<or> k = 1" by (auto simp: k_def)
  have pub: "publication next = Suc (publication base)"
    using suc by (simp add: root_successor_def)
  have lf: "length (file_bytes ?f') = length (file_bytes f)"
    using k len lp by (auto simp: isam_consts)
  have r: "read_snapshot blake3 ?f' = Inr next"
  proof (cases "k = 0")
    case True
    then have "publication base mod 2 = 1"
      unfolding k_def pub by presburger
    then have "decode_snapshot blake3 (sub_slice (file_bytes f) PAGE_BYTES HEADER_BYTES) (Some 1) = Inr (Some base)"
      by (rule current_slot(3) [OF base])
    then have "read_snapshot blake3 ?f' = choose_root (Some next) (Some base)"
      using True dec io len lf write_slot_bytes [OF len lp] by (intro read_snapshot_I) simp_all
    then show ?thesis using choose_root_successor [OF suc] by simp
  next
    case False
    with k have k1: "k = 1" by simp
    then have "publication base mod 2 = 0"
      unfolding k_def pub by presburger
    then have "decode_snapshot blake3 (sub_slice (file_bytes f) 0 PAGE_BYTES) (Some 0) = Inr (Some base)"
      by (rule current_slot(2) [OF base])
    then have "read_snapshot blake3 ?f' = choose_root (Some base) (Some next)"
      using k1 dec io len lf write_slot_bytes [OF len lp] by (intro read_snapshot_I) simp_all
    then show ?thesis using choose_root_successor [OF suc] by simp
  qed
  have slot: "sub_slice (file_bytes ?f') 0 PAGE_BYTES = sub_slice (file_bytes f) 0 PAGE_BYTES
      \<or> sub_slice (file_bytes ?f') PAGE_BYTES HEADER_BYTES = sub_slice (file_bytes f) PAGE_BYTES HEADER_BYTES"
    using k write_slot_bytes [OF len lp] by auto
  have "read_exact_at ?f' n p = read_exact_at f n p" if p: "HEADER_BYTES \<le> p" for p n
  proof (cases "p + n \<le> length (file_bytes f)")
    case True
    then show ?thesis using k lp p by (intro read_write_other) (auto simp: isam_consts)
  next
    case False
    then show ?thesis using lf by (simp add: read_exact_at_def)
  qed
  with w r lf slot show thesis by (intro that) simp_all
qed

text \<open>C21: Publication of a root: after a successor of the current root is written to its slot,
  opening the file finds the new root, whatever the slot held before, and no byte past the
  two header pages changes, so every page of the previous root stays readable.\<close>

theorem isam_publish_root:
  assumes "digest_32 blake3" "read_snapshot blake3 f = Inr base"
    and "snapshot_ok next" "root_successor base next"
  shows "\<exists>f'. write_snapshot blake3 f next = Inr f' \<and> read_snapshot blake3 f' = Inr next
    \<and> length (file_bytes f') = length (file_bytes f)
    \<and> (\<forall>p n. HEADER_BYTES \<le> p \<longrightarrow> read_exact_at f' n p = read_exact_at f n p)"
  using publish_root [OF assms] by metis

section \<open>New files\<close>

text \<open>\<open>create_inner\<close>: the header of a new file, with the first root in slot 1 and slot 0 untouched.\<close>

definition initial_snapshot :: "nat \<Rightarrow> Layout \<Rightarrow> Snapshot" where
  "initial_snapshot version l =
    \<lparr>format_version = version, layout = l, generation = 1, publication = 1, root = 0,
     end_of = data_start version\<rparr>"

definition create_header :: "(bytes \<Rightarrow> bytes) \<Rightarrow> File \<Rightarrow> Layout \<Rightarrow> nat \<Rightarrow> IsamError + File" where
  "create_header blake3 file l version =
    and_then (write_snapshot blake3 (set_len file (data_start version)) (initial_snapshot version l)) (\<lambda>f.
    if version = PIPELINED_FORMAT_VERSION
    then write_working_snapshot blake3 f (initial_snapshot version l) else Inr f)"

text \<open>An untouched slot is recognised because zeros do not carry the digest of zeros.\<close>

definition zero_page_unsealed :: "(bytes \<Rightarrow> bytes) \<Rightarrow> bool" where
  "zero_page_unsealed blake3 \<longleftrightarrow> blake3 (zeros CHECKSUM_START) \<noteq> zeros 32"

lemma decode_zero_slot:
  "zero_page_unsealed blake3 \<Longrightarrow> decode_snapshot blake3 (zeros PAGE_BYTES) slot = Inr None"
  by (simp add: decode_snapshot_def checksum_valid_def zero_page_unsealed_def isam_consts
      list_all_iff zeros_def)

lemma snapshot_ok_initial:
  assumes "layout_new kb mv = Inr l" "root_magic version = Some magic"
  shows "snapshot_ok (initial_snapshot version l)"
  using assms by (auto simp: initial_snapshot_def snapshot_ok_def root_magic_def data_start_def isam_consts
      dest!: layout_new_Inr split: if_splits)

lemma read_snapshot_created:
  assumes d: "digest_32 blake3" "zero_page_unsealed blake3"
    and l: "layout_new kb mv = Inr l" and m: "root_magic version = Some magic"
    and v: "version \<noteq> PIPELINED_FORMAT_VERSION"
  shows "\<exists>f. create_header blake3 \<lparr>file_bytes = [], io_fails = \<lambda>_. False\<rparr> l version = Inr f
    \<and> read_snapshot blake3 f = Inr (initial_snapshot version l) \<and> length (file_bytes f) = HEADER_BYTES
    \<and> io_fails f = (\<lambda>_. False)"
proof -
  let ?s = "initial_snapshot version l"
  have ok: "snapshot_ok ?s" using l m by (rule snapshot_ok_initial)
  define f0 where "f0 = set_len \<lparr>file_bytes = [], io_fails = \<lambda>_. False\<rparr> (data_start version)"
  have z: "file_bytes f0 = zeros HEADER_BYTES"
    using v by (simp add: f0_def set_len_def extend_to_def data_start_def)
  define page where "page = seal blake3 (root_page magic ?s None)"
  have lp: "length page = PAGE_BYTES"
    using d length_root_magic [OF m] by (simp add: page_def)
  have len: "HEADER_BYTES \<le> length (file_bytes f0)" by (simp add: z)
  have c: "create_header blake3 \<lparr>file_bytes = [], io_fails = \<lambda>_. False\<rparr> l version =
      Inr (write_all_at f0 page PAGE_BYTES)"
    using v m by (simp add: create_header_def f0_def write_snapshot_def write_snapshot_at_def page_def
        initial_snapshot_def)
  have "read_snapshot blake3 (write_all_at f0 page PAGE_BYTES) = choose_root None (Some ?s)"
  proof (rule read_snapshot_I)
    show "decode_snapshot blake3 (sub_slice (file_bytes (write_all_at f0 page PAGE_BYTES)) 0 PAGE_BYTES) (Some 0) = Inr None"
      using write_slot_bytes(4) [OF len lp] decode_zero_slot [OF d(2)]
      by (simp add: z sub_slice_zeros isam_consts)
    have "decode_snapshot blake3 page (Some 1) = Inr (Some ?s)"
      unfolding page_def
      by (rule decode_root_page [OF d(1) ok]) (use m in \<open>simp_all add: initial_snapshot_def\<close>)
    then show "decode_snapshot blake3 (sub_slice (file_bytes (write_all_at f0 page PAGE_BYTES)) PAGE_BYTES HEADER_BYTES) (Some 1) = Inr (Some ?s)"
      using write_slot_bytes(3) [OF len lp] by simp
  qed (use len in \<open>simp_all add: f0_def set_len_def\<close>)
  then have "read_snapshot blake3 (write_all_at f0 page PAGE_BYTES) = Inr ?s"
    by (simp add: choose_root_def initial_snapshot_def)
  moreover have "length (file_bytes (write_all_at f0 page PAGE_BYTES)) = HEADER_BYTES"
    using lp by (simp add: z isam_consts)
  moreover have "io_fails (write_all_at f0 page PAGE_BYTES) = (\<lambda>_. False)" by (simp add: f0_def)
  ultimately show ?thesis using c by simp
qed

text \<open>A digest for the examples: 32 bytes that are not zero.\<close>

definition sample_digest :: "bytes \<Rightarrow> bytes" where
  "sample_digest input = replicate 32 1"

lemma sample_digest_ok: "digest_32 sample_digest" "zero_page_unsealed sample_digest"
  by (simp_all add: sample_digest_def digest_32_def zero_page_unsealed_def zeros_def)

text \<open>The second generation of a new file with 9-byte keys.\<close>

theorem isam_publish_root_witness:
  "\<exists>f f'. read_snapshot sample_digest f = Inr (initial_snapshot 2 \<lparr>key_bytes = 9, max_value_bytes = 768\<rparr>)
    \<and> write_snapshot sample_digest f
        \<lparr>format_version = 2, layout = \<lparr>key_bytes = 9, max_value_bytes = 768\<rparr>, generation = 2,
         publication = 2, root = 8192, end_of = 12288\<rparr> = Inr f'
    \<and> read_snapshot sample_digest f' = Inr
        \<lparr>format_version = 2, layout = \<lparr>key_bytes = 9, max_value_bytes = 768\<rparr>, generation = 2,
         publication = 2, root = 8192, end_of = 12288\<rparr>"
proof -
  let ?l = "\<lparr>key_bytes = 9, max_value_bytes = 768\<rparr>"
  have "layout_new 9 768 = Inr ?l" "root_magic 2 = Some ISAM_MAGIC" "2 \<noteq> PIPELINED_FORMAT_VERSION"
    by (simp_all add: layout_new_def root_magic_def isam_consts)
  then obtain f where f: "read_snapshot sample_digest f = Inr (initial_snapshot 2 ?l)"
    using read_snapshot_created [OF sample_digest_ok] by blast
  let ?n = "\<lparr>format_version = 2, layout = ?l, generation = 2, publication = 2, root = 8192, end_of = 12288\<rparr>"
  have "snapshot_ok ?n" "root_successor (initial_snapshot 2 ?l) ?n"
    by (simp_all add: snapshot_ok_def root_successor_def initial_snapshot_def data_start_def isam_consts)
  then show ?thesis
    using isam_publish_root [OF sample_digest_ok(1) f] f by blast
qed

end
