(* ===== verification/Isam_Tree.thy ===== *)
theory Isam_Tree
  imports Isam_Format Search
begin

text \<open>
  The copy-on-write B+ tree of the ISAM store (\<open>storage/isam/tree.rs\<close>): pages, the page
  cache of a read batch, lookup, range scan, verification, and the planning and writing of a
  batch of mutations.  Every operation that reads pages threads the optional cache and
  returns \<open>None\<close> where the source panics.  BLAKE3 is a parameter, as is \<open>node_bytes\<close>, the
  decoded size of a node, which depends on the capacities the allocator gives to vectors.
  Levels are at most \<open>MAX_LEVEL\<close> and entry counts fit a page, so they are natural numbers.
\<close>

section \<open>Types\<close>

record Record =
  rkey :: bytes
  rvalue :: bytes

datatype Mutation = Insert Record | Put Record | Delete bytes

fun mutation_key :: "Mutation \<Rightarrow> bytes" where
  "mutation_key (Insert r) = rkey r"
| "mutation_key (Put r) = rkey r"
| "mutation_key (Delete k) = k"

record Node =
  level :: nat
  entries :: "Record list"

text \<open>The hash map of the cache is an association list with distinct offsets.\<close>

record CachedPages =
  cpages :: "(nat \<times> Node) list"
  fifo :: "nat list"
  cbytes :: nat

datatype PageRef = Existing nat | New nat

datatype PlannedValue = Inline bytes | Child PageRef

record PlannedEntry =
  pkey :: bytes
  pvalue :: PlannedValue

record PlannedPage =
  plevel :: nat
  pentries :: "PlannedEntry list"

record BatchPlan =
  plan_pages :: "PlannedPage list"
  plan_root :: "PageRef option"

definition PREFIX :: nat where [isam_consts]: "PREFIX = 40"
definition MAX_LEVEL :: nat where [isam_consts]: "MAX_LEVEL = 31"
definition CACHE_PAGES :: nat where [isam_consts]: "CACHE_PAGES = 64"
definition CACHE_BYTES :: nat where [isam_consts]: "CACHE_BYTES = 256 * 1024"

text \<open>The bytes of \<open>"BRIPAGE1"\<close> and \<open>"BRIPAGE2"\<close>.\<close>

definition PAGE_MAGIC :: bytes where "PAGE_MAGIC = [66, 82, 73, 80, 65, 71, 69, 49]"
definition PAGE_PACKED_MAGIC :: bytes where "PAGE_PACKED_MAGIC = [66, 82, 73, 80, 65, 71, 69, 50]"

section \<open>Pages\<close>

definition stride :: "Layout \<Rightarrow> nat \<Rightarrow> nat" where
  "stride l lev = key_bytes l + (if lev = 0 then 2 + max_value_bytes l else 8)"

definition packed_leaf :: "Snapshot \<Rightarrow> nat \<Rightarrow> bool" where
  "packed_leaf snapshot lev \<longleftrightarrow>
    (format_version snapshot = PACKED_FORMAT_VERSION \<or> format_version snapshot = PIPELINED_FORMAT_VERSION)
    \<and> lev = 0"

definition page_magic :: "Snapshot \<Rightarrow> bytes" where
  "page_magic snapshot =
    (if format_version snapshot = PACKED_FORMAT_VERSION \<or> format_version snapshot = PIPELINED_FORMAT_VERSION
     then PAGE_PACKED_MAGIC else PAGE_MAGIC)"

definition capacity :: "Snapshot \<Rightarrow> nat \<Rightarrow> nat" where
  "capacity snapshot lev =
    (let minimum_width = (if packed_leaf snapshot lev then key_bytes (layout snapshot) + 2
                          else stride (layout snapshot) lev)
     in (CHECKSUM_START - PREFIX) div minimum_width)"

definition child_of :: "Record \<Rightarrow> nat" where
  "child_of entry = u64_at (rvalue entry) 0"

text \<open>The value of the entry at \<open>start\<close>, and where the entry ends.\<close>

definition read_value :: "Snapshot \<Rightarrow> nat \<Rightarrow> nat \<Rightarrow> bytes \<Rightarrow> nat \<Rightarrow> IsamError + (bytes \<times> nat)" where
  "read_value snapshot lev offset bs start =
    (let width = stride (layout snapshot) lev; body = start + key_bytes (layout snapshot) in
     if lev = 0 then
       let len = u16_at bs body;
           entry_end = (if packed_leaf snapshot lev then body + 2 + len else start + width) in
       if len > max_value_bytes (layout snapshot) \<or> entry_end > CHECKSUM_START
          \<or> list_ex (\<lambda>b. b \<noteq> 0) (sub_slice bs (body + 2 + len) entry_end)
       then Inl Corrupt
       else Inr (sub_slice bs (body + 2) (body + 2 + len), entry_end)
     else
       let pointer = u64_at bs body in
       if pointer < data_start (format_version snapshot) \<or> pointer \<ge> offset
          \<or> pointer mod PAGE_BYTES \<noteq> 0
       then Inl Corrupt
       else Inr (sub_slice bs body (body + 8), start + width))"

text \<open>The loop of \<open>read_node\<close> over the entries of a page: the records read, in order, and the
  position after the last one.  \<open>previous\<close> is the key of the entry before.\<close>

fun read_entries ::
    "Snapshot \<Rightarrow> nat \<Rightarrow> nat \<Rightarrow> bytes \<Rightarrow> nat \<Rightarrow> nat \<Rightarrow> bytes option \<Rightarrow> IsamError + (Record list \<times> nat)" where
  "read_entries snapshot lev offset bs 0 start previous = Inr ([], start)"
| "read_entries snapshot lev offset bs (Suc n) start previous =
    (let kb = key_bytes (layout snapshot);
         minimum_width = (if packed_leaf snapshot lev then kb + 2 else stride (layout snapshot) lev) in
     if start + minimum_width > CHECKSUM_START then Inl Corrupt
     else
       let k = sub_slice bs start (start + kb) in
       and_then (read_value snapshot lev offset bs start) (\<lambda>(v, entry_end).
         if (case previous of None \<Rightarrow> False | Some p \<Rightarrow> p \<ge> k) then Inl Corrupt
         else and_then (read_entries snapshot lev offset bs n entry_end (Some k))
           (\<lambda>(rest, final). Inr (\<lparr>rkey = k, rvalue = v\<rparr> # rest, final))))"

definition parse_page :: "(bytes \<Rightarrow> bytes) \<Rightarrow> Snapshot \<Rightarrow> nat \<Rightarrow> bytes \<Rightarrow> IsamError + Node" where
  "parse_page blake3 snapshot offset bs =
    (if \<not> checksum_valid blake3 bs \<or> sub_slice bs 0 8 \<noteq> page_magic snapshot \<or> u64_at bs 8 \<noteq> offset
     then Inl Corrupt
     else
       let gen = u64_at bs 16; lev = unat (bs ! 24); count = u16_at bs 26 in
       if lev > MAX_LEVEL \<or> gen = 0 \<or> gen > generation snapshot \<or> bs ! 25 \<noteq> 0
          \<or> list_ex (\<lambda>b. b \<noteq> 0) (sub_slice bs 28 PREFIX) \<or> count = 0 \<or> count > capacity snapshot lev
       then Inl Corrupt
       else and_then (read_entries snapshot lev offset bs count PREFIX None) (\<lambda>(es, final).
         if list_ex (\<lambda>b. b \<noteq> 0) (sub_slice bs final CHECKSUM_START) then Inl Corrupt
         else Inr \<lparr>level = lev, entries = es\<rparr>))"

definition read_node :: "(bytes \<Rightarrow> bytes) \<Rightarrow> File \<Rightarrow> Snapshot \<Rightarrow> nat \<Rightarrow> IsamError + Node" where
  "read_node blake3 file snapshot offset =
    (if offset < data_start (format_version snapshot) \<or> offset \<ge> end_of snapshot
        \<or> offset mod PAGE_BYTES \<noteq> 0 then Inl Corrupt
     else (case read_exact_at file PAGE_BYTES offset of
         Inl e \<Rightarrow> Inl (read_error e)
       | Inr bs \<Rightarrow> parse_page blake3 snapshot offset bs))"

section \<open>The page cache\<close>

text \<open>A step that may panic, fail, or return a result, with the cache it leaves behind.\<close>

type_synonym 'a Step = "((IsamError + 'a) \<times> CachedPages option) option"

definition bind_step :: "'a Step \<Rightarrow> ('a \<Rightarrow> CachedPages option \<Rightarrow> 'b Step) \<Rightarrow> 'b Step" where
  "bind_step m f =
    (case m of
       None \<Rightarrow> None
     | Some (Inl e, c) \<Rightarrow> Some (Inl e, c)
     | Some (Inr x, c) \<Rightarrow> f x c)"

lemma bind_step_cong [fundef_cong]:
  "m = m' \<Longrightarrow> (\<And>x c. m' = Some (Inr x, c) \<Longrightarrow> f x c = f' x c) \<Longrightarrow> bind_step m f = bind_step m' f'"
  by (auto simp: bind_step_def split: option.splits sum.splits)

text \<open>The eviction loop of \<open>cached_node\<close>, over the queue of cached offsets.\<close>

fun evict :: "(Node \<Rightarrow> nat) \<Rightarrow> nat \<Rightarrow> (nat \<times> Node) list \<Rightarrow> nat list \<Rightarrow> nat \<Rightarrow> CachedPages option" where
  "evict node_bytes needed ps queue held =
    (if length ps \<ge> CACHE_PAGES \<or> held + needed > CACHE_BYTES then
       (case queue of
          [] \<Rightarrow> None
        | victim # rest \<Rightarrow>
            (case map_of ps victim of
               None \<Rightarrow> None
             | Some removed \<Rightarrow>
                 if node_bytes removed > held then None
                 else evict node_bytes needed (filter (\<lambda>(k, _). k \<noteq> victim) ps) rest
                   (held - node_bytes removed)))
     else Some \<lparr>cpages = ps, fifo = queue, cbytes = held\<rparr>)"

declare evict.simps [simp del]

definition cached_node ::
    "(bytes \<Rightarrow> bytes) \<Rightarrow> (Node \<Rightarrow> nat) \<Rightarrow> File \<Rightarrow> Snapshot \<Rightarrow> nat \<Rightarrow> CachedPages option \<Rightarrow> Node Step" where
  "cached_node blake3 node_bytes file snapshot offset cache =
    (case (case cache of None \<Rightarrow> None | Some c \<Rightarrow> map_of (cpages c) offset) of
       Some node \<Rightarrow> Some (Inr node, cache)
     | None \<Rightarrow>
         (case read_node blake3 file snapshot offset of
            Inl e \<Rightarrow> Some (Inl e, cache)
          | Inr node \<Rightarrow>
              (case cache of
                 None \<Rightarrow> Some (Inr node, None)
               | Some c \<Rightarrow>
                   if node_bytes node \<le> CACHE_BYTES then
                     (case evict node_bytes (node_bytes node) (cpages c) (fifo c) (cbytes c) of
                        None \<Rightarrow> None
                      | Some c' \<Rightarrow> Some (Inr node, Some
                          \<lparr>cpages = (offset, node) # cpages c', fifo = fifo c' @ [offset],
                           cbytes = cbytes c' + node_bytes node\<rparr>))
                   else Some (Inr node, cache))))"

definition validate_root ::
    "(bytes \<Rightarrow> bytes) \<Rightarrow> (Node \<Rightarrow> nat) \<Rightarrow> File \<Rightarrow> Snapshot \<Rightarrow> CachedPages option \<Rightarrow> unit Step" where
  "validate_root blake3 node_bytes file snapshot cache =
    (if cache \<noteq> None then
       bind_step (cached_node blake3 node_bytes file snapshot (root snapshot) cache) (\<lambda>_ c. Some (Inr (), c))
     else Some (and_then (read_node blake3 file snapshot (root snapshot)) (\<lambda>_. Inr ()), cache))"

definition read_child ::
    "(bytes \<Rightarrow> bytes) \<Rightarrow> (Node \<Rightarrow> nat) \<Rightarrow> File \<Rightarrow> Snapshot \<Rightarrow> Node \<Rightarrow> nat \<Rightarrow> CachedPages option \<Rightarrow> Node Step" where
  "read_child blake3 node_bytes file snapshot parent index cache =
    (if \<not> index < length (entries parent) then None
     else let reference = entries parent ! index in
       bind_step (cached_node blake3 node_bytes file snapshot (child_of reference) cache) (\<lambda>node c.
         if entries node = [] then None
         else if level node + 1 \<noteq> level parent
              \<or> rkey (last (entries node)) \<noteq> rkey reference
              \<or> (index > 0 \<and> rkey (hd (entries node)) \<le> rkey (entries parent ! (index - 1)))
         then Some (Inl Corrupt, c)
         else Some (Inr node, c)))"

lemma read_child_level:
  "read_child blake3 node_bytes file snapshot parent index cache = Some (Inr node, c) \<Longrightarrow>
    level node < level parent"
  by (auto simp: read_child_def bind_step_def Let_def split: if_splits option.splits sum.splits)

section \<open>Lookup\<close>

function get_loop ::
    "(bytes \<Rightarrow> bytes) \<Rightarrow> (Node \<Rightarrow> nat) \<Rightarrow> File \<Rightarrow> Snapshot \<Rightarrow> bytes \<Rightarrow> Node \<Rightarrow> CachedPages option
      \<Rightarrow> bytes option Step" where
  "get_loop blake3 node_bytes file snapshot k node cache =
    (if level node \<noteq> 0 then
       let index = partition_point (\<lambda>r. rkey r < k) (entries node) in
       if index = length (entries node) then Some (Inr None, cache)
       else bind_step (read_child blake3 node_bytes file snapshot node index cache) (\<lambda>child c.
         get_loop blake3 node_bytes file snapshot k child c)
     else Some (Inr (case binary_search_by (\<lambda>r. cmp (rkey r) k) (entries node) of
         Inl _ \<Rightarrow> None
       | Inr i \<Rightarrow> Some (rvalue (entries node ! i))), cache))"
  by pat_completeness auto
termination
  by (relation "measure (\<lambda>(_, _, _, _, _, node, _). level node)") (auto dest: read_child_level)

declare get_loop.simps [simp del]

definition tree_get ::
    "(bytes \<Rightarrow> bytes) \<Rightarrow> (Node \<Rightarrow> nat) \<Rightarrow> File \<Rightarrow> Snapshot \<Rightarrow> bytes \<Rightarrow> CachedPages option
      \<Rightarrow> bytes option Step" where
  "tree_get blake3 node_bytes file snapshot k cache =
    (if root snapshot = 0 then Some (Inr None, cache)
     else bind_step (cached_node blake3 node_bytes file snapshot (root snapshot) cache) (\<lambda>node c.
       get_loop blake3 node_bytes file snapshot k node c))"

section \<open>Range scans\<close>

fun visit_leaf :: "bytes \<Rightarrow> bytes option \<Rightarrow> nat \<Rightarrow> Record list \<Rightarrow> Record list \<Rightarrow> Record list" where
  "visit_leaf start stop limit [] records = records"
| "visit_leaf start stop limit (e # es) records =
    (if (case stop of None \<Rightarrow> False | Some b \<Rightarrow> rkey e \<ge> b) \<or> length records = limit then records
     else visit_leaf start stop limit es (if rkey e \<ge> start then records @ [e] else records))"

function (sequential) visit ::
    "(bytes \<Rightarrow> bytes) \<Rightarrow> (Node \<Rightarrow> nat) \<Rightarrow> File \<Rightarrow> Snapshot \<Rightarrow> bytes \<Rightarrow> bytes option \<Rightarrow> nat \<Rightarrow> Node
      \<Rightarrow> Record list \<Rightarrow> CachedPages option \<Rightarrow> Record list Step"
  and visit_from ::
    "(bytes \<Rightarrow> bytes) \<Rightarrow> (Node \<Rightarrow> nat) \<Rightarrow> File \<Rightarrow> Snapshot \<Rightarrow> bytes \<Rightarrow> bytes option \<Rightarrow> nat \<Rightarrow> Node
      \<Rightarrow> nat \<Rightarrow> Record list \<Rightarrow> CachedPages option \<Rightarrow> Record list Step" where
  "visit blake3 node_bytes file snapshot start stop limit node records cache =
    (if level node = 0 then Some (Inr (visit_leaf start stop limit (entries node) records), cache)
     else visit_from blake3 node_bytes file snapshot start stop limit node 0 records cache)"
| "visit_from blake3 node_bytes file snapshot start stop limit node i records cache =
    (if \<not> i < length (entries node) then Some (Inr records, cache)
     else if length records = limit
       \<or> (i > 0 \<and> (case stop of None \<Rightarrow> False | Some b \<Rightarrow> rkey (entries node ! (i - 1)) \<ge> b))
     then Some (Inr records, cache)
     else if rkey (entries node ! i) \<ge> start then
       bind_step (read_child blake3 node_bytes file snapshot node i cache) (\<lambda>descendant c.
       bind_step (visit blake3 node_bytes file snapshot start stop limit descendant records c)
         (\<lambda>records' c'. visit_from blake3 node_bytes file snapshot start stop limit node (Suc i) records' c'))
     else visit_from blake3 node_bytes file snapshot start stop limit node (Suc i) records cache)"
  by pat_completeness auto
termination
  by (relation "inv_image (less_than <*lex*> less_than)
       (\<lambda>x. case x of
          Inl (_, _, _, _, _, _, _, node, _, _) \<Rightarrow> (level node, Suc (length (entries node)))
        | Inr (_, _, _, _, _, _, _, node, i, _, _) \<Rightarrow> (level node, length (entries node) - i))")
     (auto dest: read_child_level)

declare visit.simps [simp del] visit_from.simps [simp del]

definition tree_range ::
    "(bytes \<Rightarrow> bytes) \<Rightarrow> (Node \<Rightarrow> nat) \<Rightarrow> File \<Rightarrow> Snapshot \<Rightarrow> bytes \<Rightarrow> bytes option \<Rightarrow> nat
      \<Rightarrow> CachedPages option \<Rightarrow> Record list Step" where
  "tree_range blake3 node_bytes file snapshot start stop limit cache =
    (if root snapshot \<noteq> 0 \<and> limit \<noteq> 0 \<and> stop \<noteq> Some start then
       bind_step (cached_node blake3 node_bytes file snapshot (root snapshot) cache) (\<lambda>node c.
         visit blake3 node_bytes file snapshot start stop limit node [] c)
     else Some (Inr [], cache))"

section \<open>Verification\<close>

function (sequential) walk ::
    "(bytes \<Rightarrow> bytes) \<Rightarrow> (Node \<Rightarrow> nat) \<Rightarrow> File \<Rightarrow> Snapshot \<Rightarrow> Node \<Rightarrow> CachedPages option
      \<Rightarrow> (nat \<times> bytes) Step"
  and walk_from ::
    "(bytes \<Rightarrow> bytes) \<Rightarrow> (Node \<Rightarrow> nat) \<Rightarrow> File \<Rightarrow> Snapshot \<Rightarrow> Node \<Rightarrow> nat \<Rightarrow> nat \<Rightarrow> bytes
      \<Rightarrow> CachedPages option \<Rightarrow> (nat \<times> bytes) Step" where
  "walk blake3 node_bytes file snapshot node cache =
    (if level node = 0 then
       (case entries node of
          [] \<Rightarrow> None
        | e # _ \<Rightarrow> Some (Inr (length (entries node), rkey e), cache))
     else walk_from blake3 node_bytes file snapshot node 0 0 [] cache)"
| "walk_from blake3 node_bytes file snapshot node i held minimum cache =
    (if \<not> i < length (entries node) then Some (Inr (held, minimum), cache)
     else
       bind_step (read_child blake3 node_bytes file snapshot node i cache) (\<lambda>descendant c.
       bind_step (walk blake3 node_bytes file snapshot descendant c) (\<lambda>(count, lowest) c'.
         if i \<noteq> 0 \<and> lowest \<le> rkey (entries node ! (i - 1)) then Some (Inl Corrupt, c')
         else if held + count \<ge> 2 ^ 64 then Some (Inl Corrupt, c')
         else walk_from blake3 node_bytes file snapshot node (Suc i) (held + count)
           (if i = 0 then lowest else minimum) c')))"
  by pat_completeness auto
termination
  by (relation "inv_image (less_than <*lex*> less_than)
       (\<lambda>x. case x of
          Inl (_, _, _, _, node, _) \<Rightarrow> (level node, Suc (length (entries node)))
        | Inr (_, _, _, _, node, i, _, _, _) \<Rightarrow> (level node, length (entries node) - i))")
     (auto dest: read_child_level)

declare walk.simps [simp del] walk_from.simps [simp del]

definition tree_verify ::
    "(bytes \<Rightarrow> bytes) \<Rightarrow> (Node \<Rightarrow> nat) \<Rightarrow> File \<Rightarrow> Snapshot \<Rightarrow> (IsamError + nat) option" where
  "tree_verify blake3 node_bytes file snapshot =
    (if root snapshot = 0 then Some (Inr 0)
     else (case read_node blake3 file snapshot (root snapshot) of
         Inl e \<Rightarrow> Some (Inl e)
       | Inr node \<Rightarrow> map_option (\<lambda>(r, _). and_then r (\<lambda>(count, _). Inr count))
           (walk blake3 node_bytes file snapshot node None)))"

section \<open>Planning a batch\<close>

text \<open>The ordered map that holds the records of a leaf while mutations are applied.\<close>

fun btree_insert :: "bytes \<Rightarrow> bytes \<Rightarrow> (bytes \<times> bytes) list \<Rightarrow> (bytes \<times> bytes) list" where
  "btree_insert k v [] = [(k, v)]"
| "btree_insert k v ((k', v') # rest) =
    (if k < k' then (k, v) # (k', v') # rest
     else if k = k' then (k, v) # rest
     else (k', v') # btree_insert k v rest)"

definition btree_remove :: "bytes \<Rightarrow> (bytes \<times> bytes) list \<Rightarrow> (bytes \<times> bytes) list" where
  "btree_remove k records = filter (\<lambda>(k', _). k' \<noteq> k) records"

fun apply_mutations ::
    "Mutation list \<Rightarrow> (bytes \<times> bytes) list \<Rightarrow> IsamError + (bytes \<times> bytes) list" where
  "apply_mutations [] records = Inr records"
| "apply_mutations (Insert r # rest) records =
    (if map_of records (rkey r) \<noteq> None then Inl Duplicate
     else apply_mutations rest (btree_insert (rkey r) (rvalue r) records))"
| "apply_mutations (Put r # rest) records =
    apply_mutations rest (btree_insert (rkey r) (rvalue r) records)"
| "apply_mutations (Delete k # rest) records = apply_mutations rest (btree_remove k records)"

definition planned_width :: "Snapshot \<Rightarrow> nat \<Rightarrow> PlannedEntry \<Rightarrow> IsamError + nat" where
  "planned_width snapshot lev entry =
    (case pvalue entry of
       Inline v \<Rightarrow>
         if lev = 0 \<and> length v \<le> max_value_bytes (layout snapshot)
         then Inr (if packed_leaf snapshot lev then key_bytes (layout snapshot) + 2 + length v
                   else stride (layout snapshot) lev)
         else Inl Corrupt
     | Child _ \<Rightarrow> if lev \<noteq> 0 then Inr (stride (layout snapshot) lev) else Inl Corrupt)"

text \<open>The inner loop of \<open>emit_pages\<close>: the entries of the next page and those left over.\<close>

fun fill_page ::
    "Snapshot \<Rightarrow> nat \<Rightarrow> nat \<Rightarrow> PlannedEntry list \<Rightarrow> IsamError + (PlannedEntry list \<times> PlannedEntry list)" where
  "fill_page snapshot lev used [] = Inr ([], [])"
| "fill_page snapshot lev used (e # es) =
    and_then (planned_width snapshot lev e) (\<lambda>width.
      if used + width > CHECKSUM_START then Inr ([], e # es)
      else and_then (fill_page snapshot lev (used + width) es) (\<lambda>(chunk, rest). Inr (e # chunk, rest)))"

lemma fill_page_append:
  "fill_page snapshot lev used es = Inr (chunk, rest) \<Longrightarrow> es = chunk @ rest"
  by (induction es arbitrary: used chunk) (auto simp: result_simps split: if_splits)

function emit_pages ::
    "Snapshot \<Rightarrow> nat \<Rightarrow> PlannedEntry list \<Rightarrow> PlannedPage list
      \<Rightarrow> IsamError + (PlannedEntry list \<times> PlannedPage list)" where
  "emit_pages snapshot lev es ps =
    (if es = [] then Inr ([], ps)
     else and_then (fill_page snapshot lev PREFIX es) (\<lambda>(chunk, rest).
       if chunk = [] then Inl Invalid
       else and_then (emit_pages snapshot lev rest (ps @ [\<lparr>plevel = lev, pentries = chunk\<rparr>]))
         (\<lambda>(result, ps').
           Inr (\<lparr>pkey = pkey (last chunk), pvalue = Child (New (length ps))\<rparr> # result, ps'))))"
  by pat_completeness auto
termination
  by (relation "measure (\<lambda>(_, _, es, _). length es)") (auto dest: fill_page_append)

declare emit_pages.simps [simp del]

function (sequential) change_batch ::
    "(bytes \<Rightarrow> bytes) \<Rightarrow> (Node \<Rightarrow> nat) \<Rightarrow> File \<Rightarrow> Snapshot \<Rightarrow> Node \<Rightarrow> Mutation list \<Rightarrow> PlannedPage list
      \<Rightarrow> CachedPages option \<Rightarrow> (PlannedEntry list \<times> PlannedPage list) Step"
  and change_children ::
    "(bytes \<Rightarrow> bytes) \<Rightarrow> (Node \<Rightarrow> nat) \<Rightarrow> File \<Rightarrow> Snapshot \<Rightarrow> Node \<Rightarrow> nat \<Rightarrow> Mutation list \<Rightarrow> PlannedEntry list
      \<Rightarrow> PlannedPage list \<Rightarrow> CachedPages option \<Rightarrow> (PlannedEntry list \<times> PlannedPage list) Step" where
  "change_batch blake3 node_bytes file snapshot node ms ps cache =
    (if level node = 0 then
       Some (and_then (apply_mutations ms
           (fold (\<lambda>r records. btree_insert (rkey r) (rvalue r) records) (entries node) [])) (\<lambda>records.
         emit_pages snapshot 0 (map (\<lambda>(k, v). \<lparr>pkey = k, pvalue = Inline v\<rparr>) records) ps), cache)
     else
       bind_step (change_children blake3 node_bytes file snapshot node 0 ms [] ps cache)
         (\<lambda>(replacement, ps') c. Some (emit_pages snapshot (level node) replacement ps', c)))"
| "change_children blake3 node_bytes file snapshot node position ms replacement ps cache =
    (if \<not> position < length (entries node) then Some (Inr (replacement, ps), cache)
     else
       let count = (if position + 1 = length (entries node) then length ms
                    else partition_point (\<lambda>m. mutation_key m \<le> rkey (entries node ! position)) ms) in
       if count = 0 then
         change_children blake3 node_bytes file snapshot node (Suc position) ms
           (replacement @ [\<lparr>pkey = rkey (entries node ! position),
              pvalue = Child (Existing (child_of (entries node ! position)))\<rparr>]) ps cache
       else
         bind_step (read_child blake3 node_bytes file snapshot node position cache) (\<lambda>descendant c.
         bind_step (change_batch blake3 node_bytes file snapshot descendant (take count ms) ps c)
           (\<lambda>(result, ps') c'.
             change_children blake3 node_bytes file snapshot node (Suc position) (drop count ms)
               (replacement @ result) ps' c')))"
  by pat_completeness auto
termination
  by (relation "inv_image (less_than <*lex*> less_than)
       (\<lambda>x. case x of
          Inl (_, _, _, _, node, _, _, _) \<Rightarrow> (level node, Suc (length (entries node)))
        | Inr (_, _, _, _, node, position, _, _, _, _) \<Rightarrow> (level node, length (entries node) - position))")
     (auto dest: read_child_level)

declare change_batch.simps [simp del] change_children.simps [simp del]

text \<open>The loop that adds levels until one reference is left.  A level above \<open>MAX_LEVEL\<close> does
  not exist: \<open>read_node\<close> rejects it.\<close>

function grow_root ::
    "Snapshot \<Rightarrow> nat \<Rightarrow> PlannedEntry list \<Rightarrow> PlannedPage list
      \<Rightarrow> IsamError + (PlannedEntry list \<times> PlannedPage list)" where
  "grow_root snapshot lev changed ps =
    (if length changed > 1 then
       (if lev \<ge> MAX_LEVEL then Inl Invalid
        else and_then (emit_pages snapshot (lev + 1) changed ps) (\<lambda>(changed', ps').
          grow_root snapshot (lev + 1) changed' ps'))
     else Inr (changed, ps))"
  by pat_completeness auto
termination
  by (relation "measure (\<lambda>(_, lev, _, _). MAX_LEVEL - lev)") auto

declare grow_root.simps [simp del]

definition prepare_batch ::
    "(bytes \<Rightarrow> bytes) \<Rightarrow> (Node \<Rightarrow> nat) \<Rightarrow> File \<Rightarrow> Snapshot \<Rightarrow> Mutation list \<Rightarrow> CachedPages option
      \<Rightarrow> BatchPlan Step" where
  "prepare_batch blake3 node_bytes file snapshot ms cache =
    bind_step
      (if root snapshot = 0 then Some (Inr \<lparr>level = 0, entries = []\<rparr>, cache)
       else cached_node blake3 node_bytes file snapshot (root snapshot) cache) (\<lambda>node c.
    bind_step (change_batch blake3 node_bytes file snapshot node (sort_key mutation_key ms) [] c)
      (\<lambda>(changed, ps) c'.
        case grow_root snapshot (level node) changed ps of
          Inl e \<Rightarrow> Some (Inl e, c')
        | Inr (changed', ps') \<Rightarrow>
            (case changed' of
               [] \<Rightarrow> Some (Inr \<lparr>plan_pages = ps', plan_root = None\<rparr>, c')
             | e # _ \<Rightarrow>
                 (case pvalue e of
                    Child reference \<Rightarrow> Some (Inr \<lparr>plan_pages = ps', plan_root = Some reference\<rparr>, c')
                  | Inline _ \<Rightarrow> None))))"

section \<open>Writing a plan\<close>

fun put_entries ::
    "Snapshot \<Rightarrow> nat list \<Rightarrow> nat \<Rightarrow> nat \<Rightarrow> PlannedEntry list \<Rightarrow> bytes \<Rightarrow> IsamError + bytes" where
  "put_entries next offsets lev entry_start [] bs = Inr bs"
| "put_entries next offsets lev entry_start (e # es) bs =
    and_then (planned_width next lev e) (\<lambda>width.
      if entry_start + width > CHECKSUM_START \<or> length (pkey e) \<noteq> key_bytes (layout next) then Inl Corrupt
      else
        let b1 = copy_from_slice bs entry_start (pkey e); body = entry_start + key_bytes (layout next) in
        and_then
          (case pvalue e of
             Inline v \<Rightarrow>
               if lev = 0 then
                 Inr (copy_from_slice (copy_from_slice b1 body (le_bytes 2 (length v))) (body + 2) v)
               else Inl Corrupt
           | Child reference \<Rightarrow>
               if lev \<noteq> 0 then
                 and_then
                   (case reference of
                      Existing offset \<Rightarrow> Inr offset
                    | New page_id \<Rightarrow>
                        if page_id < length offsets then Inr (offsets ! page_id) else Inl Corrupt)
                   (\<lambda>child_offset. Inr (copy_from_slice b1 body (le_bytes 8 child_offset)))
               else Inl Corrupt)
          (\<lambda>b2. put_entries next offsets lev (entry_start + width) es b2))"

definition page_header :: "Snapshot \<Rightarrow> nat \<Rightarrow> PlannedPage \<Rightarrow> bytes" where
  "page_header next offset page =
    (let b1 = copy_from_slice (zeros PAGE_BYTES) 0 (page_magic next);
         b2 = copy_from_slice b1 8 (le_bytes 8 offset);
         b3 = copy_from_slice b2 16 (le_bytes 8 (generation next));
         b4 = b3[24 := word_of_nat (plevel page)]
     in copy_from_slice b4 26 (le_bytes 2 (length (pentries page))))"

text \<open>Pages are written one after the other; an error leaves the pages before it in the file.\<close>

fun write_pages ::
    "(bytes \<Rightarrow> bytes) \<Rightarrow> Snapshot \<Rightarrow> nat list \<Rightarrow> (nat \<times> PlannedPage) list \<Rightarrow> File \<Rightarrow> (IsamError + unit) \<times> File" where
  "write_pages blake3 next offsets [] file = (Inr (), file)"
| "write_pages blake3 next offsets ((offset, page) # rest) file =
    (case put_entries next offsets (plevel page) PREFIX (pentries page) (page_header next offset page) of
       Inl e \<Rightarrow> (Inl e, file)
     | Inr bs \<Rightarrow> write_pages blake3 next offsets rest (write_all_at file (seal blake3 bs) offset))"

definition write_plan ::
    "(bytes \<Rightarrow> bytes) \<Rightarrow> File \<Rightarrow> Snapshot \<Rightarrow> Snapshot \<Rightarrow> nat \<Rightarrow> BatchPlan \<Rightarrow> (IsamError + Snapshot) \<times> File" where
  "write_plan blake3 file base next start plan =
    (if plan_pages plan = [] then (Inr (next\<lparr>root := 0\<rparr>), file)
     else if start < end_of base \<or> start mod PAGE_BYTES \<noteq> 0 then (Inl Invalid, file)
     else if length (plan_pages plan) * PAGE_BYTES \<ge> 2 ^ 64 then (Inl Invalid, file)
     else
       let stop = start + length (plan_pages plan) * PAGE_BYTES in
       if stop \<ge> 2 ^ 64 \<or> stop > I64_MAX then (Inl Invalid, file)
       else
         let offsets = map (\<lambda>index. start + index * PAGE_BYTES) [0..<length (plan_pages plan)] in
         (case write_pages blake3 next offsets (zip offsets (plan_pages plan)) file of
            (Inl e, file') \<Rightarrow> (Inl e, file')
          | (Inr _, file') \<Rightarrow>
              (case plan_root plan of
                 None \<Rightarrow> (Inr (next\<lparr>root := 0, end_of := stop\<rparr>), file')
               | Some (Existing offset) \<Rightarrow> (Inr (next\<lparr>root := offset, end_of := stop\<rparr>), file')
               | Some (New page_id) \<Rightarrow>
                   if page_id < length offsets
                   then (Inr (next\<lparr>root := offsets ! page_id, end_of := stop\<rparr>), file')
                   else (Inl Corrupt, file'))))"

end
