(* ===== verification/Isam_Read.thy ===== *)
theory Isam_Read
  imports Isam_Tree
begin

text \<open>
  Reading the ISAM tree: the page cache is transparent, and on a file that holds a search tree
  lookup and range scan return what the records of the tree prescribe.  \<open>verify\<close> accepts
  exactly the files that hold such a tree, with its number of records.
\<close>

section \<open>The page cache is transparent and bounded\<close>

definition pages_ok ::
    "(bytes \<Rightarrow> bytes) \<Rightarrow> (Node \<Rightarrow> nat) \<Rightarrow> File \<Rightarrow> Snapshot \<Rightarrow> CachedPages \<Rightarrow> bool" where
  "pages_ok blake3 node_bytes file snapshot c \<longleftrightarrow>
    (\<forall>(offset, node) \<in> set (cpages c). read_node blake3 file snapshot offset = Inr node)
    \<and> distinct (map fst (cpages c)) \<and> distinct (fifo c) \<and> set (fifo c) = fst ` set (cpages c)
    \<and> cbytes c = sum_list (map (\<lambda>(_, node). node_bytes node) (cpages c))"

definition cache_ok ::
    "(bytes \<Rightarrow> bytes) \<Rightarrow> (Node \<Rightarrow> nat) \<Rightarrow> File \<Rightarrow> Snapshot \<Rightarrow> CachedPages option \<Rightarrow> bool" where
  "cache_ok blake3 node_bytes file snapshot cache \<longleftrightarrow>
    (case cache of
       None \<Rightarrow> True
     | Some c \<Rightarrow> pages_ok blake3 node_bytes file snapshot c
         \<and> length (cpages c) \<le> CACHE_PAGES \<and> length (fifo c) = length (cpages c) \<and> cbytes c \<le> CACHE_BYTES)"

lemma cache_ok_empty: "cache_ok blake3 node_bytes file snapshot (Some \<lparr>cpages = [], fifo = [], cbytes = 0\<rparr>)"
  by (simp add: cache_ok_def pages_ok_def)

lemma cache_ok_None [simp]: "cache_ok blake3 node_bytes file snapshot None"
  by (simp add: cache_ok_def)

lemma sum_list_remove:
  fixes f :: "'b \<Rightarrow> nat"
  assumes "distinct (map fst ps)" "map_of ps k = Some n"
  shows "sum_list (map (\<lambda>(_, x). f x) ps) =
    f n + sum_list (map (\<lambda>(_, x). f x) (filter (\<lambda>(j, _). j \<noteq> k) ps :: ('a \<times> 'b) list))" (is ?sum)
    and "length ps = Suc (length (filter (\<lambda>(j, _). j \<noteq> k) ps))" (is ?len)
proof -
  have "?sum \<and> ?len"
    using assms
  proof (induction ps)
    case (Cons p ps)
    obtain j x where p: "p = (j, x)" by force
    show ?case
    proof (cases "j = k")
      case True
      then have "filter (\<lambda>(j, _). j \<noteq> k) ps = ps"
        using Cons.prems p by (force simp: filter_id_conv)
      with True show ?thesis using Cons.prems p by simp
    next
      case False
      with Cons show ?thesis using p by simp
    qed
  qed simp
  then show ?sum ?len by simp_all
qed

lemma evict_correct:
  assumes "pages_ok blake3 node_bytes file snapshot \<lparr>cpages = ps, fifo = queue, cbytes = held\<rparr>"
    and "needed \<le> CACHE_BYTES"
  shows "\<exists>c. evict node_bytes needed ps queue held = Some c \<and> pages_ok blake3 node_bytes file snapshot c
    \<and> length (cpages c) < CACHE_PAGES \<and> cbytes c + needed \<le> CACHE_BYTES \<and> set (cpages c) \<subseteq> set ps"
  using assms(1)
proof (induction queue arbitrary: ps held)
  case Nil
  then have "ps = []" "held = 0" by (simp_all add: pages_ok_def)
  with Nil assms(2) show ?case by (simp add: evict.simps isam_consts)
next
  case (Cons v queue)
  show ?case
  proof (cases "length ps \<ge> CACHE_PAGES \<or> held + needed > CACHE_BYTES")
    case True
    have v: "v \<in> fst ` set ps" using Cons.prems by (auto simp: pages_ok_def)
    then obtain node where node: "map_of ps v = Some node"
      by (metis map_of_eq_None_iff option.exhaust)
    let ?ps = "filter (\<lambda>(k, _). k \<noteq> v) ps"
    have d: "distinct (map fst ps)" using Cons.prems by (simp add: pages_ok_def)
    have sum: "held = node_bytes node + sum_list (map (\<lambda>(_, n). node_bytes n) ?ps)"
      using Cons.prems sum_list_remove(1) [OF d node, of node_bytes] by (simp add: pages_ok_def)
    have "pages_ok blake3 node_bytes file snapshot
        \<lparr>cpages = ?ps, fifo = queue, cbytes = held - node_bytes node\<rparr>"
    proof -
      have "fst ` set ?ps = fst ` set ps - {v}" by force
      then show ?thesis
        using Cons.prems sum by (auto simp: pages_ok_def distinct_map_filter)
    qed
    from Cons.IH [OF this] obtain c where
      "evict node_bytes needed ?ps queue (held - node_bytes node) = Some c"
      "pages_ok blake3 node_bytes file snapshot c"
      "length (cpages c) < CACHE_PAGES" "cbytes c + needed \<le> CACHE_BYTES" "set (cpages c) \<subseteq> set ?ps"
      by blast
    moreover have "evict node_bytes needed ps (v # queue) held =
        evict node_bytes needed ?ps queue (held - node_bytes node)"
      using True node sum by (subst evict.simps) simp
    ultimately show ?thesis by auto
  next
    case False
    then show ?thesis
      using Cons.prems by (subst evict.simps) auto
  qed
qed

text \<open>\<open>runs m r\<close>: the step neither panics nor breaks the cache, and returns \<open>r\<close>.\<close>

definition runs ::
    "(bytes \<Rightarrow> bytes) \<Rightarrow> (Node \<Rightarrow> nat) \<Rightarrow> File \<Rightarrow> Snapshot \<Rightarrow> 'a Step \<Rightarrow> IsamError + 'a \<Rightarrow> bool" where
  "runs blake3 node_bytes file snapshot m r \<longleftrightarrow>
    (\<exists>c. m = Some (r, c) \<and> cache_ok blake3 node_bytes file snapshot c)"

lemma runs_return: "cache_ok h nb f s c \<Longrightarrow> runs h nb f s (Some (r, c)) r"
  by (simp add: runs_def)

lemma runs_bind:
  assumes "runs h nb f s m (Inr x)" "\<And>c. cache_ok h nb f s c \<Longrightarrow> runs h nb f s (g x c) r"
  shows "runs h nb f s (bind_step m g) r"
  using assms by (auto simp: runs_def bind_step_def)

lemma runs_bind_error:
  "runs h nb f s m (Inl e) \<Longrightarrow> runs h nb f s (bind_step m g) (Inl e)"
  by (auto simp: runs_def bind_step_def)

lemma cached_node_runs:
  assumes "cache_ok blake3 node_bytes file snapshot cache"
  shows "runs blake3 node_bytes file snapshot (cached_node blake3 node_bytes file snapshot offset cache)
    (read_node blake3 file snapshot offset)"
proof (cases cache)
  case None
  then show ?thesis
    by (auto simp: cached_node_def runs_def split: sum.split)
next
  case c: (Some c)
  show ?thesis
  proof (cases "map_of (cpages c) offset")
    case (Some node)
    then have "read_node blake3 file snapshot offset = Inr node"
      using assms c map_of_SomeD [OF Some] by (auto simp: cache_ok_def pages_ok_def)
    then show ?thesis using c Some assms by (simp add: cached_node_def runs_def)
  next
    case miss: None
    show ?thesis
    proof (cases "read_node blake3 file snapshot offset")
      case (Inl e)
      then show ?thesis using c miss assms by (simp add: cached_node_def runs_def)
    next
      case (Inr node)
      show ?thesis
      proof (cases "node_bytes node \<le> CACHE_BYTES")
        case True
        have "pages_ok blake3 node_bytes file snapshot \<lparr>cpages = cpages c, fifo = fifo c, cbytes = cbytes c\<rparr>"
          using assms c by (simp add: cache_ok_def pages_ok_def)
        from evict_correct [OF this True] obtain c' where c':
          "evict node_bytes (node_bytes node) (cpages c) (fifo c) (cbytes c) = Some c'"
          "pages_ok blake3 node_bytes file snapshot c'" "length (cpages c') < CACHE_PAGES"
          "cbytes c' + node_bytes node \<le> CACHE_BYTES" "set (cpages c') \<subseteq> set (cpages c)"
          by blast
        have fresh: "offset \<notin> fst ` set (cpages c')"
          using miss c'(5) by (auto simp: map_of_eq_None_iff)
        have "length (fifo c') = length (cpages c')"
          using c'(2) distinct_card [of "fifo c'"] distinct_card [of "map fst (cpages c')"]
          by (simp add: pages_ok_def)
        then have "cache_ok blake3 node_bytes file snapshot (Some
            \<lparr>cpages = (offset, node) # cpages c', fifo = fifo c' @ [offset],
             cbytes = cbytes c' + node_bytes node\<rparr>)"
          using c' fresh Inr by (auto simp: cache_ok_def pages_ok_def)
        then show ?thesis
          using c miss Inr True c'(1) by (auto simp: cached_node_def runs_def)
      next
        case False
        then show ?thesis using c miss Inr assms by (simp add: cached_node_def runs_def)
      qed
    qed
  qed
qed

text \<open>C20: The page cache of a read batch never changes what a read returns: a cached lookup
  returns what decoding the page returns, it never panics, and the cache keeps its bounds of 64
  pages and 256 KiB of decoded nodes, each page cached once and queued once.\<close>

theorem isam_cache_transparent:
  assumes "cache_ok blake3 node_bytes file snapshot cache"
  shows "\<exists>cache'. cached_node blake3 node_bytes file snapshot offset cache =
      Some (read_node blake3 file snapshot offset, cache')
    \<and> cache_ok blake3 node_bytes file snapshot cache'"
  using cached_node_runs [OF assms, of offset] by (simp add: runs_def)

section \<open>Trees\<close>

text \<open>\<open>tree rd n kvs\<close>: through the page reader \<open>rd\<close>, node \<open>n\<close> is the root of a search tree with
  the records \<open>kvs\<close> in key order.  \<open>forest rd l previous es kvs\<close>: the references \<open>es\<close> of a branch
  lead to trees of level \<open>l\<close> whose records, all above the key \<open>previous\<close>, are together \<open>kvs\<close>.\<close>

abbreviation kv :: "Record \<Rightarrow> bytes \<times> bytes" where
  "kv r \<equiv> (rkey r, rvalue r)"

definition above :: "bytes option \<Rightarrow> bytes \<Rightarrow> bool" where
  "above previous k \<longleftrightarrow> (case previous of None \<Rightarrow> True | Some p \<Rightarrow> p < k)"

inductive tree :: "(nat \<Rightarrow> IsamError + Node) \<Rightarrow> Node \<Rightarrow> (bytes \<times> bytes) list \<Rightarrow> bool"
  and forest :: "(nat \<Rightarrow> IsamError + Node) \<Rightarrow> nat \<Rightarrow> bytes option \<Rightarrow> Record list \<Rightarrow> (bytes \<times> bytes) list \<Rightarrow> bool"
  for rd where
  leaf: "level n = 0 \<Longrightarrow> entries n \<noteq> [] \<Longrightarrow> sorted_wrt (<) (map rkey (entries n))
    \<Longrightarrow> tree rd n (map kv (entries n))"
| branch: "level n = Suc l \<Longrightarrow> entries n \<noteq> [] \<Longrightarrow> forest rd l None (entries n) kvs \<Longrightarrow> tree rd n kvs"
| forest_Nil: "forest rd l previous [] []"
| forest_Cons: "rd (child_of e) = Inr m \<Longrightarrow> level m = l \<Longrightarrow> rkey (last (entries m)) = rkey e
    \<Longrightarrow> tree rd m ks \<Longrightarrow> above previous (fst (hd ks)) \<Longrightarrow> forest rd l (Some (rkey e)) es rest
    \<Longrightarrow> forest rd l previous (e # es) (ks @ rest)"

inductive_cases tree_leafE: "tree rd n kvs"
inductive_cases forest_NilE: "forest rd l previous [] kvs"
inductive_cases forest_ConsE: "forest rd l previous (e # es) kvs"

lemma above_trans: "above previous a \<Longrightarrow> a \<le> b \<Longrightarrow> above previous b"
  by (auto simp: above_def split: option.splits)

lemma sorted_wrt_hd_le:
  fixes xs :: "'a :: linorder list"
  shows "sorted_wrt (<) xs \<Longrightarrow> x \<in> set xs \<Longrightarrow> hd xs \<le> x"
  by (cases xs) auto

lemma sorted_wrt_le_last:
  fixes xs :: "'a :: linorder list"
  shows "sorted_wrt (<) xs \<Longrightarrow> x \<in> set xs \<Longrightarrow> x \<le> last xs"
  by (induction xs) (auto split: if_splits intro: less_imp_le)

lemma sorted_wrt_append_lists:
  fixes xs ys :: "'a :: linorder list"
  assumes "sorted_wrt (<) xs" "sorted_wrt (<) ys" "\<forall>y \<in> set ys. last xs < y"
  shows "sorted_wrt (<) (xs @ ys)"
  using assms sorted_wrt_le_last [OF assms(1)] by (auto simp: sorted_wrt_append intro: le_less_trans)

text \<open>Facts of a tree and of a forest.\<close>

lemma tree_forest_facts:
  "tree rd n kvs \<Longrightarrow>
    kvs \<noteq> [] \<and> sorted_wrt (<) (map fst kvs) \<and> entries n \<noteq> []
    \<and> fst (last kvs) = rkey (last (entries n)) \<and> fst (hd kvs) \<le> rkey (hd (entries n))
    \<and> sorted_wrt (<) (map rkey (entries n))"
  "forest rd l previous es kvs \<Longrightarrow>
    sorted_wrt (<) (map fst kvs) \<and> sorted_wrt (<) (map rkey es)
    \<and> (\<forall>k \<in> fst ` set kvs. above previous k) \<and> (\<forall>k \<in> rkey ` set es. above previous k)
    \<and> (es = [] \<longleftrightarrow> kvs = [])
    \<and> (es \<noteq> [] \<longrightarrow> fst (last kvs) = rkey (last es) \<and> fst (hd kvs) \<le> rkey (hd es))"
proof (induction rule: tree_forest.inducts)
  case (leaf n)
  then show ?case by (simp add: comp_def last_map hd_map)
next
  case (branch n l kvs)
  then show ?case by simp
next
  case (forest_Nil l previous)
  then show ?case by simp
next
  case (forest_Cons e m l ks previous es rest)
  have ks: "ks \<noteq> []" "sorted_wrt (<) (map fst ks)" "fst (last ks) = rkey e"
    using forest_Cons by simp_all
  have le: "k \<le> rkey e" "fst (hd ks) \<le> k" if "k \<in> fst ` set ks" for k
    using sorted_wrt_le_last [OF ks(2), of k] sorted_wrt_hd_le [OF ks(2), of k] ks that
    by (auto simp: last_map hd_map)
  have hd: "fst (hd ks) \<le> rkey e"
    using le(1) [of "fst (hd ks)"] ks(1) by simp
  have gt: "\<forall>k \<in> fst ` set rest. rkey e < k" "\<forall>k \<in> rkey ` set es. rkey e < k"
    using forest_Cons by (auto simp: above_def)
  have 1: "sorted_wrt (<) (map fst (ks @ rest))"
    using sorted_wrt_append_lists [of "map fst ks" "map fst rest"] ks gt forest_Cons
    by (auto simp: last_map)
  have 2: "above previous k" if "k \<in> fst ` set (ks @ rest)" for k
  proof -
    have "fst (hd ks) \<le> k"
      using that le(2) [of k] gt(1) hd by (auto intro: le_less_trans less_imp_le)
    then show ?thesis using forest_Cons above_trans by blast
  qed
  have 3: "above previous k" if "k \<in> rkey ` set (e # es)" for k
  proof -
    have "fst (hd ks) \<le> k"
      using that gt(2) hd by (auto intro: le_less_trans less_imp_le)
    then show ?thesis using forest_Cons above_trans by blast
  qed
  show ?case
    using 1 2 3 gt ks hd forest_Cons by (auto simp: last_append)
qed

lemmas tree_facts = tree_forest_facts(1)
lemmas forest_facts = tree_forest_facts(2)

lemma forest_split:
  assumes "forest rd l previous (pre @ e # post) kvs"
  obtains m kpre ks kpost where
    "kvs = kpre @ ks @ kpost" "forest rd l previous pre kpre" "rd (child_of e) = Inr m" "level m = l"
    "rkey (last (entries m)) = rkey e" "tree rd m ks"
    "above (if pre = [] then previous else Some (rkey (last pre))) (fst (hd ks))"
    "forest rd l (Some (rkey e)) post kpost"
  using assms
proof (induction pre arbitrary: previous kvs thesis)
  case Nil
  from Nil.prems(2) show ?case
    by (auto elim!: forest_ConsE intro!: Nil.prems(1) [of "[]"] forest_Nil)
next
  case (Cons p pre)
  from Cons.prems(2) obtain m ks rest where p: "kvs = ks @ rest" "rd (child_of p) = Inr m" "level m = l"
    "rkey (last (entries m)) = rkey p" "tree rd m ks" "above previous (fst (hd ks))"
    "forest rd l (Some (rkey p)) (pre @ e # post) rest"
    by (auto elim!: forest_ConsE)
  show ?case
  proof (rule Cons.IH [OF _ p(7)])
    fix m' kpre ks' kpost
    assume *: "rest = kpre @ ks' @ kpost" "forest rd l (Some (rkey p)) pre kpre" "rd (child_of e) = Inr m'"
      "level m' = l" "rkey (last (entries m')) = rkey e" "tree rd m' ks'"
      "above (if pre = [] then Some (rkey p) else Some (rkey (last pre))) (fst (hd ks'))"
      "forest rd l (Some (rkey e)) post kpost"
    show ?case
      by (rule Cons.prems(1) [of "ks @ kpre" ks' kpost m'])
         (use * p forest_Cons [OF p(2-6) *(2)] in \<open>auto split: if_splits\<close>)
  qed
qed

text \<open>A page of the file is read back as a child of its parent.\<close>

lemma read_child_runs:
  assumes c: "cache_ok h nb f s c" and es: "entries parent = pre @ e # post" and lev: "level parent = Suc l"
    and m: "read_node h f s (child_of e) = Inr m" "level m = l" "rkey (last (entries m)) = rkey e"
      "tree (read_node h f s) m ks"
      "above (if pre = [] then None else Some (rkey (last pre))) (fst (hd ks))"
  shows "runs h nb f s (read_child h nb f s parent (length pre) c) (Inr m)"
proof -
  have ks: "entries m \<noteq> []" "fst (hd ks) \<le> rkey (hd (entries m))"
    using tree_facts [OF m(4)] by simp_all
  have "entries parent ! (length pre - 1) = last pre" if "pre \<noteq> []"
    using that es by (simp add: nth_append last_conv_nth)
  then have ok: "\<not> (length pre > 0 \<and> rkey (hd (entries m)) \<le> rkey (entries parent ! (length pre - 1)))"
    using m(5) ks(2) by (auto simp: above_def)
  show ?thesis
    unfolding read_child_def using cached_node_runs [OF c, of "child_of e"] es ks lev m ok
    by (auto simp: Let_def m(1) intro!: runs_bind runs_return)
qed

section \<open>Lookup\<close>

lemma map_of_middle:
  assumes "\<forall>k' \<in> fst ` set xs. k' \<noteq> k" "\<forall>k' \<in> fst ` set zs. k' \<noteq> k"
  shows "map_of (xs @ ys @ zs) k = map_of ys k"
proof -
  have "map_of xs k = None" "map_of zs k = None" using assms by (auto simp: map_of_eq_None_iff)
  then show ?thesis by (auto simp: map_add_def split: option.split)
qed

lemma leaf_search:
  assumes "sorted_wrt (<) (map rkey es)"
  shows "(case binary_search_by (\<lambda>r. cmp (rkey r) k) es of Inl _ \<Rightarrow> None | Inr i \<Rightarrow> Some (rvalue (es ! i)))
    = map_of (map kv es) k"
proof (cases "binary_search_by (\<lambda>r. cmp (rkey r) k) es")
  case (Inl i)
  then have "\<forall>j < length es. rkey (es ! j) \<noteq> k"
    using binary_search_by_key_Inl [OF assms, of k i] unfolding binary_search_by_key_def
    by (metis less_irrefl not_le)
  then have "map_of (map kv es) k = None"
    by (auto simp: map_of_eq_None_iff in_set_conv_nth)
  with Inl show ?thesis by simp
next
  case (Inr i)
  then have i: "i < length es" "rkey (es ! i) = k"
    using binary_search_by_key_Inr [OF assms, of k i] unfolding binary_search_by_key_def by simp_all
  have "distinct (map fst (map kv es))"
    using assms strict_sorted_iff by (auto simp: comp_def)
  moreover have "(k, rvalue (es ! i)) \<in> set (map kv es)"
    using i by (force simp: in_set_conv_nth)
  ultimately have "map_of (map kv es) k = Some (rvalue (es ! i))"
    by simp
  with Inr show ?thesis by simp
qed

lemma sorted_keys_partitioned:
  assumes "sorted_wrt (<) (map rkey es)"
  shows "partitioned (\<lambda>r. rkey r < k) es" "partitioned (\<lambda>r. rkey r \<le> k) es"
  using assms unfolding partitioned_def sorted_wrt_map
  by (auto elim!: sorted_wrt_mono_rel [rotated])

lemma get_loop_runs:
  assumes "tree (read_node h f s) n kvs" "cache_ok h nb f s c"
  shows "runs h nb f s (get_loop h nb f s k n c) (Inr (map_of kvs k))"
  using assms
proof (induction "level n" arbitrary: n kvs c)
  case 0
  from 0(2) have "kvs = map kv (entries n)" "sorted_wrt (<) (map rkey (entries n))"
    using 0(1) by (auto elim: tree_leafE)
  then show ?case
    using 0 leaf_search [of "entries n" k]
    by (subst get_loop.simps) (simp add: runs_return)
next
  case (Suc l)
  from Suc.prems(1) Suc.hyps(2) have fr: "forest (read_node h f s) l None (entries n) kvs"
    and ne: "entries n \<noteq> []"
    by (auto elim: tree_leafE)
  note facts = forest_facts [OF fr]
  define index where "index = partition_point (\<lambda>r. rkey r < k) (entries n)"
  have index: "index = length (takeWhile (\<lambda>r. rkey r < k) (entries n))"
    unfolding index_def using facts by (intro partition_point_eq sorted_keys_partitioned) simp
  show ?case
  proof (cases "index = length (entries n)")
    case True
    then have "\<forall>r \<in> set (entries n). rkey r < k"
      using index by (metis takeWhile_eq_take take_all_iff order_refl set_takeWhileD)
    then have "fst (last kvs) < k" using facts ne by simp
    moreover have "k' \<le> fst (last kvs)" if "k' \<in> fst ` set kvs" for k'
      using sorted_wrt_le_last [of "map fst kvs" k'] facts ne that by (auto simp: last_map)
    ultimately have "map_of kvs k = None"
      by (auto simp: map_of_eq_None_iff dest: le_less_trans)
    then show ?thesis
      using True Suc.hyps(2) Suc.prems(2)
      by (subst get_loop.simps) (simp add: Let_def runs_return flip: index_def)
  next
    case False
    let ?pre = "take index (entries n)"
    have lt: "index < length (entries n)"
      using False index length_takeWhile_le [of "\<lambda>r. rkey r < k" "entries n"] by simp
    define e where "e = entries n ! index"
    define post where "post = drop (Suc index) (entries n)"
    have es: "entries n = ?pre @ e # post"
      unfolding e_def post_def using lt by (simp add: id_take_nth_drop [symmetric])
    have pre: "\<forall>r \<in> set ?pre. rkey r < k"
      using index by (metis set_takeWhileD takeWhile_eq_take)
    have "\<not> rkey e < k"
      using lt index nth_length_takeWhile [of "\<lambda>r. rkey r < k" "entries n"] by (simp add: e_def)
    obtain m kpre ks kpost where split: "kvs = kpre @ ks @ kpost"
      "forest (read_node h f s) l None ?pre kpre" "read_node h f s (child_of e) = Inr m" "level m = l"
      "rkey (last (entries m)) = rkey e" "tree (read_node h f s) m ks"
      "above (if ?pre = [] then None else Some (rkey (last ?pre))) (fst (hd ks))"
      "forest (read_node h f s) l (Some (rkey e)) post kpost"
      using fr es by (metis forest_split)
    have low: "k' < k" if "k' \<in> fst ` set kpre" for k'
    proof -
      have "?pre \<noteq> []" "kpre \<noteq> []" using forest_facts [OF split(2)] that by auto
      moreover have "k' \<le> fst (last kpre)"
        using sorted_wrt_le_last [of "map fst kpre" k'] forest_facts [OF split(2)] that \<open>kpre \<noteq> []\<close>
        by (auto simp: last_map)
      ultimately show ?thesis
        using forest_facts [OF split(2)] pre by (metis last_in_set le_less_trans)
    qed
    have high: "k < k'" if "k' \<in> fst ` set kpost" for k'
      using forest_facts [OF split(8)] that \<open>\<not> rkey e < k\<close> by (auto simp: above_def)
    have "map_of kvs k = map_of ks k"
      unfolding split(1) using low high by (intro map_of_middle) auto
    moreover have "runs h nb f s (read_child h nb f s n index c) (Inr m)"
      using read_child_runs [OF Suc.prems(2) es Suc.hyps(2) [symmetric] split(3-7)] lt by simp
    moreover have "runs h nb f s (get_loop h nb f s k m c') (Inr (map_of ks k))" if "cache_ok h nb f s c'" for c'
      using Suc.hyps(1) [of m] split(4,6) that by simp
    ultimately have "runs h nb f s (bind_step (read_child h nb f s n index c)
        (\<lambda>child c. get_loop h nb f s k child c)) (Inr (map_of kvs k))"
      by (auto intro: runs_bind)
    then show ?thesis
      using False Suc.hyps(2) by (subst get_loop.simps) (simp add: Let_def flip: index_def)
  qed
qed

section \<open>Range scans\<close>

definition in_range :: "bytes \<Rightarrow> bytes option \<Rightarrow> bytes \<Rightarrow> bool" where
  "in_range start stop k \<longleftrightarrow> start \<le> k \<and> (case stop of None \<Rightarrow> True | Some b \<Rightarrow> k < b)"

definition records_in :: "bytes \<Rightarrow> bytes option \<Rightarrow> (bytes \<times> bytes) list \<Rightarrow> Record list" where
  "records_in start stop kvs =
    map (\<lambda>(k, v). \<lparr>rkey = k, rvalue = v\<rparr>) (filter (\<lambda>(k, _). in_range start stop k) kvs)"

lemma records_in_simps [simp]:
  "records_in start stop [] = []"
  "records_in start stop (xs @ ys) = records_in start stop xs @ records_in start stop ys"
  by (simp_all add: records_in_def)

lemma records_in_none: "\<forall>k \<in> fst ` set kvs. \<not> in_range start stop k \<Longrightarrow> records_in start stop kvs = []"
  by (force simp: records_in_def filter_empty_conv)

lemma visit_leaf_eq:
  assumes "sorted_wrt (<) (map rkey es)" "length records \<le> limit"
  shows "visit_leaf start stop limit es records =
    records @ take (limit - length records) (records_in start stop (map kv es))"
  using assms
proof (induction es arbitrary: records)
  case (Cons e es)
  show ?case
  proof (cases "(case stop of None \<Rightarrow> False | Some b \<Rightarrow> rkey e \<ge> b) \<or> length records = limit")
    case True
    have "records_in start stop (map kv (e # es)) = []" if b: "stop = Some b" "b \<le> rkey e" for b
    proof (rule records_in_none)
      show "\<forall>k \<in> fst ` set (map kv (e # es)). \<not> in_range start stop k"
        using Cons.prems(1) b by (auto simp: in_range_def not_less intro: less_imp_le le_less_trans)
    qed
    with True show ?thesis by (auto split: option.splits)
  next
    case False
    let ?records = "if rkey e \<ge> start then records @ [e] else records"
    have "records_in start stop (map kv (e # es)) =
        (if rkey e \<ge> start then [e] else []) @ records_in start stop (map kv es)"
      using False by (auto simp: records_in_def in_range_def not_le split: option.splits)
    moreover have "length ?records \<le> limit" using False Cons.prems(2) by simp
    ultimately show ?thesis
      using False Cons.IH [of ?records] Cons.prems by (auto simp: Suc_diff_Suc take_Cons')
  qed
qed simp

lemma take_records:
  "length records \<le> limit \<Longrightarrow> r = records @ take (limit - length records) xs \<Longrightarrow>
    r @ take (limit - length r) ys = records @ take (limit - length records) (xs @ ys) \<and> length r \<le> limit"
  by (auto simp: min_def)

lemma visit_from_runs:
  assumes IH: "\<And>m ks records c. level m = l \<Longrightarrow> tree (read_node h f s) m ks \<Longrightarrow> length records \<le> limit
      \<Longrightarrow> cache_ok h nb f s c \<Longrightarrow> runs h nb f s (visit h nb f s start stop limit m records c)
        (Inr (records @ take (limit - length records) (records_in start stop ks)))"
    and "level n = Suc l" "entries n = pre @ es" "length records \<le> limit" "cache_ok h nb f s c"
    and "forest (read_node h f s) l (if pre = [] then None else Some (rkey (last pre))) es kvs"
  shows "runs h nb f s (visit_from h nb f s start stop limit n (length pre) records c)
    (Inr (records @ take (limit - length records) (records_in start stop kvs)))"
  using assms(2-)
proof (induction es arbitrary: pre records c kvs)
  case Nil
  then show ?case
    by (subst visit_from.simps) (auto elim!: forest_NilE simp: runs_return)
next
  case (Cons e es)
  let ?prev = "if pre = [] then None else Some (rkey (last pre))"
  from Cons.prems(5) obtain m ks rest where m: "kvs = ks @ rest" "read_node h f s (child_of e) = Inr m"
    "level m = l" "rkey (last (entries m)) = rkey e" "tree (read_node h f s) m ks"
    "above ?prev (fst (hd ks))" "forest (read_node h f s) l (Some (rkey e)) es rest"
    by (auto elim!: forest_ConsE)
  have last: "entries n ! (length pre - 1) = last pre" if "pre \<noteq> []"
    using that Cons.prems(2) by (simp add: nth_append last_conv_nth)
  have cur: "entries n ! length pre = e" "length pre < length (entries n)"
    using Cons.prems(2) by simp_all
  have next_prev: "forest (read_node h f s) l (if pre @ [e] = [] then None else Some (rkey (last (pre @ [e])))) es rest"
    using m(7) by simp
  consider (stop) "length records = limit \<or> (length pre > 0 \<and>
        (case stop of None \<Rightarrow> False | Some b \<Rightarrow> rkey (entries n ! (length pre - 1)) \<ge> b))"
    | (skip) "\<not> (length records = limit \<or> (length pre > 0 \<and>
        (case stop of None \<Rightarrow> False | Some b \<Rightarrow> rkey (entries n ! (length pre - 1)) \<ge> b)))" "\<not> rkey e \<ge> start"
    | (descend) "\<not> (length records = limit \<or> (length pre > 0 \<and>
        (case stop of None \<Rightarrow> False | Some b \<Rightarrow> rkey (entries n ! (length pre - 1)) \<ge> b)))" "rkey e \<ge> start"
    by blast
  then show ?case
  proof cases
    case stop
    have "records_in start stop kvs = []" if b: "stop = Some b" "pre \<noteq> []" "b \<le> rkey (last pre)" for b
    proof (rule records_in_none)
      show "\<forall>k \<in> fst ` set kvs. \<not> in_range start stop k"
        using forest_facts [OF Cons.prems(5)] b
        by (auto simp: in_range_def above_def not_less intro: less_imp_le le_less_trans)
    qed
    then have eq: "records @ take (limit - length records) (records_in start stop kvs) = records"
      using stop last by (auto split: option.splits)
    show ?thesis
      unfolding eq using stop cur Cons.prems(4) by (subst visit_from.simps) (simp add: runs_return)
  next
    case skip
    have "records_in start stop ks = []"
    proof (rule records_in_none)
      have "k \<le> rkey e" if "k \<in> fst ` set ks" for k
        using sorted_wrt_le_last [of "map fst ks" k] tree_facts [OF m(5)] m(4) that by (auto simp: last_map)
      then show "\<forall>k \<in> fst ` set ks. \<not> in_range start stop k"
        using skip(2) by (auto simp: in_range_def dest: order_trans)
    qed
    moreover have "runs h nb f s (visit_from h nb f s start stop limit n (length (pre @ [e])) records c)
        (Inr (records @ take (limit - length records) (records_in start stop rest)))"
      by (rule Cons.IH) (use Cons.prems next_prev in auto)
    ultimately show ?thesis
      using skip cur m(1) by (subst visit_from.simps) auto
  next
    case descend
    define records' where "records' = records @ take (limit - length records) (records_in start stop ks)"
    note step = take_records [OF Cons.prems(3) records'_def, of "records_in start stop rest"]
    have "runs h nb f s (visit_from h nb f s start stop limit n (length (pre @ [e])) records' c')
        (Inr (records' @ take (limit - length records') (records_in start stop rest)))"
      if "cache_ok h nb f s c'" for c'
      by (rule Cons.IH) (use Cons.prems next_prev step that in auto)
    then have "runs h nb f s (visit_from h nb f s start stop limit n (Suc (length pre)) records' c')
        (Inr (records @ take (limit - length records) (records_in start stop kvs)))"
      if "cache_ok h nb f s c'" for c'
      using that step m(1) by simp
    moreover have "runs h nb f s (visit h nb f s start stop limit m records c') (Inr records')"
      if "cache_ok h nb f s c'" for c'
      unfolding records'_def by (rule IH [OF m(3,5) Cons.prems(3) that])
    moreover have "runs h nb f s (read_child h nb f s n (length pre) c) (Inr m)"
      using read_child_runs [OF Cons.prems(4,2,1) m(2-6)] .
    ultimately have "runs h nb f s (bind_step (read_child h nb f s n (length pre) c) (\<lambda>descendant c.
         bind_step (visit h nb f s start stop limit descendant records c)
           (\<lambda>records' c'. visit_from h nb f s start stop limit n (Suc (length pre)) records' c')))
        (Inr (records @ take (limit - length records) (records_in start stop kvs)))"
      by (auto intro!: runs_bind)
    then show ?thesis
      using descend cur by (subst visit_from.simps) auto
  qed
qed

lemma visit_runs:
  assumes "tree (read_node h f s) n kvs" "length records \<le> limit" "cache_ok h nb f s c"
  shows "runs h nb f s (visit h nb f s start stop limit n records c)
    (Inr (records @ take (limit - length records) (records_in start stop kvs)))"
  using assms
proof (induction "level n" arbitrary: n kvs records c)
  case 0
  from 0(2) have "kvs = map kv (entries n)" "sorted_wrt (<) (map rkey (entries n))"
    using 0(1) by (auto elim: tree_leafE)
  then show ?case
    using 0 visit_leaf_eq [of "entries n" records limit start stop]
    by (subst visit.simps) (simp add: runs_return)
next
  case (Suc l)
  from Suc.prems(1) Suc.hyps(2) have fr: "forest (read_node h f s) l None (entries n) kvs"
    by (auto elim: tree_leafE)
  have "runs h nb f s (visit_from h nb f s start stop limit n (length ([] :: Record list)) records c)
    (Inr (records @ take (limit - length records) (records_in start stop kvs)))"
  proof (rule visit_from_runs [where l = l and es = "entries n"])
    show "runs h nb f s (visit h nb f s start stop limit m records c)
        (Inr (records @ take (limit - length records) (records_in start stop ks)))"
      if "level m = l" "tree (read_node h f s) m ks" "length records \<le> limit" "cache_ok h nb f s c"
      for m ks records c
      using Suc.hyps(1) [of m] that by simp
  qed (use Suc fr in auto)
  then show ?case
    using Suc.hyps(2) by (subst visit.simps) simp
qed

section \<open>Verification\<close>

text \<open>A page that decodes has entries with strictly increasing keys.\<close>

lemma read_entries_sorted:
  "read_entries snapshot lev offset bs n start previous = Inr (es, final) \<Longrightarrow>
    length es = n \<and> sorted_wrt (<) (map rkey es) \<and> (\<forall>e \<in> set es. above previous (rkey e))"
proof (induction n arbitrary: start previous es final)
  case (Suc n)
  from Suc.prems obtain k v entry_end rest where
    r: "read_entries snapshot lev offset bs n entry_end (Some k) = Inr (rest, final)"
    "es = \<lparr>rkey = k, rvalue = v\<rparr> # rest" "above previous k"
    by (auto simp: result_simps Let_def above_def not_le split: if_splits option.splits)
  from Suc.IH [OF r(1)] show ?case
    using r(2,3) by (auto simp: above_def split: option.splits)
qed simp

lemma read_node_sane:
  assumes "read_node h f s offset = Inr n"
  shows "entries n \<noteq> []" "sorted_wrt (<) (map rkey (entries n))" "level n \<le> MAX_LEVEL"
proof -
  obtain bs where p: "parse_page h s offset bs = Inr n"
    using assms by (auto simp: read_node_def split: if_splits sum.splits)
  then obtain final where "u16_at bs 26 \<noteq> 0"
    "read_entries s (unat (bs ! 24)) offset bs (u16_at bs 26) PREFIX None = Inr (entries n, final)"
    and lev: "level n = unat (bs ! 24)" "unat (bs ! 24) \<le> MAX_LEVEL"
    by (auto simp: parse_page_def Let_def result_simps split: if_splits)
  with read_entries_sorted show "entries n \<noteq> []" "sorted_wrt (<) (map rkey (entries n))"
    by fastforce+
  show "level n \<le> MAX_LEVEL" using lev by simp
qed

lemma walk_from_runs:
  assumes IH: "\<And>m ks c. level m = l \<Longrightarrow> tree (read_node h f s) m ks \<Longrightarrow> length ks < 2 ^ 64
      \<Longrightarrow> cache_ok h nb f s c \<Longrightarrow> runs h nb f s (walk h nb f s m c) (Inr (length ks, fst (hd ks)))"
    and "level n = Suc l" "entries n = pre @ es" "cache_ok h nb f s c" "held + length kvs < 2 ^ 64"
    and "forest (read_node h f s) l (if pre = [] then None else Some (rkey (last pre))) es kvs"
  shows "runs h nb f s (walk_from h nb f s n (length pre) held minimum c)
    (Inr (held + length kvs, if pre = [] \<and> es \<noteq> [] then fst (hd kvs) else minimum))"
  using assms(2-)
proof (induction es arbitrary: pre c kvs held minimum)
  case Nil
  then show ?case
    by (subst walk_from.simps) (auto elim!: forest_NilE simp: runs_return)
next
  case (Cons e es)
  let ?prev = "if pre = [] then None else Some (rkey (last pre))"
  from Cons.prems(5) obtain m ks rest where m: "kvs = ks @ rest" "read_node h f s (child_of e) = Inr m"
    "level m = l" "rkey (last (entries m)) = rkey e" "tree (read_node h f s) m ks"
    "above ?prev (fst (hd ks))" "forest (read_node h f s) l (Some (rkey e)) es rest"
    by (auto elim!: forest_ConsE)
  have last: "entries n ! (length pre - 1) = last pre" if "pre \<noteq> []"
    using that Cons.prems(2) by (simp add: nth_append last_conv_nth)
  then have low: "\<not> (length pre \<noteq> 0 \<and> fst (hd ks) \<le> rkey (entries n ! (length pre - 1)))"
    using m(6) by (auto simp: above_def)
  have small: "\<not> held + length ks \<ge> 2 ^ 64" using Cons.prems(4) m(1) by simp
  have ks: "ks \<noteq> []" using tree_facts [OF m(5)] by simp
  let ?min = "if length pre = 0 then fst (hd ks) else minimum"
  have res: "(held + length kvs, if pre = [] \<and> e # es \<noteq> [] then fst (hd kvs) else minimum) =
      ((held + length ks) + length rest, if pre @ [e] = [] \<and> es \<noteq> [] then fst (hd rest) else ?min)"
    using m(1) ks by simp
  have rest: "runs h nb f s (walk_from h nb f s n (length (pre @ [e])) (held + length ks) ?min c')
      (Inr ((held + length ks) + length rest, if pre @ [e] = [] \<and> es \<noteq> [] then fst (hd rest) else ?min))"
    if "cache_ok h nb f s c'" for c'
    by (rule Cons.IH) (use Cons.prems m that in auto)
  have "runs h nb f s (bind_step (read_child h nb f s n (length pre) c) (\<lambda>descendant c.
       bind_step (walk h nb f s descendant c) (\<lambda>(count, lowest) c'.
         if length pre \<noteq> 0 \<and> lowest \<le> rkey (entries n ! (length pre - 1)) then Some (Inl Corrupt, c')
         else if held + count \<ge> 2 ^ 64 then Some (Inl Corrupt, c')
         else walk_from h nb f s n (Suc (length pre)) (held + count)
           (if length pre = 0 then lowest else minimum) c')))
      (Inr (held + length kvs, if pre = [] \<and> e # es \<noteq> [] then fst (hd kvs) else minimum))"
  proof (rule runs_bind [OF read_child_runs [OF Cons.prems(3,2,1) m(2-6)]], rule runs_bind)
    show "runs h nb f s (walk h nb f s m c') (Inr (length ks, fst (hd ks)))" if "cache_ok h nb f s c'" for c'
      using IH [OF m(3,5) _ that] Cons.prems(4) m(1) by simp
  qed (unfold res, use rest low small in auto)
  then show ?case
    using Cons.prems(2) by (subst walk_from.simps) simp
qed

lemma walk_runs:
  assumes "tree (read_node h f s) n kvs" "length kvs < 2 ^ 64" "cache_ok h nb f s c"
  shows "runs h nb f s (walk h nb f s n c) (Inr (length kvs, fst (hd kvs)))"
  using assms
proof (induction "level n" arbitrary: n kvs c)
  case 0
  from 0(2) have "kvs = map kv (entries n)" "entries n \<noteq> []"
    using 0(1) by (auto elim: tree_leafE)
  then show ?case
    using 0 by (subst walk.simps) (auto simp: runs_return split: list.splits)
next
  case (Suc l)
  from Suc.prems(1) Suc.hyps(2) have fr: "forest (read_node h f s) l None (entries n) kvs" "entries n \<noteq> []"
    by (auto elim: tree_leafE)
  have "runs h nb f s (walk_from h nb f s n (length ([] :: Record list)) 0 [] c)
    (Inr (0 + length kvs, if ([] :: Record list) = [] \<and> entries n \<noteq> [] then fst (hd kvs) else []))"
  proof (rule walk_from_runs [where l = l])
    show "runs h nb f s (walk h nb f s m c) (Inr (length ks, fst (hd ks)))"
      if "level m = l" "tree (read_node h f s) m ks" "length ks < 2 ^ 64" "cache_ok h nb f s c" for m ks c
      using Suc.hyps(1) [of m] that by simp
  qed (use Suc fr in auto)
  then show ?case
    using Suc.hyps(2) fr(2) by (subst walk.simps) simp
qed

text \<open>Conversely, what the walk accepts is a tree.\<close>

lemma read_child_Inr:
  assumes "cache_ok h nb f s c" "read_child h nb f s parent i c = Some (Inr m, c')"
  shows "i < length (entries parent)" "read_node h f s (child_of (entries parent ! i)) = Inr m"
    "Suc (level m) = level parent" "rkey (last (entries m)) = rkey (entries parent ! i)" "cache_ok h nb f s c'"
  using assms cached_node_runs [OF assms(1), of "child_of (entries parent ! i)"]
  by (auto simp: read_child_def runs_def Let_def bind_step_def split: if_splits sum.splits)

lemma walk_sound:
  "cache_ok h nb f s c \<Longrightarrow> walk h nb f s n c = Some (Inr (count, lowest), c')
    \<Longrightarrow> entries n \<noteq> [] \<Longrightarrow> sorted_wrt (<) (map rkey (entries n))
    \<Longrightarrow> cache_ok h nb f s c' \<and> (\<exists>kvs. tree (read_node h f s) n kvs \<and> count = length kvs \<and> lowest = fst (hd kvs))"
  "cache_ok h nb f s c \<Longrightarrow> walk_from h nb f s n i held minimum c = Some (Inr (count, lowest), c')
    \<Longrightarrow> level n = Suc l \<Longrightarrow>
    cache_ok h nb f s c' \<and> (\<exists>kvs. forest (read_node h f s) l (if i = 0 then None else Some (rkey (entries n ! (i - 1))))
        (drop i (entries n)) kvs \<and> count = held + length kvs
      \<and> lowest = (if i = 0 \<and> entries n \<noteq> [] then fst (hd kvs) else minimum))"
proof (induction h nb f s n c and h nb f s n i held minimum c arbitrary: count lowest c' and count lowest c' l rule: walk_walk_from.induct)
  case (1 h nb f s n c)
  show ?case
  proof (cases "level n")
    case 0
    then show ?thesis
      using 1(2-) leaf [of n "read_node h f s"] by (auto simp: walk.simps split: list.splits)
  next
    case (Suc l)
    then have "walk_from h nb f s n 0 0 [] c = Some (Inr (count, lowest), c')"
      using 1(3) by (simp add: walk.simps)
    from 1(1) [OF _ 1(2) this Suc] Suc obtain kvs where
      "cache_ok h nb f s c'" "forest (read_node h f s) l None (entries n) kvs" "count = length kvs"
      "lowest = fst (hd kvs)"
      using 1(4) by auto
    with branch [OF Suc 1(4)] show ?thesis by blast
  qed
next
  case (2 h nb f s n i held minimum c)
  show ?case
  proof (cases "i < length (entries n)")
    case False
    then show ?thesis
      using 2(3-) by (auto simp: walk_from.simps intro!: forest_Nil exI [of _ "[]"])
  next
    case True
    let ?e = "entries n ! i"
    from 2(4) True obtain m c1 cnt mn c2 where
      m: "read_child h nb f s n i c = Some (Inr m, c1)"
      and w: "walk h nb f s m c1 = Some (Inr (cnt, mn), c2)"
      and low: "\<not> (i \<noteq> 0 \<and> mn \<le> rkey (entries n ! (i - 1)))" and small: "\<not> held + cnt \<ge> 2 ^ 64"
      and rest: "walk_from h nb f s n (Suc i) (held + cnt) (if i = 0 then mn else minimum) c2 =
        Some (Inr (count, lowest), c')"
      by (subst (asm) walk_from.simps)
         (auto simp: bind_step_def split: option.splits sum.splits if_splits)
    note child = read_child_Inr [OF 2(3) m]
    note sane = read_node_sane [OF child(2)]
    from 2(1) [OF _ m child(5) w sane(1,2)] True obtain ks where
      c2: "cache_ok h nb f s c2" and ks: "tree (read_node h f s) m ks" "cnt = length ks" "mn = fst (hd ks)"
      by auto
    have ne: "\<not> \<not> i < length (entries n)" using True by simp
    have "cache_ok h nb f s c' \<and> (\<exists>kvs. forest (read_node h f s) l (Some (rkey ?e)) (drop (Suc i) (entries n)) kvs
        \<and> count = held + cnt + length kvs \<and> lowest = (if i = 0 then mn else minimum))"
      using 2(2) [OF ne m w refl _ _ c2 rest 2(5)] low small by simp
    then obtain kvs where kvs: "cache_ok h nb f s c'"
      "forest (read_node h f s) l (Some (rkey ?e)) (drop (Suc i) (entries n)) kvs"
      "count = held + cnt + length kvs" "lowest = (if i = 0 then mn else minimum)"
      by blast
    have "forest (read_node h f s) l (if i = 0 then None else Some (rkey (entries n ! (i - 1))))
        (?e # drop (Suc i) (entries n)) (ks @ kvs)"
      by (rule forest_Cons [OF child(2) _ child(4) ks(1) _ kvs(2)])
         (use child(3) 2(5) low ks(3) in \<open>auto simp: above_def not_le\<close>)
    moreover have "?e # drop (Suc i) (entries n) = drop i (entries n)"
      using True by (rule Cons_nth_drop_Suc)
    moreover have "ks \<noteq> []" using tree_facts [OF ks(1)] by simp
    ultimately show ?thesis
      using kvs ks True by (auto intro!: exI [of _ "ks @ kvs"])
  qed
qed

section \<open>The records of a snapshot\<close>

definition stored :: "(bytes \<Rightarrow> bytes) \<Rightarrow> File \<Rightarrow> Snapshot \<Rightarrow> (bytes \<times> bytes) list \<Rightarrow> bool" where
  "stored blake3 file snapshot kvs \<longleftrightarrow>
    (if root snapshot = 0 then kvs = []
     else \<exists>node. read_node blake3 file snapshot (root snapshot) = Inr node
       \<and> tree (read_node blake3 file snapshot) node kvs)"

lemma tree_get_runs:
  assumes "stored blake3 file snapshot kvs" "cache_ok blake3 node_bytes file snapshot cache"
  shows "runs blake3 node_bytes file snapshot (tree_get blake3 node_bytes file snapshot k cache)
    (Inr (map_of kvs k))"
proof (cases "root snapshot = 0")
  case False
  with assms(1) obtain node where n: "read_node blake3 file snapshot (root snapshot) = Inr node"
    "tree (read_node blake3 file snapshot) node kvs"
    by (auto simp: stored_def)
  have "runs blake3 node_bytes file snapshot
      (bind_step (cached_node blake3 node_bytes file snapshot (root snapshot) cache) (\<lambda>node c.
       get_loop blake3 node_bytes file snapshot k node c)) (Inr (map_of kvs k))"
    using cached_node_runs [OF assms(2), of "root snapshot"] get_loop_runs [OF n(2)] n(1)
    by (auto intro: runs_bind)
  with False show ?thesis by (simp add: tree_get_def)
qed (use assms in \<open>simp add: tree_get_def stored_def runs_def\<close>)

lemma tree_range_runs:
  assumes "stored blake3 file snapshot kvs" "cache_ok blake3 node_bytes file snapshot cache"
  shows "runs blake3 node_bytes file snapshot (tree_range blake3 node_bytes file snapshot start stop limit cache)
    (Inr (take limit (records_in start stop kvs)))"
proof (cases "root snapshot \<noteq> 0 \<and> limit \<noteq> 0 \<and> stop \<noteq> Some start")
  case True
  with assms(1) obtain node where n: "read_node blake3 file snapshot (root snapshot) = Inr node"
    "tree (read_node blake3 file snapshot) node kvs"
    by (auto simp: stored_def)
  have "runs blake3 node_bytes file snapshot
      (visit blake3 node_bytes file snapshot start stop limit node [] c)
      (Inr (take limit (records_in start stop kvs)))" if "cache_ok blake3 node_bytes file snapshot c" for c
    using visit_runs [OF n(2), of "[]" limit] that by simp
  then have "runs blake3 node_bytes file snapshot
      (bind_step (cached_node blake3 node_bytes file snapshot (root snapshot) cache) (\<lambda>node c.
       visit blake3 node_bytes file snapshot start stop limit node [] c))
      (Inr (take limit (records_in start stop kvs)))"
    using cached_node_runs [OF assms(2), of "root snapshot"] n(1) by (auto intro: runs_bind)
  with True show ?thesis by (simp add: tree_range_def)
next
  case False
  then have "take limit (records_in start stop kvs) = []"
    using assms(1) by (auto simp: stored_def records_in_def in_range_def filter_empty_conv not_less)
  with False assms(2) show ?thesis by (simp only: tree_range_def if_False) (simp add: runs_def)
qed

text \<open>C17: A lookup in a snapshot finds exactly the record with the key, if there is one, and
  neither fails nor panics.\<close>

theorem isam_get_correct:
  assumes "stored blake3 file snapshot kvs" "cache_ok blake3 node_bytes file snapshot cache"
  shows "\<exists>cache'. tree_get blake3 node_bytes file snapshot k cache = Some (Inr (map_of kvs k), cache')
    \<and> cache_ok blake3 node_bytes file snapshot cache'"
  using tree_get_runs [OF assms] by (simp add: runs_def)

text \<open>C18: A range scan returns, in key order, the first records of the half-open range up to the
  limit, all of them when the limit is not reached.\<close>

theorem isam_range_correct:
  assumes "stored blake3 file snapshot kvs" "cache_ok blake3 node_bytes file snapshot cache"
  shows "\<exists>cache'. tree_range blake3 node_bytes file snapshot start stop limit cache =
      Some (Inr (take limit (records_in start stop kvs)), cache')
    \<and> cache_ok blake3 node_bytes file snapshot cache'"
  using tree_range_runs [OF assms] by (simp add: runs_def)

text \<open>C19: The diagnostic traversal is exact: it reports \<open>n\<close> records if and only if the file holds
  a search tree with \<open>n\<close> records, every parent and child ordering boundary included.\<close>

theorem isam_verify_exact:
  assumes "n < 2 ^ 64"
  shows "tree_verify blake3 node_bytes file snapshot = Some (Inr n) \<longleftrightarrow>
    (\<exists>kvs. stored blake3 file snapshot kvs \<and> length kvs = n)"
proof (cases "root snapshot = 0")
  case False
  show ?thesis
  proof
    assume v: "tree_verify blake3 node_bytes file snapshot = Some (Inr n)"
    with False obtain node lowest c where n: "read_node blake3 file snapshot (root snapshot) = Inr node"
      and w: "walk blake3 node_bytes file snapshot node None = Some (Inr (n, lowest), c)"
      by (auto simp: tree_verify_def result_simps split: sum.splits)
    from walk_sound(1) [OF cache_ok_None w read_node_sane(1,2) [OF n]]
    show "\<exists>kvs. stored blake3 file snapshot kvs \<and> length kvs = n"
      using False n by (auto simp: stored_def)
  next
    assume "\<exists>kvs. stored blake3 file snapshot kvs \<and> length kvs = n"
    with False obtain node kvs where n: "read_node blake3 file snapshot (root snapshot) = Inr node"
      "tree (read_node blake3 file snapshot) node kvs" "length kvs = n"
      by (auto simp: stored_def)
    from walk_runs [OF n(2) _ cache_ok_None] assms n(3)
    obtain c where "walk blake3 node_bytes file snapshot node None = Some (Inr (n, fst (hd kvs)), c)"
      by (auto simp: runs_def)
    with False n(1) show "tree_verify blake3 node_bytes file snapshot = Some (Inr n)"
      by (simp add: tree_verify_def)
  qed
qed (auto simp: tree_verify_def stored_def)

end
