(* ===== verification/Isam_Page.thy ===== *)
theory Isam_Page
  imports Isam_Read
begin

text \<open>The page codec of \<^verbatim>\<open>storage/isam/tree.rs\<close>: the bytes that \<open>write_plan\<close> puts on a page
  for the entries of a planned page, and that \<open>parse_page\<close> of this page in every later snapshot
  gives the node back.\<close>

section \<open>Pages round-trip\<close>

text \<open>The offset a planned reference stands for, and the record it becomes on the page.\<close>

fun ref_offset :: "nat list \<Rightarrow> PageRef \<Rightarrow> nat" where
  "ref_offset offsets (Existing offset) = offset"
| "ref_offset offsets (New i) = offsets ! i"

fun planned_bytes :: "nat list \<Rightarrow> PlannedValue \<Rightarrow> bytes" where
  "planned_bytes offsets (Inline v) = v"
| "planned_bytes offsets (Child r) = le_bytes 8 (ref_offset offsets r)"

definition resolve :: "nat list \<Rightarrow> PlannedEntry \<Rightarrow> Record" where
  "resolve offsets e = \<lparr>rkey = pkey e, rvalue = planned_bytes offsets (pvalue e)\<rparr>"

definition node_of :: "nat list \<Rightarrow> PlannedPage \<Rightarrow> Node" where
  "node_of offsets page = \<lparr>level = plevel page, entries = map (resolve offsets) (pentries page)\<rparr>"

text \<open>What the planner guarantees of page \<open>i\<close>: it fits, its keys are increasing and have the
  width of the layout, and its references lead to pages of the file or to earlier pages of the plan.\<close>

definition entry_width :: "Snapshot \<Rightarrow> PlannedEntry \<Rightarrow> nat" where
  "entry_width s e =
    (case pvalue e of
       Inline v \<Rightarrow> if packed_leaf s 0 then key_bytes (layout s) + 2 + length v else stride (layout s) 0
     | Child _ \<Rightarrow> key_bytes (layout s) + 8)"

definition entry_ok :: "(nat \<Rightarrow> IsamError + Node) \<Rightarrow> Snapshot \<Rightarrow> nat \<Rightarrow> nat \<Rightarrow> PlannedEntry \<Rightarrow> bool" where
  "entry_ok rd s i lev e \<longleftrightarrow> length (pkey e) = key_bytes (layout s) \<and>
    (case pvalue e of
       Inline v \<Rightarrow> lev = 0 \<and> length v \<le> max_value_bytes (layout s)
     | Child (Existing offset) \<Rightarrow> lev \<noteq> 0 \<and> (\<exists>m. rd offset = Inr m)
     | Child (New j) \<Rightarrow> lev \<noteq> 0 \<and> j < i)"

definition page_ok :: "(nat \<Rightarrow> IsamError + Node) \<Rightarrow> Snapshot \<Rightarrow> nat \<Rightarrow> PlannedPage \<Rightarrow> bool" where
  "page_ok rd s i p \<longleftrightarrow> pentries p \<noteq> [] \<and> plevel p \<le> MAX_LEVEL
    \<and> sorted_wrt (<) (map pkey (pentries p)) \<and> (\<forall>e \<in> set (pentries p). entry_ok rd s i (plevel p) e)
    \<and> PREFIX + sum_list (map (entry_width s) (pentries p)) \<le> CHECKSUM_START"

lemma planned_width_eq:
  "entry_ok rd s i lev e \<Longrightarrow> planned_width s lev e = Inr (entry_width s e)"
  by (auto simp: entry_ok_def planned_width_def entry_width_def stride_def packed_leaf_def
      split: PlannedValue.splits PageRef.splits)

text \<open>The bytes of an entry.\<close>

definition entry_bytes :: "Snapshot \<Rightarrow> nat list \<Rightarrow> PlannedEntry \<Rightarrow> bytes" where
  "entry_bytes s offsets e = pkey e @
    (case pvalue e of
       Inline v \<Rightarrow> le_bytes 2 (length v) @ v @
         zeros (if packed_leaf s 0 then 0 else max_value_bytes (layout s) - length v)
     | Child r \<Rightarrow> le_bytes 8 (ref_offset offsets r))"

lemma length_entry_bytes:
  "entry_ok rd s i lev e \<Longrightarrow> length (entry_bytes s offsets e) = entry_width s e"
  by (auto simp: entry_ok_def entry_bytes_def entry_width_def stride_def split: PlannedValue.splits)

lemma put_entry:
  assumes ok: "entry_ok rd s i lev e" and i: "i \<le> length offsets"
    and len: "length xs = start" and fits: "start + entry_width s e \<le> CHECKSUM_START" "entry_width s e \<le> n"
  shows "put_entries s offsets lev start (e # es) (xs @ zeros n) =
    put_entries s offsets lev (start + entry_width s e) es
      ((xs @ entry_bytes s offsets e) @ zeros (n - entry_width s e))"
proof -
  have kl: "length (pkey e) = key_bytes (layout s)" using ok by (simp add: entry_ok_def)
  have w: "planned_width s lev e = Inr (entry_width s e)" using ok by (rule planned_width_eq)
  show ?thesis
  proof (cases "pvalue e")
    case (Inline v)
    let ?kb = "key_bytes (layout s)"
    have lev: "lev = 0" "length v \<le> max_value_bytes (layout s)" using ok Inline by (simp_all add: entry_ok_def)
    have wd: "?kb + 2 + length v + (if packed_leaf s 0 then 0 else max_value_bytes (layout s) - length v) = entry_width s e"
      using Inline lev by (simp add: entry_width_def stride_def)
    have k: "copy_from_slice (xs @ zeros n) start (pkey e) = (xs @ pkey e) @ zeros (n - ?kb)"
      by (rule fill_next) (use len kl wd fits in auto)
    have l: "copy_from_slice ((xs @ pkey e) @ zeros (n - ?kb)) (start + ?kb) (le_bytes 2 (length v)) =
        ((xs @ pkey e) @ le_bytes 2 (length v)) @ zeros (n - ?kb - 2)"
      by (rule fill_next) (use len kl wd fits in auto)
    have v: "copy_from_slice (((xs @ pkey e) @ le_bytes 2 (length v)) @ zeros (n - ?kb - 2)) (start + ?kb + 2) v =
        (((xs @ pkey e) @ le_bytes 2 (length v)) @ v) @ zeros (n - ?kb - 2 - length v)"
      by (rule fill_next) (use len kl wd fits in auto)
    have z: "zeros (n - ?kb - 2 - length v) =
        zeros (if packed_leaf s 0 then 0 else max_value_bytes (layout s) - length v) @ zeros (n - entry_width s e)"
      unfolding zeros_add using wd fits by (intro arg_cong [of _ _ zeros]) simp
    show ?thesis
      unfolding put_entries.simps w and_then.simps Let_def k Inline PlannedValue.case l v
      using fits kl lev z by (simp add: entry_bytes_def Inline)
  next
    case (Child r)
    let ?kb = "key_bytes (layout s)"
    have lev: "lev \<noteq> 0" using ok Child by (auto simp: entry_ok_def split: PageRef.splits)
    have wd: "entry_width s e = ?kb + 8" using Child by (simp add: entry_width_def)
    have r: "(case r of Existing offset \<Rightarrow> Inr offset
        | New page_id \<Rightarrow> if page_id < length offsets then Inr (offsets ! page_id) else Inl Corrupt) =
        Inr (ref_offset offsets r)"
      using ok Child i by (auto simp: entry_ok_def split: PageRef.splits)
    have k: "copy_from_slice (xs @ zeros n) start (pkey e) = (xs @ pkey e) @ zeros (n - ?kb)"
      by (rule fill_next) (use len kl wd fits in auto)
    have p: "copy_from_slice ((xs @ pkey e) @ zeros (n - ?kb)) (start + ?kb) (le_bytes 8 (ref_offset offsets r)) =
        ((xs @ pkey e) @ le_bytes 8 (ref_offset offsets r)) @ zeros (n - ?kb - 8)"
      by (rule fill_next) (use len kl wd fits in auto)
    show ?thesis
      unfolding put_entries.simps w and_then.simps Let_def k Child PlannedValue.case r p
      using fits kl lev wd by (simp add: entry_bytes_def Child)
  qed
qed

lemma put_entries_eq:
  assumes "\<forall>e \<in> set es. entry_ok rd s i lev e" "i \<le> length offsets" "length xs = start"
    "start + sum_list (map (entry_width s) es) \<le> CHECKSUM_START" "sum_list (map (entry_width s) es) \<le> n"
  shows "put_entries s offsets lev start es (xs @ zeros n) =
    Inr (xs @ concat (map (entry_bytes s offsets) es) @ zeros (n - sum_list (map (entry_width s) es)))"
  using assms
proof (induction es arbitrary: xs start n)
  case (Cons e es)
  have "put_entries s offsets lev start (e # es) (xs @ zeros n) =
      put_entries s offsets lev (start + entry_width s e) es
        ((xs @ entry_bytes s offsets e) @ zeros (n - entry_width s e))"
    by (rule put_entry) (use Cons.prems in auto)
  also have "\<dots> = Inr ((xs @ entry_bytes s offsets e) @ concat (map (entry_bytes s offsets) es)
      @ zeros (n - entry_width s e - sum_list (map (entry_width s) es)))"
    by (rule Cons.IH) (use Cons.prems in \<open>auto simp: length_entry_bytes\<close>)
  finally show ?case by simp
qed simp

lemma sub_slice_Cons [slice_simps]: "0 < a \<Longrightarrow> sub_slice (x # xs) a b = sub_slice xs (a - 1) (b - 1)"
  by (cases a; cases b) (simp_all add: sub_slice_def)

definition pointer_ok :: "Snapshot \<Rightarrow> nat \<Rightarrow> nat \<Rightarrow> bool" where
  "pointer_ok s offset p \<longleftrightarrow> data_start (format_version s) \<le> p \<and> p < offset \<and> p mod PAGE_BYTES = 0"

definition refs_ok :: "Snapshot \<Rightarrow> nat list \<Rightarrow> nat \<Rightarrow> PlannedEntry list \<Rightarrow> bool" where
  "refs_ok s offsets offset es \<longleftrightarrow>
    (\<forall>e \<in> set es. \<forall>r. pvalue e = Child r \<longrightarrow> pointer_ok s offset (ref_offset offsets r))"

lemma read_entry:
  assumes ok: "entry_ok rd s i lev e" and lay: "max_value_bytes (layout s) \<le> 1024"
    and off: "offset < 2 ^ 64" and refs: "refs_ok s offsets offset [e]"
    and bs: "bs = xs @ entry_bytes s offsets e @ tail" and len: "length xs = start"
    and fits: "start + entry_width s e \<le> CHECKSUM_START" and up: "above previous (pkey e)"
  shows "read_entries s lev offset bs (Suc n) start previous =
    and_then (read_entries s lev offset bs n (start + entry_width s e) (Some (pkey e)))
      (\<lambda>(rest, final). Inr (resolve offsets e # rest, final))"
proof -
  let ?kb = "key_bytes (layout s)" and ?mv = "max_value_bytes (layout s)"
  have kl: "length (pkey e) = ?kb" using ok by (simp add: entry_ok_def)
  have key: "sub_slice bs start (start + ?kb) = pkey e"
    unfolding bs entry_bytes_def using len kl by (simp add: slice_simps)
  have up': "\<not> (case previous of None \<Rightarrow> False | Some p \<Rightarrow> p \<ge> pkey e)"
    using up by (auto simp: above_def split: option.splits)
  show ?thesis
  proof (cases "pvalue e")
    case (Inline v)
    have lev: "lev = 0" "length v \<le> ?mv" using ok Inline by (simp_all add: entry_ok_def)
    let ?pad = "if packed_leaf s 0 then 0 else ?mv - length v"
    have wd: "entry_width s e = ?kb + 2 + length v + ?pad"
      using Inline lev by (simp add: entry_width_def stride_def)
    have vl: "u16_at bs (start + ?kb) = length v"
      unfolding bs entry_bytes_def Inline u16_at_def using len kl lev lay
      by (simp add: slice_simps le_nat_le_bytes)
    have val: "sub_slice bs (start + ?kb + 2) (start + ?kb + 2 + length v) = v"
      unfolding bs entry_bytes_def Inline using len kl by (simp add: slice_simps)
    have pad: "sub_slice bs (start + ?kb + 2 + length v) (start + entry_width s e) = zeros ?pad"
      unfolding bs entry_bytes_def Inline wd using len kl by (simp add: slice_simps)
    have e1: "(if packed_leaf s lev then start + ?kb + 2 + length v else start + stride (layout s) lev) =
        start + entry_width s e"
      using lev Inline by (simp add: entry_width_def)
    have e2: "\<not> start + (if packed_leaf s lev then ?kb + 2 else stride (layout s) lev) > CHECKSUM_START"
      using fits lev Inline by (simp add: entry_width_def split: if_splits)
    have e3: "\<not> list_ex (\<lambda>b. b \<noteq> 0) (zeros ?pad)" by (auto simp: list_ex_iff zeros_def)
    have ok0: "\<not> (length v > ?mv \<or> start + entry_width s e > CHECKSUM_START
        \<or> list_ex (\<lambda>b. b \<noteq> 0) (zeros ?pad))"
      using lev fits e3 by simp
    show ?thesis
      unfolding lev(1) read_entries.simps read_value_def Let_def if_not_P [OF e2 [unfolded lev(1)]] key vl val
        e1 [unfolded lev(1)] pad if_not_P [OF ok0] if_P [OF refl] and_then.simps prod.case if_not_P [OF up']
      by (simp add: resolve_def Inline)
  next
    case (Child r)
    have lev: "lev \<noteq> 0" using ok Child by (auto simp: entry_ok_def split: PageRef.splits)
    have wd: "entry_width s e = stride (layout s) lev"
      using Child lev by (simp add: entry_width_def stride_def)
    have wd': "entry_width s e = ?kb + 8" using Child by (simp add: entry_width_def)
    have po: "pointer_ok s offset (ref_offset offsets r)" using refs Child by (simp add: refs_ok_def)
    have small: "ref_offset offsets r < 2 ^ 64" using po off by (simp add: pointer_ok_def)
    have sl: "sub_slice bs (start + ?kb) (start + ?kb + 8) = le_bytes 8 (ref_offset offsets r)"
      unfolding bs entry_bytes_def Child using len kl by (simp add: slice_simps)
    have ptr: "u64_at bs (start + ?kb) = ref_offset offsets r"
      unfolding u64_at_def sl using small by (simp add: le_nat_le_bytes)
    have np: "\<not> packed_leaf s lev" using lev by (simp add: packed_leaf_def)
    have rv: "read_value s lev offset bs start = Inr (le_bytes 8 (ref_offset offsets r), start + entry_width s e)"
      using lev po by (simp add: read_value_def Let_def ptr sl wd pointer_ok_def)
    show ?thesis
      unfolding read_entries.simps Let_def key rv and_then.simps prod.case if_not_P [OF up']
      using fits np wd by (simp add: resolve_def Child)
  qed
qed

lemma read_entries_page:
  assumes "\<forall>e \<in> set es. entry_ok rd s i lev e" "max_value_bytes (layout s) \<le> 1024"
    "offset < 2 ^ 64" "refs_ok s offsets offset es"
    "bs = xs @ concat (map (entry_bytes s offsets) es) @ tail" "length xs = start"
    "start + sum_list (map (entry_width s) es) \<le> CHECKSUM_START"
    "sorted_wrt (<) (map pkey es)" "\<forall>e \<in> set es. above previous (pkey e)"
  shows "read_entries s lev offset bs (length es) start previous =
    Inr (map (resolve offsets) es, start + sum_list (map (entry_width s) es))"
  using assms
proof (induction es arbitrary: xs start previous)
  case (Cons e es)
  have ok: "entry_ok rd s i lev e" using Cons.prems(1) by simp
  have "read_entries s lev offset bs (Suc (length es)) start previous =
      and_then (read_entries s lev offset bs (length es) (start + entry_width s e) (Some (pkey e)))
        (\<lambda>(rest, final). Inr (resolve offsets e # rest, final))"
    by (rule read_entry [OF ok Cons.prems(2,3)]) (use Cons.prems in \<open>auto simp: refs_ok_def\<close>)
  also have "read_entries s lev offset bs (length es) (start + entry_width s e) (Some (pkey e)) =
      Inr (map (resolve offsets) es, start + entry_width s e + sum_list (map (entry_width s) es))"
  proof (rule Cons.IH)
    show "bs = (xs @ entry_bytes s offsets e) @ concat (map (entry_bytes s offsets) es) @ tail"
      using Cons.prems(5) by simp
    show "length (xs @ entry_bytes s offsets e) = start + entry_width s e"
      using Cons.prems(6) length_entry_bytes [OF ok] by simp
  qed (use Cons.prems in \<open>auto simp: refs_ok_def above_def\<close>)
  finally show ?case by simp
qed simp

definition page_fields :: "Snapshot \<Rightarrow> nat \<Rightarrow> PlannedPage \<Rightarrow> bytes" where
  "page_fields s offset page =
    page_magic s @ le_bytes 8 offset @ le_bytes 8 (generation s) @ [word_of_nat (plevel page), 0]
      @ le_bytes 2 (length (pentries page)) @ zeros 12"

lemma length_page_magic [simp]: "length (page_magic s) = 8"
  by (simp add: page_magic_def PAGE_MAGIC_def PAGE_PACKED_MAGIC_def)

lemma length_page_fields [simp]: "length (page_fields s offset page) = PREFIX"
  by (simp add: page_fields_def isam_consts)

lemma page_header_eq: "page_header s offset page = page_fields s offset page @ zeros 4056"
proof -
  let ?m = "page_magic s" and ?o = "le_bytes 8 offset" and ?g = "le_bytes 8 (generation s)"
    and ?c = "le_bytes 2 (length (pentries page))" and ?l = "word_of_nat (plevel page) :: byte"
  have 1: "copy_from_slice (zeros PAGE_BYTES) 0 ?m = ?m @ zeros 4088"
    by (simp add: copy_from_slice_def isam_consts)
  have 2: "copy_from_slice (?m @ zeros 4088) 8 ?o = (?m @ ?o) @ zeros 4080"
    by (rule fill_next) simp_all
  have 3: "copy_from_slice ((?m @ ?o) @ zeros 4080) 16 ?g = ((?m @ ?o) @ ?g) @ zeros 4072"
    by (rule fill_next) simp_all
  have z: "zeros 4072 = 0 # 0 # zeros 4070"
    by (simp add: zeros_def numeral_eq_Suc)
  have 4: "(((?m @ ?o) @ ?g) @ zeros 4072)[24 := ?l] = (((?m @ ?o) @ ?g) @ [?l, 0]) @ zeros 4070"
    unfolding z by (simp add: list_update_append)
  have 5: "copy_from_slice ((((?m @ ?o) @ ?g) @ [?l, 0]) @ zeros 4070) 26 ?c =
      ((((?m @ ?o) @ ?g) @ [?l, 0]) @ ?c) @ zeros 4068"
    by (rule fill_next) simp_all
  show ?thesis
    unfolding page_header_def Let_def 1 2 3 4 5 by (simp add: page_fields_def zeros_add)
qed

lemma sum_widths_bound:
  assumes "\<forall>e \<in> set es. entry_ok rd s i lev e" "1 \<le> key_bytes (layout s)"
  shows "length es * (if packed_leaf s lev then key_bytes (layout s) + 2 else stride (layout s) lev)
    \<le> sum_list (map (entry_width s) es)"
  using assms
proof (induction es)
  case (Cons e es)
  have "(if packed_leaf s lev then key_bytes (layout s) + 2 else stride (layout s) lev) \<le> entry_width s e"
    using Cons.prems(1)
    by (auto simp: entry_ok_def entry_width_def packed_leaf_def stride_def split: PlannedValue.splits PageRef.splits)
  with Cons show ?case by (simp add: add_mono)
qed simp

text \<open>A page written for the plan is read back as its node, by every later snapshot.\<close>

lemma parse_written_page:
  assumes d: "digest_32 blake3" and ok: "page_ok rd s i page" and lay: "snapshot_ok s"
    and off: "offset < 2 ^ 64" and i: "i \<le> length offsets"
    and refs: "refs_ok s offsets offset (pentries page)"
  obtains bs where
    "put_entries s offsets (plevel page) PREFIX (pentries page) (page_header s offset page) = Inr bs"
    "length (seal blake3 bs) = PAGE_BYTES"
    "\<And>s'. layout s' = layout s \<Longrightarrow> format_version s' = format_version s \<Longrightarrow> generation s \<le> generation s' \<Longrightarrow>
      parse_page blake3 s' offset (seal blake3 bs) = Inr (node_of offsets page)"
proof -
  let ?es = "pentries page"
  let ?sum = "sum_list (map (entry_width s) ?es)"
  let ?body = "page_fields s offset page @ concat (map (entry_bytes s offsets) ?es)"
  have es: "\<forall>e \<in> set ?es. entry_ok rd s i (plevel page) e" "?es \<noteq> []" "plevel page \<le> MAX_LEVEL"
    "sorted_wrt (<) (map pkey ?es)" "PREFIX + ?sum \<le> CHECKSUM_START"
    using ok by (simp_all add: page_ok_def)
  have ksz: "1 \<le> key_bytes (layout s)" "max_value_bytes (layout s) \<le> 1024" "generation s < 2 ^ 64" "0 < generation s"
    using lay by (simp_all add: snapshot_ok_def)
  have put: "put_entries s offsets (plevel page) PREFIX ?es (page_header s offset page) =
      Inr (page_fields s offset page @ concat (map (entry_bytes s offsets) ?es) @ zeros (4056 - ?sum))"
    unfolding page_header_eq
    by (rule put_entries_eq [OF es(1) i]) (use es(5) in \<open>simp_all add: isam_consts\<close>)
  have lc: "length (concat (map (entry_bytes s offsets) ?es)) = ?sum"
  proof -
    have "map (\<lambda>e. length (entry_bytes s offsets e)) ?es = map (entry_width s) ?es"
      using es(1) by (auto simp: length_entry_bytes)
    then show ?thesis by (simp only: length_concat map_map comp_def)
  qed
  define bs where "bs = (?body @ zeros (4024 - ?sum)) @ zeros 32"
  have pb: "page_fields s offset page @ concat (map (entry_bytes s offsets) ?es) @ zeros (4056 - ?sum) = bs"
    using es(5) by (simp add: bs_def zeros_add isam_consts)
  have lb: "length (?body @ zeros (4024 - ?sum)) = CHECKSUM_START"
    using es(5) lc by (simp add: isam_consts)
  define sb where "sb = seal blake3 bs"
  have sb: "sb = ?body @ zeros (4024 - ?sum) @ blake3 (?body @ zeros (4024 - ?sum))"
    unfolding sb_def bs_def using seal_append [OF d lb] by simp
  have "length bs = PAGE_BYTES" unfolding bs_def using lb by (simp add: isam_consts)
  then have len: "length sb = PAGE_BYTES" and cs: "checksum_valid blake3 sb"
    unfolding sb_def using d by (simp_all add: checksum_valid_seal)
  have cnt: "length ?es \<le> capacity s (plevel page)" "length ?es < 2 ^ 16"
  proof -
    let ?w = "if packed_leaf s (plevel page) then key_bytes (layout s) + 2 else stride (layout s) (plevel page)"
    have b: "length ?es * ?w \<le> CHECKSUM_START - PREFIX"
      using sum_widths_bound [OF es(1) ksz(1)] es(5) by linarith
    have w: "0 < ?w" using ksz(1) by (simp add: stride_def)
    then show "length ?es \<le> capacity s (plevel page)"
      unfolding capacity_def Let_def using b by (simp add: less_eq_div_iff_mult_less_eq)
    have "length ?es * 1 \<le> length ?es * ?w" using w by (intro mult_le_mono2) simp
    then have "length ?es \<le> CHECKSUM_START - PREFIX" using b by linarith
    then show "length ?es < 2 ^ 16" by (simp add: isam_consts)
  qed
  have f: "sub_slice sb 0 8 = page_magic s" "u64_at sb 8 = offset" "u64_at sb 16 = generation s"
    "unat (sb ! 24) = plevel page" "sb ! 25 = 0" "u16_at sb 26 = length ?es" "sub_slice sb 28 PREFIX = zeros 12"
    using off ksz cnt es(3)
    by (simp_all add: sb page_fields_def slice_simps u64_at_def u16_at_def le_nat_le_bytes isam_consts
        nth_append)
  have "parse_page blake3 s' offset sb = Inr (node_of offsets page)"
    if s': "layout s' = layout s" "format_version s' = format_version s" "generation s \<le> generation s'" for s'
  proof -
    have same: "page_magic s' = page_magic s" "capacity s' = capacity s" "packed_leaf s' = packed_leaf s"
      using s' by (auto simp: page_magic_def capacity_def packed_leaf_def fun_eq_iff)
    have same_e: "entry_ok rd s' i (plevel page) = entry_ok rd s i (plevel page)"
      "entry_bytes s' offsets = entry_bytes s offsets" "entry_width s' = entry_width s"
      "refs_ok s' = refs_ok s"
      unfolding fun_eq_iff entry_ok_def entry_bytes_def entry_width_def refs_ok_def pointer_ok_def s'(1,2) same
      by simp_all
    have re: "read_entries s' (plevel page) offset sb (length ?es) PREFIX None =
        Inr (map (resolve offsets) ?es, PREFIX + ?sum)"
    proof -
      have "read_entries s' (plevel page) offset sb (length ?es) PREFIX None =
        Inr (map (resolve offsets) ?es, PREFIX + sum_list (map (entry_width s') ?es))"
        by (rule read_entries_page [where xs = "page_fields s offset page" and rd = rd and i = i
              and tail = "zeros (4024 - ?sum) @ blake3 (?body @ zeros (4024 - ?sum))"])
           (use es off refs ksz s' same_e sb in \<open>simp_all add: above_def\<close>)
      then show ?thesis by (simp add: same_e)
    qed
    have tail: "sub_slice sb (PREFIX + ?sum) CHECKSUM_START = zeros (4024 - ?sum)"
      unfolding sb using lc es(5) by (simp add: slice_simps isam_consts)
    show ?thesis
      unfolding parse_page_def Let_def f same using cs re tail es(2,3) cnt(1) ksz s'
      by (simp add: node_of_def list_ex_iff zeros_def)
  qed
  then show thesis
    using that [of bs] put pb len by (simp add: sb_def)
qed

end
