(* ===== verification/Isam_Plan.thy ===== *)
theory Isam_Plan
  imports Isam_Page
begin

text \<open>Planning a batch: the abstract effect of the mutations on the map of records, the trees
  that the pages of a file and the pages of a plan form together, and that \<open>prepare_batch\<close> plans the
  tree of exactly the records after the batch.\<close>

section \<open>Mutations of a sorted record list\<close>

text \<open>The abstract effect of a batch on the map of records: \<open>None\<close> when an insert meets its key.\<close>

fun batch_map :: "Mutation list \<Rightarrow> (bytes \<rightharpoonup> bytes) \<Rightarrow> (bytes \<rightharpoonup> bytes) option" where
  "batch_map [] m = Some m"
| "batch_map (Insert r # rest) m =
    (if m (rkey r) \<noteq> None then None else batch_map rest (m(rkey r \<mapsto> rvalue r)))"
| "batch_map (Put r # rest) m = batch_map rest (m(rkey r \<mapsto> rvalue r))"
| "batch_map (Delete k # rest) m = batch_map rest (m(k := None))"

abbreviation sorted_keys :: "(bytes \<times> bytes) list \<Rightarrow> bool" where
  "sorted_keys kvs \<equiv> sorted_wrt (<) (map fst kvs)"

lemma keys_btree_insert [simp]: "fst ` set (btree_insert k v kvs) = insert k (fst ` set kvs)"
  by (induction k v kvs rule: btree_insert.induct) auto

lemma sorted_btree_insert: "sorted_keys kvs \<Longrightarrow> sorted_keys (btree_insert k v kvs)"
  by (induction k v kvs rule: btree_insert.induct) auto

lemma map_of_btree_insert:
  "sorted_keys kvs \<Longrightarrow> map_of (btree_insert k v kvs) = (map_of kvs)(k \<mapsto> v)"
  by (induction k v kvs rule: btree_insert.induct) auto

lemma keys_btree_remove: "fst ` set (btree_remove k kvs) = fst ` set kvs - {k}"
  by (force simp: btree_remove_def)

lemma sorted_btree_remove: "sorted_keys kvs \<Longrightarrow> sorted_keys (btree_remove k kvs)"
  by (simp add: btree_remove_def sorted_wrt_map sorted_wrt_filter)

lemma map_of_btree_remove: "map_of (btree_remove k kvs) = (map_of kvs)(k := None)"
  unfolding btree_remove_def by (induction kvs) auto

lemma apply_mutations_batch_map:
  "sorted_keys kvs \<Longrightarrow>
    (case apply_mutations ms kvs of
       Inl e \<Rightarrow> e = Duplicate \<and> batch_map ms (map_of kvs) = None
     | Inr kvs' \<Rightarrow> sorted_keys kvs' \<and> batch_map ms (map_of kvs) = Some (map_of kvs'))"
  by (induction ms kvs rule: apply_mutations.induct)
     (auto simp: sorted_btree_insert sorted_btree_remove map_of_btree_insert map_of_btree_remove split: sum.splits)

lemma batch_map_swap:
  "mutation_key a \<noteq> mutation_key b \<Longrightarrow> batch_map (a # b # rest) m = batch_map (b # a # rest) m"
  by (cases a; cases b) (auto simp: fun_upd_twist)

lemma batch_map_Cons_cong:
  "(\<And>m. batch_map xs m = batch_map ys m) \<Longrightarrow> batch_map (a # xs) m = batch_map (a # ys) m"
  by (cases a) simp_all

lemma batch_map_insort: "batch_map (insort_key mutation_key a ms) m = batch_map (a # ms) m"
proof (induction ms arbitrary: m)
  case (Cons b ms)
  show ?case
  proof (cases "mutation_key a \<le> mutation_key b")
    case False
    then have "batch_map (insort_key mutation_key a (b # ms)) m = batch_map (b # a # ms) m"
      using batch_map_Cons_cong [OF Cons.IH] by simp
    then show ?thesis using batch_map_swap [of b a] False by auto
  qed simp
qed simp

text \<open>The stable sort of the mutations by key does not change their effect.\<close>

lemma batch_map_sort: "batch_map (sort_key mutation_key ms) m = batch_map ms m"
  unfolding sort_key_def
proof (induction ms arbitrary: m)
  case (Cons a ms)
  have "batch_map (insort_key mutation_key a (foldr (insort_key mutation_key) ms [])) m =
      batch_map (a # foldr (insort_key mutation_key) ms []) m"
    by (rule batch_map_insort)
  also have "\<dots> = batch_map (a # ms) m"
    by (rule batch_map_Cons_cong) (rule Cons.IH)
  finally show ?case by simp
qed simp

text \<open>Mutations of disjoint key ranges act on their own part of the list.\<close>

lemma btree_insert_left:
  "\<forall>k' \<in> fst ` set ys. k < k' \<Longrightarrow> btree_insert k v (xs @ ys) = btree_insert k v xs @ ys"
proof (induction xs)
  case Nil
  then show ?case by (cases ys) auto
qed auto

lemma btree_insert_right:
  "\<forall>k' \<in> fst ` set xs. k' < k \<Longrightarrow> btree_insert k v (xs @ ys) = xs @ btree_insert k v ys"
  by (induction xs) auto

lemma btree_remove_append: "btree_remove k (xs @ ys) = btree_remove k xs @ btree_remove k ys"
  by (simp add: btree_remove_def)

lemma btree_remove_id: "k \<notin> fst ` set xs \<Longrightarrow> btree_remove k xs = xs"
  by (force simp: btree_remove_def filter_id_conv)

lemma apply_mutations_left:
  "\<forall>m \<in> set ms. \<forall>k \<in> fst ` set ys. mutation_key m < k \<Longrightarrow>
    apply_mutations ms (xs @ ys) = and_then (apply_mutations ms xs) (\<lambda>xs'. Inr (xs' @ ys))"
proof (induction ms xs rule: apply_mutations.induct)
  case (2 r rest xs)
  have "rkey r \<notin> fst ` set ys" using 2(2) by fastforce
  then have "map_of ys (rkey r) = None" by (simp add: map_of_eq_None_iff)
  then show ?case using 2 by (auto simp: btree_insert_left)
next
  case (3 r rest xs)
  then show ?case by (simp add: btree_insert_left)
next
  case (4 k rest xs)
  have "k \<notin> fst ` set ys" using 4(2) by fastforce
  then show ?case using 4 by (simp add: btree_remove_append btree_remove_id)
qed simp

lemma apply_mutations_right:
  "\<forall>m \<in> set ms. \<forall>k \<in> fst ` set xs. k < mutation_key m \<Longrightarrow>
    apply_mutations ms (xs @ ys) = and_then (apply_mutations ms ys) (\<lambda>ys'. Inr (xs @ ys'))"
proof (induction ms ys rule: apply_mutations.induct)
  case (2 r rest ys)
  have "rkey r \<notin> fst ` set xs" using 2(2) by fastforce
  then have "map_of xs (rkey r) = None" by (simp add: map_of_eq_None_iff)
  then show ?case using 2 by (auto simp: btree_insert_right)
next
  case (3 r rest ys)
  then show ?case by (simp add: btree_insert_right)
next
  case (4 k rest ys)
  have "k \<notin> fst ` set xs" using 4(2) by fastforce
  then show ?case using 4 by (simp add: btree_remove_append btree_remove_id)
qed simp

lemma apply_mutations_append:
  "apply_mutations (ms @ ns) kvs = and_then (apply_mutations ms kvs) (apply_mutations ns)"
  by (induction ms kvs rule: apply_mutations.induct) auto

lemma apply_mutations_keys:
  "apply_mutations ms kvs = Inr kvs' \<Longrightarrow> fst ` set kvs' \<subseteq> fst ` set kvs \<union> mutation_key ` set ms"
proof (induction ms kvs rule: apply_mutations.induct)
  case (2 r rest kvs)
  then have "fst ` set kvs' \<subseteq> fst ` set (btree_insert (rkey r) (rvalue r) kvs) \<union> mutation_key ` set rest"
    by (simp split: if_splits)
  then show ?case unfolding keys_btree_insert by auto
next
  case (3 r rest kvs)
  then have "fst ` set kvs' \<subseteq> fst ` set (btree_insert (rkey r) (rvalue r) kvs) \<union> mutation_key ` set rest"
    by simp
  then show ?case unfolding keys_btree_insert by auto
next
  case (4 k rest kvs)
  then have "fst ` set kvs' \<subseteq> fst ` set (btree_remove k kvs) \<union> mutation_key ` set rest"
    by simp
  then show ?case unfolding keys_btree_remove by auto
qed simp

lemma apply_mutations_split:
  assumes "\<forall>m \<in> set ms1. mutation_key m \<le> b" "\<forall>m \<in> set ms2. b < mutation_key m"
    "\<forall>k \<in> fst ` set ks. k \<le> b" "\<forall>k \<in> fst ` set rest. b < k"
  shows "apply_mutations (ms1 @ ms2) (ks @ rest) =
    and_then (apply_mutations ms1 ks) (\<lambda>ks'. and_then (apply_mutations ms2 rest) (\<lambda>rest'. Inr (ks' @ rest')))"
proof -
  have "apply_mutations ms1 (ks @ rest) = and_then (apply_mutations ms1 ks) (\<lambda>ks'. Inr (ks' @ rest))"
    using assms by (intro apply_mutations_left) (auto intro: le_less_trans)
  moreover have "apply_mutations ms2 (ks' @ rest) = and_then (apply_mutations ms2 rest) (\<lambda>rest'. Inr (ks' @ rest'))"
    if "apply_mutations ms1 ks = Inr ks'" for ks'
  proof (intro apply_mutations_right ballI)
    fix m k
    assume m: "m \<in> set ms2" and k: "k \<in> fst ` set ks'"
    have "k \<in> fst ` set ks \<union> mutation_key ` set ms1"
      using apply_mutations_keys [OF that] k by (rule subsetD)
    then have "k \<le> b" using assms(1,3) by auto
    then show "k < mutation_key m" using assms(2) m by (blast intro: le_less_trans)
  qed
  ultimately show ?thesis
    by (cases "apply_mutations ms1 ks") (simp_all add: apply_mutations_append)
qed

text \<open>The bounds of the layout.\<close>

definition records_ok :: "Layout \<Rightarrow> (bytes \<times> bytes) list \<Rightarrow> bool" where
  "records_ok l kvs \<longleftrightarrow> (\<forall>(k, v) \<in> set kvs. length k = key_bytes l \<and> length v \<le> max_value_bytes l)"

fun mutation_ok :: "Layout \<Rightarrow> Mutation \<Rightarrow> bool" where
  "mutation_ok l (Insert r) \<longleftrightarrow> length (rkey r) = key_bytes l \<and> length (rvalue r) \<le> max_value_bytes l"
| "mutation_ok l (Put r) \<longleftrightarrow> length (rkey r) = key_bytes l \<and> length (rvalue r) \<le> max_value_bytes l"
| "mutation_ok l (Delete k) \<longleftrightarrow> length k = key_bytes l"

lemma records_ok_simps [simp]:
  "records_ok l []" "records_ok l ((k, v) # kvs) \<longleftrightarrow> length k = key_bytes l \<and> length v \<le> max_value_bytes l \<and> records_ok l kvs"
  "records_ok l (xs @ ys) \<longleftrightarrow> records_ok l xs \<and> records_ok l ys"
  by (auto simp: records_ok_def)

lemma records_ok_insert:
  "records_ok l kvs \<Longrightarrow> length k = key_bytes l \<Longrightarrow> length v \<le> max_value_bytes l \<Longrightarrow> records_ok l (btree_insert k v kvs)"
  by (induction k v kvs rule: btree_insert.induct) auto

lemma records_ok_apply:
  "apply_mutations ms kvs = Inr kvs' \<Longrightarrow> records_ok l kvs \<Longrightarrow> \<forall>m \<in> set ms. mutation_ok l m \<Longrightarrow> records_ok l kvs'"
proof (induction ms kvs rule: apply_mutations.induct)
  case (4 k rest kvs)
  have "records_ok l (btree_remove k kvs)" using 4(3) by (auto simp: records_ok_def btree_remove_def)
  with 4 show ?case by simp
qed (auto simp: records_ok_insert split: if_splits)

lemma fold_btree_insert:
  assumes "sorted_wrt (<) (map rkey es)" "\<forall>k \<in> fst ` set kvs. \<forall>e \<in> set es. k < rkey e"
  shows "fold (\<lambda>r records. btree_insert (rkey r) (rvalue r) records) es kvs = kvs @ map kv es"
  using assms
proof (induction es arbitrary: kvs)
  case (Cons e es)
  have "btree_insert (rkey e) (rvalue e) kvs = kvs @ [kv e]"
    using btree_insert_right [of kvs "rkey e" "rvalue e" "[]"] Cons.prems by simp
  then show ?case using Cons.IH [of "kvs @ [kv e]"] Cons.prems by auto
qed simp

section \<open>Planned trees\<close>

text \<open>\<open>ptree rd ps l r kvs\<close>: through the pages of the file and the planned pages \<open>ps\<close>, the
  reference \<open>r\<close> leads to a tree of level \<open>l\<close> with the records \<open>kvs\<close>.  A planned page refers to
  earlier planned pages only.\<close>

abbreviation inline :: "bytes \<times> bytes \<Rightarrow> PlannedEntry" where
  "inline p \<equiv> \<lparr>pkey = fst p, pvalue = Inline (snd p)\<rparr>"

inductive ptree ::
    "(nat \<Rightarrow> IsamError + Node) \<Rightarrow> PlannedPage list \<Rightarrow> nat \<Rightarrow> PageRef \<Rightarrow> (bytes \<times> bytes) list \<Rightarrow> bool"
  for rd where
  existing: "rd offset = Inr m \<Longrightarrow> level m = l \<Longrightarrow> tree rd m kvs \<Longrightarrow> ptree rd ps l (Existing offset) kvs"
| new_leaf: "i < length ps \<Longrightarrow> ps ! i = \<lparr>plevel = 0, pentries = map inline kvs\<rparr> \<Longrightarrow> kvs \<noteq> []
    \<Longrightarrow> sorted_keys kvs \<Longrightarrow> ptree rd ps 0 (New i) kvs"
| new_branch: "i < length ps \<Longrightarrow> ps ! i = \<lparr>plevel = Suc l, pentries = es\<rparr> \<Longrightarrow> es \<noteq> []
    \<Longrightarrow> list_all2 (\<lambda>e ks. \<exists>r. pvalue e = Child r \<and> pkey e = fst (last ks) \<and> ptree rd (take i ps) l r ks) es kss
    \<Longrightarrow> sorted_keys (concat kss) \<Longrightarrow> ptree rd ps (Suc l) (New i) (concat kss)"

inductive_cases ptree_existingE: "ptree rd ps l (Existing offset) kvs"
inductive_cases ptree_newE: "ptree rd ps l (New i) kvs"

lemma ptree_nonempty: "ptree rd ps l r kvs \<Longrightarrow> kvs \<noteq> []"
proof (induction rule: ptree.induct)
  case (existing offset m l kvs ps)
  then show ?case using tree_facts by blast
next
  case (new_branch i ps l es kss)
  then obtain e es' ks kss' where "es = e # es'" "kss = ks # kss'" "ks \<noteq> []"
    by (cases es) (auto simp: list_all2_Cons1)
  then show ?case by simp
qed simp

lemma ptree_append:
  assumes "ptree rd ps l r kvs"
  shows "ptree rd (ps @ qs) l r kvs"
  using assms
proof (cases rule: ptree.cases)
  case (existing offset m)
  then show ?thesis by (simp add: ptree.existing)
next
  case (new_leaf i)
  then show ?thesis by (simp add: ptree.new_leaf nth_append)
next
  case (new_branch i l' es kss)
  then show ?thesis
    by (auto intro!: ptree.new_branch simp: nth_append)
qed

lemma ptree_ref: "ptree rd ps l (New i) kvs \<Longrightarrow> i < length ps"
  by (auto elim: ptree_newE)

lemma ptree_offset: "ptree rd ps l (Existing offset) kvs \<Longrightarrow> \<exists>m. rd offset = Inr m"
  by (auto elim: ptree_existingE)

text \<open>The entries of a page of level \<open>lev\<close>, each with the records it stands for.\<close>

definition row_entry ::
    "(nat \<Rightarrow> IsamError + Node) \<Rightarrow> PlannedPage list \<Rightarrow> nat \<Rightarrow> PlannedEntry \<Rightarrow> (bytes \<times> bytes) list \<Rightarrow> bool" where
  "row_entry rd ps lev e ks \<longleftrightarrow>
    (case lev of
       0 \<Rightarrow> \<exists>p. ks = [p] \<and> e = inline p
     | Suc l \<Rightarrow> \<exists>r. pvalue e = Child r \<and> pkey e = fst (last ks) \<and> ptree rd ps l r ks)"

abbreviation row ::
    "(nat \<Rightarrow> IsamError + Node) \<Rightarrow> PlannedPage list \<Rightarrow> nat \<Rightarrow> PlannedEntry list \<Rightarrow> (bytes \<times> bytes) list list \<Rightarrow> bool" where
  "row rd ps lev \<equiv> list_all2 (row_entry rd ps lev)"

lemma row_entry_nonempty: "row_entry rd ps lev e ks \<Longrightarrow> ks \<noteq> [] \<and> pkey e = fst (last ks)"
  by (auto simp: row_entry_def dest: ptree_nonempty split: nat.splits)

lemma row_append: "row rd ps lev es kss \<Longrightarrow> row rd (ps @ qs) lev es kss"
  by (erule list_all2_mono) (auto simp: row_entry_def intro: ptree_append split: nat.splits)

lemma row_concat_empty: "row rd ps lev es kss \<Longrightarrow> concat kss = [] \<longleftrightarrow> es = []"
  by (induction rule: list_all2_induct) (auto dest: row_entry_nonempty)

lemma row_keys:
  "row rd ps lev es kss \<Longrightarrow> sorted_keys (concat kss) \<Longrightarrow> sorted_wrt (<) (map pkey es)"
proof (induction rule: list_all2_induct)
  case (Cons e es ks kss)
  have ks: "ks \<noteq> []" "pkey e = fst (last ks)" using row_entry_nonempty [OF Cons.hyps(1)] by simp_all
  have "pkey e < pkey e'" if "e' \<in> set es" for e'
  proof -
    from Cons.hyps(2) that obtain ks' where ks': "ks' \<in> set kss" "row_entry rd ps lev e' ks'"
      by (auto simp: list_all2_conv_all_nth in_set_conv_nth) (metis nth_mem)
    then have "fst (last ks') \<in> fst ` set (concat kss)"
      using row_entry_nonempty [OF ks'(2)] by (auto intro!: imageI bexI [of _ ks'])
    then show ?thesis
      using Cons.prems ks row_entry_nonempty [OF ks'(2)] by (force simp: sorted_wrt_append)
  qed
  with Cons show ?case by (simp add: sorted_wrt_append)
qed simp

lemma row_entry_ok:
  assumes "row_entry rd ps lev e ks" "records_ok (layout s) ks"
  shows "entry_ok rd s (length ps) lev e"
proof -
  have "length (pkey e) = key_bytes (layout s)"
  proof -
    have "last ks \<in> set ks" "pkey e = fst (last ks)" using row_entry_nonempty [OF assms(1)] by simp_all
    with assms(2) show ?thesis by (simp add: records_ok_def case_prod_beta)
  qed
  then show ?thesis
    using assms
    by (auto simp: row_entry_def entry_ok_def dest!: ptree_ref ptree_offset
        split: nat.splits PageRef.splits)
qed

lemma row_ok:
  assumes "row rd ps lev es kss" "records_ok (layout s) (concat kss)"
  shows "\<forall>e \<in> set es. entry_ok rd s (length ps) lev e"
  using assms by (induction rule: list_all2_induct) (auto intro: row_entry_ok)

text \<open>A chunk of a row becomes a page, and its reference an entry of the row above.\<close>

lemma row_inline: "row rd ps 0 es kss \<Longrightarrow> es = map inline (concat kss)"
  by (induction rule: list_all2_induct) (auto simp: row_entry_def)

lemma row_page:
  assumes r: "row rd ps lev es kss" and ne: "es \<noteq> []" and s: "sorted_keys (concat kss)"
  shows "row_entry rd (ps @ [\<lparr>plevel = lev, pentries = es\<rparr>]) (Suc lev)
    \<lparr>pkey = pkey (last es), pvalue = Child (New (length ps))\<rparr> (concat kss)"
proof -
  have last: "pkey (last es) = fst (last (concat kss))"
  proof -
    obtain es' e where es: "es = es' @ [e]" using ne by (cases es rule: rev_cases) auto
    then obtain kss' ks where "kss = kss' @ [ks]" "row_entry rd ps lev e ks"
      using r by (auto simp: list_all2_append1 list_all2_Cons1)
    then show ?thesis using es row_entry_nonempty [of rd ps lev e ks] by simp
  qed
  have "ptree rd (ps @ [\<lparr>plevel = lev, pentries = es\<rparr>]) lev (New (length ps)) (concat kss)"
  proof (cases lev)
    case 0
    then show ?thesis
      using row_inline [of rd ps es kss] r s row_concat_empty [OF r] ne by (auto intro!: new_leaf)
  next
    case (Suc l)
    then show ?thesis
      using r ne s unfolding Suc by (intro new_branch) (auto simp: row_entry_def elim!: list_all2_mono)
  qed
  with last show ?thesis by (simp add: row_entry_def)
qed

lemma fill_page_Inr:
  assumes "\<forall>e \<in> set es. entry_ok rd s i lev e" "used \<le> CHECKSUM_START"
  shows "\<exists>chunk rest. fill_page s lev used es = Inr (chunk, rest) \<and> es = chunk @ rest
    \<and> used + sum_list (map (entry_width s) chunk) \<le> CHECKSUM_START
    \<and> (es \<noteq> [] \<and> used + entry_width s (hd es) \<le> CHECKSUM_START \<longrightarrow> chunk \<noteq> [])"
  using assms
proof (induction es arbitrary: used)
  case (Cons e es)
  have w: "planned_width s lev e = Inr (entry_width s e)"
    using Cons.prems(1) by (auto intro: planned_width_eq)
  show ?case
  proof (cases "used + entry_width s e > CHECKSUM_START")
    case True
    then show ?thesis using w Cons.prems(2) by simp
  next
    case False
    then obtain chunk rest where "fill_page s lev (used + entry_width s e) es = Inr (chunk, rest)"
      "es = chunk @ rest" "used + entry_width s e + sum_list (map (entry_width s) chunk) \<le> CHECKSUM_START"
      using Cons.IH [of "used + entry_width s e"] Cons.prems by auto
    with False w show ?thesis by (auto simp: add.assoc)
  qed
qed simp

lemma entry_width_small:
  assumes "entry_ok rd s i lev e" "snapshot_ok s"
  shows "PREFIX + entry_width s e \<le> CHECKSUM_START"
  using assms
  by (auto simp: entry_ok_def entry_width_def snapshot_ok_def stride_def isam_consts split: PlannedValue.splits)

definition pages_fit :: "(nat \<Rightarrow> IsamError + Node) \<Rightarrow> Snapshot \<Rightarrow> PlannedPage list \<Rightarrow> bool" where
  "pages_fit rd s ps \<longleftrightarrow> (\<forall>i < length ps. page_ok rd s i (ps ! i))"

lemma pages_fit_snoc: "pages_fit rd s (ps @ [p]) \<longleftrightarrow> pages_fit rd s ps \<and> page_ok rd s (length ps) p"
  by (auto simp: pages_fit_def nth_append less_Suc_eq)

lemma emit_pages_row:
  assumes "row rd ps lev es kss" "sorted_keys (concat kss)" "records_ok (layout s) (concat kss)"
    "snapshot_ok s" "lev \<le> MAX_LEVEL"
  shows "\<exists>result new kss'. emit_pages s lev es ps = Inr (result, ps @ new)
    \<and> row rd (ps @ new) (Suc lev) result kss' \<and> concat kss' = concat kss
    \<and> (pages_fit rd s ps \<longrightarrow> pages_fit rd s (ps @ new)) \<and> (new = [] \<longleftrightarrow> es = [])"
  using assms
proof (induction es arbitrary: ps kss rule: length_induct)
  case (1 es)
  show ?case
  proof (cases "es = []")
    case True
    with "1.prems" show ?thesis
      by (auto simp: emit_pages.simps intro!: exI [of _ "[]"])
  next
    case False
    have ok: "\<forall>e \<in> set es. entry_ok rd s (length ps) lev e"
      using "1.prems" by (intro row_ok) auto
    then obtain chunk rest where f: "fill_page s lev PREFIX es = Inr (chunk, rest)" "es = chunk @ rest"
      "PREFIX + sum_list (map (entry_width s) chunk) \<le> CHECKSUM_START" "chunk \<noteq> []"
      using fill_page_Inr [OF ok, of PREFIX] entry_width_small [of rd s "length ps" lev "hd es"] False "1.prems"(4)
      by (auto simp: isam_consts)
    obtain ksc ksr where ks: "kss = ksc @ ksr" "row rd ps lev chunk ksc" "row rd ps lev rest ksr"
      using "1.prems"(1) f(2) by (auto simp: list_all2_append1)
    have srt: "sorted_keys (concat ksc)" "sorted_keys (concat ksr)"
      using "1.prems"(2) ks(1) by (simp_all add: sorted_wrt_append)
    let ?page = "\<lparr>plevel = lev, pentries = chunk\<rparr>"
    let ?entry = "\<lparr>pkey = pkey (last chunk), pvalue = Child (New (length ps))\<rparr>"
    have entry: "row_entry rd (ps @ [?page]) (Suc lev) ?entry (concat ksc)"
      using row_page [OF ks(2) f(4) srt(1)] .
    have page: "page_ok rd s (length ps) ?page"
      using f(2-4) ok "1.prems"(5) row_keys [OF ks(2) srt(1)] by (auto simp: page_ok_def)
    have len: "length rest < length es" using f(2,4) by simp
    have "records_ok (layout s) (concat ksr)" using "1.prems"(3) ks(1) by simp
    from "1.IH" [rule_format, OF len row_append [OF ks(3)] srt(2) this "1.prems"(4,5), of "[?page]"]
    obtain result new kss' where r:
      "emit_pages s lev rest (ps @ [?page]) = Inr (result, (ps @ [?page]) @ new)"
      "row rd ((ps @ [?page]) @ new) (Suc lev) result kss'" "concat kss' = concat ksr"
      "pages_fit rd s (ps @ [?page]) \<longrightarrow> pages_fit rd s ((ps @ [?page]) @ new)"
      by blast
    have "row_entry rd ((ps @ [?page]) @ new) (Suc lev) ?entry (concat ksc)"
      using row_append [of rd "ps @ [?page]" "Suc lev" "[?entry]" "[concat ksc]" new] entry by simp
    with r(2) have "row rd (ps @ ?page # new) (Suc lev) (?entry # result) (concat ksc # kss')"
      by simp
    moreover have "emit_pages s lev es ps = Inr (?entry # result, ps @ ?page # new)"
      using False f(1,4) r(1) by (subst emit_pages.simps) simp
    moreover have "pages_fit rd s ps \<longrightarrow> pages_fit rd s (ps @ ?page # new)"
      using r(4) page by (simp add: pages_fit_snoc)
    ultimately show ?thesis
      using False r(3) ks(1)
      by (intro exI [of _ "?entry # result"] exI [of _ "?page # new"] exI [of _ "concat ksc # kss'"]) simp
  qed
qed

section \<open>Planning a batch\<close>

text \<open>The outcome of planning mutations on the records of a subtree: the error of the mutations,
  or a row one level above the subtree with the mutated records.\<close>

definition planned ::
    "(nat \<Rightarrow> IsamError + Node) \<Rightarrow> Snapshot \<Rightarrow> PlannedPage list \<Rightarrow> nat \<Rightarrow> IsamError + (bytes \<times> bytes) list
      \<Rightarrow> IsamError + (PlannedEntry list \<times> PlannedPage list) \<Rightarrow> bool" where
  "planned rd s ps lev expected r \<longleftrightarrow>
    (case expected of
       Inl e \<Rightarrow> r = Inl e
     | Inr kvs \<Rightarrow> \<exists>result new kss. r = Inr (result, ps @ new) \<and> row rd (ps @ new) (Suc lev) result kss
         \<and> concat kss = kvs \<and> (pages_fit rd s ps \<longrightarrow> pages_fit rd s (ps @ new)) \<and> (new = [] \<longleftrightarrow> kvs = []))"

lemma sorted_apply:
  "apply_mutations ms kvs = Inr kvs' \<Longrightarrow> sorted_keys kvs \<Longrightarrow> sorted_keys kvs'"
  using apply_mutations_batch_map [of kvs ms] by simp

lemma row_singletons: "row rd ps 0 (map inline kvs) (map (\<lambda>p. [p]) kvs)"
  by (induction kvs) (auto simp: row_entry_def)

lemma change_leaf:
  assumes "level n = 0" "sorted_wrt (<) (map rkey (entries n))" "cache_ok h nb f s c"
    and "records_ok (layout s) (map kv (entries n))" "\<forall>m \<in> set ms. mutation_ok (layout s) m" "snapshot_ok s"
  shows "\<exists>r. runs h nb f s (change_batch h nb f s n ms ps c) r
    \<and> planned rd s ps 0 (apply_mutations ms (map kv (entries n))) r"
proof -
  let ?kvs = "map kv (entries n)"
  have fold: "fold (\<lambda>r records. btree_insert (rkey r) (rvalue r) records) (entries n) [] = ?kvs"
    using fold_btree_insert [of "entries n" "[]"] assms(2) by simp
  have srt: "sorted_keys ?kvs" using assms(2) by (simp add: comp_def)
  let ?r = "and_then (apply_mutations ms ?kvs) (\<lambda>records. emit_pages s 0 (map inline records) ps)"
  have "runs h nb f s (change_batch h nb f s n ms ps c) ?r"
    using assms(1,3) by (subst change_batch.simps) (simp add: fold runs_return case_prod_beta')
  moreover have "planned rd s ps 0 (apply_mutations ms ?kvs) ?r"
  proof (cases "apply_mutations ms ?kvs")
    case (Inr kvs')
    have c: "concat (map (\<lambda>p. [p]) kvs') = kvs'" by (induction kvs') auto
    have "\<exists>result new kss'. emit_pages s 0 (map inline kvs') ps = Inr (result, ps @ new)
      \<and> row rd (ps @ new) (Suc 0) result kss' \<and> concat kss' = concat (map (\<lambda>p. [p]) kvs')
      \<and> (pages_fit rd s ps \<longrightarrow> pages_fit rd s (ps @ new)) \<and> (new = [] \<longleftrightarrow> map inline kvs' = [])"
      by (rule emit_pages_row [OF row_singletons])
         (use sorted_apply [OF Inr srt] records_ok_apply [OF Inr assms(4,5)] assms(6) in \<open>simp_all add: c\<close>)
    then show ?thesis using Inr c by (simp add: planned_def)
  qed (simp add: planned_def)
  ultimately show ?thesis by blast
qed

lemma change_children_row:
  fixes h nb f s
  defines "rd \<equiv> read_node h f s"
  assumes IH: "\<And>m ks ms ps c. level m = l \<Longrightarrow> tree rd m ks \<Longrightarrow> cache_ok h nb f s c \<Longrightarrow> records_ok (layout s) ks
      \<Longrightarrow> \<forall>x \<in> set ms. mutation_ok (layout s) x \<Longrightarrow> sorted (map mutation_key ms)
      \<Longrightarrow> \<exists>r. runs h nb f s (change_batch h nb f s m ms ps c) r \<and> planned rd s ps l (apply_mutations ms ks) r"
    and "level n = Suc l" "entries n = pre @ es" "cache_ok h nb f s c" "records_ok (layout s) kvs"
    and "forest rd l (if pre = [] then None else Some (rkey (last pre))) es kvs"
    and "\<forall>x \<in> set ms. mutation_ok (layout s) x" "sorted (map mutation_key ms)" "es = [] \<longrightarrow> ms = []"
    and "row rd ps (Suc l) replacement kss0"
  shows "\<exists>r. runs h nb f s (change_children h nb f s n (length pre) ms replacement ps c) r
    \<and> (case apply_mutations ms kvs of
         Inl e \<Rightarrow> r = Inl e
       | Inr kvs' \<Rightarrow> \<exists>result new kss. r = Inr (replacement @ result, ps @ new)
           \<and> row rd (ps @ new) (Suc l) (replacement @ result) (kss0 @ kss) \<and> concat kss = kvs'
           \<and> (pages_fit rd s ps \<longrightarrow> pages_fit rd s (ps @ new)) \<and> (kvs' = [] \<longrightarrow> new = []))"
  using assms(3-)
proof (induction es arbitrary: pre c kvs ms replacement ps kss0)
  case Nil
  then have "ms = []" "kvs = []" by (auto elim: forest_NilE)
  with Nil show ?case
    by (subst change_children.simps)
       (auto simp: runs_return intro!: exI [of _ "Inr (replacement, ps)"] exI [of _ "[]"])
next
  case (Cons e es)
  let ?prev = "if pre = [] then None else Some (rkey (last pre))"
  from Cons.prems(5) obtain m ks rest where m: "kvs = ks @ rest" "rd (child_of e) = Inr m"
    "level m = l" "rkey (last (entries m)) = rkey e" "tree rd m ks"
    "above ?prev (fst (hd ks))" "forest rd l (Some (rkey e)) es rest"
    by (auto elim!: forest_ConsE)
  have cur: "entries n ! length pre = e" "length pre < length (entries n)"
    "length pre + 1 = length (entries n) \<longleftrightarrow> es = []"
    using Cons.prems(2) by auto
  define count where "count = (if length pre + 1 = length (entries n) then length ms
      else partition_point (\<lambda>m. mutation_key m \<le> rkey (entries n ! length pre)) ms)"
  have unfolded: "change_children h nb f s n (length pre) ms replacement ps c =
      (if count = 0 then
         change_children h nb f s n (Suc (length pre)) ms
           (replacement @ [\<lparr>pkey = rkey (entries n ! length pre),
              pvalue = Child (Existing (child_of (entries n ! length pre)))\<rparr>]) ps c
       else
         bind_step (read_child h nb f s n (length pre) c) (\<lambda>descendant c.
         bind_step (change_batch h nb f s descendant (take count ms) ps c)
           (\<lambda>(result, ps') c'.
             change_children h nb f s n (Suc (length pre)) (drop count ms)
               (replacement @ result) ps' c')))"
    unfolding count_def using cur(2) by (subst change_children.simps) (simp only: Let_def not_True_eq_False if_False)
  define ms1 ms2 where "ms1 = take count ms" and "ms2 = drop count ms"
  have ms: "ms = ms1 @ ms2" by (simp add: ms1_def ms2_def)
  have part: "partitioned (\<lambda>m. mutation_key m \<le> rkey e) ms"
    using Cons.prems(7) unfolding partitioned_def sorted_wrt_map
    by (auto elim!: sorted_wrt_mono_rel [rotated])
  have pp: "partition_point (\<lambda>m. mutation_key m \<le> rkey e) ms =
      length (takeWhile (\<lambda>m. mutation_key m \<le> rkey e) ms)"
    by (rule partition_point_eq [OF part])
  have last_case: "es = [] \<Longrightarrow> ms1 = ms \<and> ms2 = [] \<and> rest = []"
    using cur m(7) by (auto simp: ms1_def ms2_def count_def elim: forest_NilE)
  have other_case: "es \<noteq> [] \<Longrightarrow> (\<forall>x \<in> set ms1. mutation_key x \<le> rkey e) \<and> (\<forall>x \<in> set ms2. rkey e < mutation_key x)"
  proof -
    assume es: "es \<noteq> []"
    then have c: "count = length (takeWhile (\<lambda>m. mutation_key m \<le> rkey e) ms)"
      using cur pp by (simp add: count_def)
    have "ms1 = takeWhile (\<lambda>m. mutation_key m \<le> rkey e) ms" "ms2 = dropWhile (\<lambda>m. mutation_key m \<le> rkey e) ms"
      unfolding ms1_def ms2_def c by (simp_all add: takeWhile_eq_take [symmetric] dropWhile_eq_drop [symmetric])
    moreover have "rkey e < mutation_key x" if x: "x \<in> set (dropWhile (\<lambda>m. mutation_key m \<le> rkey e) ms)" for x
    proof -
      let ?d = "dropWhile (\<lambda>m. mutation_key m \<le> rkey e) ms"
      have "?d \<noteq> []" using x by (metis empty_iff list.set(1))
      then have "rkey e < mutation_key (hd ?d)"
        using hd_dropWhile [of "\<lambda>m. mutation_key m \<le> rkey e" ms] by (simp only: not_le not_False_eq_True)
      moreover have "sorted (map mutation_key ?d)"
        using Cons.prems(7) by (metis dropWhile_eq_drop drop_map sorted_wrt_drop)
      then have "mutation_key (hd ?d) \<le> mutation_key x" using x \<open>?d \<noteq> []\<close> by (cases ?d) auto
      ultimately show ?thesis by (rule less_le_trans)
    qed
    ultimately show ?thesis by (auto dest: set_takeWhileD)
  qed
  have ks_le: "\<forall>k \<in> fst ` set ks. k \<le> rkey e"
    using sorted_wrt_le_last [of "map fst ks"] tree_facts [OF m(5)] m(4) by (auto simp: last_map)
  have rest_gt: "\<forall>k \<in> fst ` set rest. rkey e < k"
    using forest_facts [OF m(7)] by (auto simp: above_def)
  have app: "apply_mutations ms kvs = and_then (apply_mutations ms1 ks)
      (\<lambda>ks'. and_then (apply_mutations ms2 rest) (\<lambda>rest'. Inr (ks' @ rest')))"
  proof (cases "es = []")
    case True
    then show ?thesis using last_case m(1) by (cases "apply_mutations ms ks") simp_all
  next
    case False
    show ?thesis
      unfolding m(1) ms using other_case [OF False] ks_le rest_gt by (intro apply_mutations_split) blast+
  qed
  have ks_ok: "records_ok (layout s) ks" "records_ok (layout s) rest" using Cons.prems(4) m(1) by simp_all
  have next_forest: "forest rd l (if pre @ [e] = [] then None else Some (rkey (last (pre @ [e])))) es rest"
    using m(7) by simp
  have ms2_ok: "\<forall>x \<in> set ms2. mutation_ok (layout s) x" "sorted (map mutation_key ms2)" "es = [] \<longrightarrow> ms2 = []"
    using Cons.prems(6,7) last_case by (auto simp: ms2_def sorted_wrt_drop drop_map [symmetric] dest: in_set_dropD)
  have ms1_ok: "\<forall>x \<in> set ms1. mutation_ok (layout s) x" "sorted (map mutation_key ms1)"
    using Cons.prems(6,7) by (auto simp: ms1_def sorted_wrt_take take_map [symmetric] dest: in_set_takeD)
  show ?case
  proof (cases "count = 0")
    case True
    then have ms1: "ms1 = []" by (simp add: ms1_def)
    let ?e = "\<lparr>pkey = rkey e, pvalue = Child (Existing (child_of e))\<rparr>"
    have "fst (last ks) = rkey e" using tree_facts [OF m(5)] m(4) by simp
    then have "row_entry rd ps (Suc l) ?e ks"
      using existing [OF m(2,3,5)] by (simp add: row_entry_def)
    then have row: "row rd ps (Suc l) (replacement @ [?e]) (kss0 @ [ks])"
      using Cons.prems(9) by (simp add: list_all2_appendI)
    from Cons.IH [OF Cons.prems(1) _ Cons.prems(3) ks_ok(2) next_forest ms2_ok row] Cons.prems(2)
    obtain r where r: "runs h nb f s (change_children h nb f s n (length (pre @ [e])) ms2 (replacement @ [?e]) ps c) r"
      "case apply_mutations ms2 rest of Inl e \<Rightarrow> r = Inl e
       | Inr kvs' \<Rightarrow> \<exists>result new kss. r = Inr ((replacement @ [?e]) @ result, ps @ new)
           \<and> row rd (ps @ new) (Suc l) ((replacement @ [?e]) @ result) ((kss0 @ [ks]) @ kss) \<and> concat kss = kvs'
           \<and> (pages_fit rd s ps \<longrightarrow> pages_fit rd s (ps @ new)) \<and> (kvs' = [] \<longrightarrow> new = [])"
      by auto
    have "runs h nb f s (change_children h nb f s n (length pre) ms replacement ps c) r"
      unfolding unfolded using r(1) True cur(1) ms ms1 by simp
    moreover have "case apply_mutations ms kvs of Inl e \<Rightarrow> r = Inl e
       | Inr kvs' \<Rightarrow> \<exists>result new kss. r = Inr (replacement @ result, ps @ new)
           \<and> row rd (ps @ new) (Suc l) (replacement @ result) (kss0 @ kss) \<and> concat kss = kvs'
           \<and> (pages_fit rd s ps \<longrightarrow> pages_fit rd s (ps @ new)) \<and> (kvs' = [] \<longrightarrow> new = [])"
    proof (cases "apply_mutations ms2 rest")
      case (Inl e)
      then show ?thesis using r(2) app ms1 by simp
    next
      case (Inr rest')
      with r(2) obtain result new kss where
        "r = Inr ((replacement @ [?e]) @ result, ps @ new)"
        "row rd (ps @ new) (Suc l) ((replacement @ [?e]) @ result) ((kss0 @ [ks]) @ kss)" "concat kss = rest'"
        "pages_fit rd s ps \<longrightarrow> pages_fit rd s (ps @ new)" "rest' = [] \<longrightarrow> new = []"
        by auto
      then show ?thesis
        using Inr app ms1
        by (auto intro!: exI [of _ "?e # result"] exI [of _ new] exI [of _ "ks # kss"])
    qed
    ultimately show ?thesis by blast
  next
    case False
    obtain c1 where c1: "read_child h nb f s n (length pre) c = Some (Inr m, c1)" "cache_ok h nb f s c1"
      using read_child_runs [OF Cons.prems(3,2,1) m(2) [unfolded rd_def] m(3,4) m(5,6) [unfolded rd_def]]
      by (auto simp: runs_def)
    from IH [OF m(3,5) c1(2) ks_ok(1) ms1_ok, of ps] obtain r1 c2 where
      r1: "change_batch h nb f s m ms1 ps c1 = Some (r1, c2)" "cache_ok h nb f s c2"
        "planned rd s ps l (apply_mutations ms1 ks) r1"
      by (auto simp: runs_def)
    have step: "change_children h nb f s n (length pre) ms replacement ps c =
        bind_step (Some (r1, c2)) (\<lambda>(result, ps') c'.
          change_children h nb f s n (Suc (length pre)) ms2 (replacement @ result) ps' c')"
      unfolding unfolded ms2_def using False c1(1) r1(1) by (simp add: bind_step_def ms1_def)
    show ?thesis
    proof (cases "apply_mutations ms1 ks")
      case (Inl e)
      then have "r1 = Inl e" using r1(3) by (simp add: planned_def)
      then have "runs h nb f s (change_children h nb f s n (length pre) ms replacement ps c) (Inl e)"
        unfolding step using r1(2) by (simp add: bind_step_def runs_def)
      then show ?thesis using Inl app by auto
    next
      case (Inr ks')
      then obtain res1 new1 kss1 where p1: "r1 = Inr (res1, ps @ new1)" "row rd (ps @ new1) (Suc l) res1 kss1"
        "concat kss1 = ks'" "pages_fit rd s ps \<longrightarrow> pages_fit rd s (ps @ new1)" "new1 = [] \<longleftrightarrow> ks' = []"
        using r1(3) by (auto simp: planned_def)
      have row: "row rd (ps @ new1) (Suc l) (replacement @ res1) (kss0 @ kss1)"
        using row_append [OF Cons.prems(9)] p1(2) by (rule list_all2_appendI)
      from Cons.IH [OF Cons.prems(1) _ r1(2) ks_ok(2) next_forest ms2_ok row] Cons.prems(2)
      obtain r where r: "runs h nb f s (change_children h nb f s n (length (pre @ [e])) ms2 (replacement @ res1) (ps @ new1) c2) r"
        "case apply_mutations ms2 rest of Inl e \<Rightarrow> r = Inl e
         | Inr kvs' \<Rightarrow> \<exists>result new kss. r = Inr ((replacement @ res1) @ result, (ps @ new1) @ new)
             \<and> row rd ((ps @ new1) @ new) (Suc l) ((replacement @ res1) @ result) ((kss0 @ kss1) @ kss) \<and> concat kss = kvs'
             \<and> (pages_fit rd s (ps @ new1) \<longrightarrow> pages_fit rd s ((ps @ new1) @ new)) \<and> (kvs' = [] \<longrightarrow> new = [])"
        by auto
      have "runs h nb f s (change_children h nb f s n (length pre) ms replacement ps c) r"
        unfolding step using r(1) p1(1) by (simp add: bind_step_def)
      moreover have "case apply_mutations ms kvs of Inl e \<Rightarrow> r = Inl e
         | Inr kvs' \<Rightarrow> \<exists>result new kss. r = Inr (replacement @ result, ps @ new)
             \<and> row rd (ps @ new) (Suc l) (replacement @ result) (kss0 @ kss) \<and> concat kss = kvs'
             \<and> (pages_fit rd s ps \<longrightarrow> pages_fit rd s (ps @ new)) \<and> (kvs' = [] \<longrightarrow> new = [])"
      proof (cases "apply_mutations ms2 rest")
        case (Inl e)
        then show ?thesis using r(2) app Inr by simp
      next
        case r2: (Inr rest')
        with r(2) obtain result new kss where
          "r = Inr ((replacement @ res1) @ result, (ps @ new1) @ new)"
          "row rd ((ps @ new1) @ new) (Suc l) ((replacement @ res1) @ result) ((kss0 @ kss1) @ kss)" "concat kss = rest'"
          "pages_fit rd s (ps @ new1) \<longrightarrow> pages_fit rd s ((ps @ new1) @ new)" "rest' = [] \<longrightarrow> new = []"
          by auto
        then show ?thesis
          using Inr app r2 p1
          by (auto intro!: exI [of _ "res1 @ result"] exI [of _ "new1 @ new"] exI [of _ "kss1 @ kss"])
      qed
      ultimately show ?thesis by blast
    qed
  qed
qed

lemma change_batch_row:
  assumes "tree (read_node h f s) n kvs" "cache_ok h nb f s c" "records_ok (layout s) kvs"
    "\<forall>x \<in> set ms. mutation_ok (layout s) x" "sorted (map mutation_key ms)" "snapshot_ok s" "level n \<le> MAX_LEVEL"
  shows "\<exists>r. runs h nb f s (change_batch h nb f s n ms ps c) r
    \<and> planned (read_node h f s) s ps (level n) (apply_mutations ms kvs) r"
  using assms
proof (induction "level n" arbitrary: n kvs ms ps c)
  case 0
  from 0(2) have "kvs = map kv (entries n)" "sorted_wrt (<) (map rkey (entries n))"
    using 0(1) by (auto elim: tree_leafE)
  then show ?case using change_leaf [of n h nb f s c ms ps "read_node h f s"] 0 by simp
next
  case (Suc l)
  let ?rd = "read_node h f s"
  from Suc.prems(1) Suc.hyps(2) have fr: "forest ?rd l None (entries n) kvs" "entries n \<noteq> []"
    by (auto elim: tree_leafE)
  have srt: "sorted_keys kvs" using tree_facts [OF Suc.prems(1)] by simp
  have "\<exists>r. runs h nb f s (change_children h nb f s n (length ([] :: Record list)) ms [] ps c) r
    \<and> (case apply_mutations ms kvs of
         Inl e \<Rightarrow> r = Inl e
       | Inr kvs' \<Rightarrow> \<exists>result new kss. r = Inr ([] @ result, ps @ new)
           \<and> row ?rd (ps @ new) (Suc l) ([] @ result) ([] @ kss) \<and> concat kss = kvs'
           \<and> (pages_fit ?rd s ps \<longrightarrow> pages_fit ?rd s (ps @ new)) \<and> (kvs' = [] \<longrightarrow> new = []))"
  proof (rule change_children_row [where l = l and es = "entries n"])
    show "\<exists>r. runs h nb f s (change_batch h nb f s m ms ps c) r \<and> planned ?rd s ps l (apply_mutations ms ks) r"
      if "level m = l" "tree ?rd m ks" "cache_ok h nb f s c" "records_ok (layout s) ks"
        "\<forall>x \<in> set ms. mutation_ok (layout s) x" "sorted (map mutation_key ms)" for m ks ms ps c
      using Suc.hyps(1) [of m ks c ms ps] Suc.hyps(2) Suc.prems(6,7) that by simp
  qed (use Suc fr in auto)
  then obtain r c1 where r: "change_children h nb f s n 0 ms [] ps c = Some (r, c1)" "cache_ok h nb f s c1"
    and post: "case apply_mutations ms kvs of
         Inl e \<Rightarrow> r = Inl e
       | Inr kvs' \<Rightarrow> \<exists>result new kss. r = Inr (result, ps @ new)
           \<and> row ?rd (ps @ new) (Suc l) result kss \<and> concat kss = kvs'
           \<and> (pages_fit ?rd s ps \<longrightarrow> pages_fit ?rd s (ps @ new)) \<and> (kvs' = [] \<longrightarrow> new = [])"
    unfolding append_Nil list.size(3) runs_def by blast
  have step: "change_batch h nb f s n ms ps c =
      bind_step (Some (r, c1)) (\<lambda>(replacement, ps') c. Some (emit_pages s (Suc l) replacement ps', c))"
    using Suc.hyps(2) r(1) by (subst change_batch.simps) simp
  show ?case
  proof (cases "apply_mutations ms kvs")
    case (Inl e)
    then show ?thesis
      unfolding step using post r(2) by (simp add: planned_def bind_step_def runs_def)
  next
    case (Inr kvs')
    with post obtain result new kss where p: "r = Inr (result, ps @ new)"
      "row ?rd (ps @ new) (Suc l) result kss" "concat kss = kvs'"
      "pages_fit ?rd s ps \<longrightarrow> pages_fit ?rd s (ps @ new)" "kvs' = [] \<longrightarrow> new = []"
      by auto
    have "\<exists>result' new' kss'. emit_pages s (Suc l) result (ps @ new) = Inr (result', (ps @ new) @ new')
      \<and> row ?rd ((ps @ new) @ new') (Suc (Suc l)) result' kss' \<and> concat kss' = concat kss
      \<and> (pages_fit ?rd s (ps @ new) \<longrightarrow> pages_fit ?rd s ((ps @ new) @ new')) \<and> (new' = [] \<longleftrightarrow> result = [])"
      by (rule emit_pages_row [OF p(2)])
         (use p(3) Suc.hyps(2) Suc.prems(6,7) sorted_apply [OF Inr srt] records_ok_apply [OF Inr Suc.prems(3,4)]
          in simp_all)
    then obtain result' new' kss' where e: "emit_pages s (Suc l) result (ps @ new) = Inr (result', (ps @ new) @ new')"
      "row ?rd ((ps @ new) @ new') (Suc (Suc l)) result' kss'" "concat kss' = concat kss"
      "pages_fit ?rd s (ps @ new) \<longrightarrow> pages_fit ?rd s ((ps @ new) @ new')" "new' = [] \<longleftrightarrow> result = []"
      by blast
    have "new @ new' = [] \<longleftrightarrow> kvs' = []"
      using e(5) p(3,5) row_concat_empty [OF p(2)] by auto
    then have "planned ?rd s ps (level n) (apply_mutations ms kvs) (emit_pages s (Suc l) result (ps @ new))"
      unfolding planned_def Inr sum.case
      using e p Suc.hyps(2) by (intro exI [of _ result'] exI [of _ "new @ new'"] exI [of _ kss']) auto
    then show ?thesis
      unfolding step using p(1) r(2) by (auto simp: bind_step_def runs_def)
  qed
qed

text \<open>Records read from the file are within the bounds of its layout.\<close>

lemma read_value_bounds:
  "read_value s lev offset bs start = Inr (v, entry_end) \<Longrightarrow>
    lev = 0 \<longrightarrow> length v \<le> max_value_bytes (layout s)"
  using length_sub_slice_le [of bs "start + key_bytes (layout s) + 2"
      "start + key_bytes (layout s) + 2 + u16_at bs (start + key_bytes (layout s))"]
  by (auto simp: read_value_def Let_def split: if_splits)

lemma read_entries_bounds:
  assumes "read_entries s lev offset bs n start previous = Inr (es, final)" "length bs = PAGE_BYTES"
  shows "\<forall>e \<in> set es. length (rkey e) = key_bytes (layout s)
    \<and> (lev = 0 \<longrightarrow> length (rvalue e) \<le> max_value_bytes (layout s))"
  using assms(1)
proof (induction n arbitrary: start previous es final)
  case (Suc n)
  let ?kb = "key_bytes (layout s)"
  let ?mw = "if packed_leaf s lev then ?kb + 2 else stride (layout s) lev"
  from Suc.prems obtain v entry_end rest where
    fits: "\<not> start + ?mw > CHECKSUM_START" and v: "read_value s lev offset bs start = Inr (v, entry_end)"
    and r: "read_entries s lev offset bs n entry_end (Some (sub_slice bs start (start + ?kb))) = Inr (rest, final)"
      "es = \<lparr>rkey = sub_slice bs start (start + ?kb), rvalue = v\<rparr> # rest"
    by (auto simp: result_simps Let_def split: if_splits)
  have "start + ?kb \<le> length bs"
    using fits assms(2) by (auto simp: isam_consts stride_def split: if_splits)
  then have "length (sub_slice bs start (start + ?kb)) = ?kb" by simp
  with read_value_bounds [OF v] show ?case using Suc.IH [OF r(1)] r(2) by simp
qed simp

lemma read_node_bounds:
  assumes "read_node h f s offset = Inr n"
  shows "\<forall>e \<in> set (entries n). length (rkey e) = key_bytes (layout s)
    \<and> (level n = 0 \<longrightarrow> length (rvalue e) \<le> max_value_bytes (layout s))"
proof -
  obtain bs where p: "parse_page h s offset bs = Inr n" and len: "length bs = PAGE_BYTES"
    using assms read_exact_at_Inr_length by (fastforce simp: read_node_def split: if_splits sum.splits)
  then obtain final where
    "read_entries s (unat (bs ! 24)) offset bs (u16_at bs 26) PREFIX None = Inr (entries n, final)"
    and "level n = unat (bs ! 24)"
    by (auto simp: parse_page_def Let_def result_simps split: if_splits)
  with read_entries_bounds [OF _ len] show ?thesis by simp
qed

lemma tree_records_ok:
  "tree rd n kvs \<Longrightarrow> rd = read_node h f s \<Longrightarrow> \<exists>offset. rd offset = Inr n \<Longrightarrow> records_ok (layout s) kvs"
  "forest rd l previous es kvs \<Longrightarrow> rd = read_node h f s \<Longrightarrow> records_ok (layout s) kvs"
proof (induction rule: tree_forest.inducts)
  case (leaf n)
  then show ?case using read_node_bounds [of h f s _ n] by (auto simp: records_ok_def)
qed auto

section \<open>The plan of a batch\<close>

lemma grow_root_row:
  assumes "row rd ps (Suc lev) changed kss" "sorted_keys (concat kss)" "records_ok (layout s) (concat kss)"
    "snapshot_ok s" "lev \<le> MAX_LEVEL" "pages_fit rd s ps"
  shows "grow_root s lev changed ps = Inl Invalid \<or>
    (\<exists>changed' new kss' lev'. grow_root s lev changed ps = Inr (changed', ps @ new) \<and> length changed' \<le> 1
      \<and> row rd (ps @ new) (Suc lev') changed' kss' \<and> concat kss' = concat kss \<and> pages_fit rd s (ps @ new)
      \<and> lev' \<le> MAX_LEVEL \<and> (length changed \<le> 1 \<longrightarrow> new = []))"
  using assms
proof (induction "MAX_LEVEL - lev" arbitrary: lev changed ps kss)
  case 0
  show ?case
  proof (cases "length changed > 1")
    case True
    with 0 show ?thesis by (subst grow_root.simps) simp
  next
    case False
    then have "grow_root s lev changed ps = Inr (changed, ps @ [])" by (subst grow_root.simps) simp
    with False 0 show ?thesis by (intro disjI2 exI [of _ changed] exI [of _ "[]"] exI [of _ kss] exI [of _ lev]) auto
  qed
next
  case (Suc d)
  show ?case
  proof (cases "length changed > 1")
    case False
    then have "grow_root s lev changed ps = Inr (changed, ps @ [])" by (subst grow_root.simps) simp
    with False Suc.prems show ?thesis
      by (intro disjI2 exI [of _ changed] exI [of _ "[]"] exI [of _ kss] exI [of _ lev]) auto
  next
    case True
    have lev: "lev + 1 \<le> MAX_LEVEL" using Suc.hyps(2) by simp
    from emit_pages_row [of rd ps "Suc lev" changed kss s] Suc.prems lev obtain result new kss' where e:
      "emit_pages s (Suc lev) changed ps = Inr (result, ps @ new)"
      "row rd (ps @ new) (Suc (Suc lev)) result kss'" "concat kss' = concat kss" "pages_fit rd s (ps @ new)"
      by auto
    have g: "grow_root s lev changed ps = grow_root s (Suc lev) result (ps @ new)"
      using True lev e(1) by (subst grow_root.simps) simp
    have "d = MAX_LEVEL - Suc lev" using Suc.hyps(2) by simp
    from Suc.hyps(1) [OF this e(2)] Suc.prems lev e
    consider "grow_root s (Suc lev) result (ps @ new) = Inl Invalid"
      | changed' new' kss'' lev' where
        "grow_root s (Suc lev) result (ps @ new) = Inr (changed', (ps @ new) @ new')" "length changed' \<le> 1"
        "row rd ((ps @ new) @ new') (Suc lev') changed' kss''" "concat kss'' = concat kss'"
        "pages_fit rd s ((ps @ new) @ new')" "lev' \<le> MAX_LEVEL"
      by auto
    then show ?thesis
    proof cases
      case 1
      then show ?thesis using g by simp
    next
      case 2
      then show ?thesis
        using g e(3) True by (intro disjI2 exI [of _ changed'] exI [of _ "new @ new'"] exI [of _ kss''] exI [of _ lev']) auto
    qed
  qed
qed

text \<open>What a plan promises: its pages fit, and its root leads to the records.\<close>

definition plan_ok :: "(nat \<Rightarrow> IsamError + Node) \<Rightarrow> Snapshot \<Rightarrow> BatchPlan \<Rightarrow> (bytes \<times> bytes) list \<Rightarrow> bool" where
  "plan_ok rd s plan kvs \<longleftrightarrow> pages_fit rd s (plan_pages plan)
    \<and> (if kvs = [] then plan_pages plan = [] \<and> plan_root plan = None
       else plan_pages plan \<noteq> [] \<and> (\<exists>r l. plan_root plan = Some r \<and> ptree rd (plan_pages plan) l r kvs))"

lemma prepare_batch_plan:
  assumes stored: "stored h f s kvs" and c: "cache_ok h nb f s c" and ok: "snapshot_ok s"
    and ms: "\<forall>m \<in> set ms. mutation_ok (layout s) m"
  shows "case apply_mutations (sort_key mutation_key ms) kvs of
      Inl e \<Rightarrow> runs h nb f s (prepare_batch h nb f s ms c) (Inl e)
    | Inr kvs' \<Rightarrow> runs h nb f s (prepare_batch h nb f s ms c) (Inl Invalid)
        \<or> (\<exists>plan. runs h nb f s (prepare_batch h nb f s ms c) (Inr plan) \<and> plan_ok (read_node h f s) s plan kvs')"
proof -
  let ?rd = "read_node h f s" and ?ms = "sort_key mutation_key ms"
  have ms': "\<forall>m \<in> set ?ms. mutation_ok (layout s) m" "sorted (map mutation_key ?ms)"
    using ms by simp_all
  define node_step where "node_step = (if root s = 0 then Some (Inr \<lparr>level = 0, entries = []\<rparr>, c)
       else cached_node h nb f s (root s) c)"
  obtain node c1 where n: "node_step = Some (Inr node, c1)" "cache_ok h nb f s c1" "level node \<le> MAX_LEVEL"
    "records_ok (layout s) kvs" "sorted_keys kvs"
    and change: "\<exists>r. runs h nb f s (change_batch h nb f s node ?ms [] c1) r
      \<and> planned ?rd s [] (level node) (apply_mutations ?ms kvs) r"
  proof (cases "root s = 0")
    case True
    then have "kvs = []" using stored by (simp add: stored_def)
    then show thesis
      using that [of "\<lparr>level = 0, entries = []\<rparr>" c] True c
        change_leaf [of "\<lparr>level = 0, entries = []\<rparr>" h nb f s c ?ms "[]" ?rd] ms'(1) ok
      by (simp add: node_step_def)
  next
    case False
    with stored obtain node where node: "?rd (root s) = Inr node" "tree ?rd node kvs"
      by (auto simp: stored_def)
    obtain c1 where c1: "cached_node h nb f s (root s) c = Some (Inr node, c1)" "cache_ok h nb f s c1"
      using cached_node_runs [OF c, of "root s"] node(1) by (auto simp: runs_def)
    have r: "records_ok (layout s) kvs" using tree_records_ok(1) [OF node(2)] node(1) by blast
    show thesis
      using that [of node c1] False c1 r read_node_sane(3) [OF node(1)] tree_facts [OF node(2)]
        change_batch_row [OF node(2) c1(2) r ms' ok read_node_sane(3) [OF node(1)], of "[]"]
      by (simp add: node_step_def)
  qed
  from change obtain r c2 where r: "change_batch h nb f s node ?ms [] c1 = Some (r, c2)" "cache_ok h nb f s c2"
    "planned ?rd s [] (level node) (apply_mutations ?ms kvs) r"
    by (auto simp: runs_def)
  have step: "prepare_batch h nb f s ms c = bind_step (Some (r, c2)) (\<lambda>(changed, ps) c'.
        case grow_root s (level node) changed ps of
          Inl e \<Rightarrow> Some (Inl e, c')
        | Inr (changed', ps') \<Rightarrow>
            (case changed' of
               [] \<Rightarrow> Some (Inr \<lparr>plan_pages = ps', plan_root = None\<rparr>, c')
             | e # _ \<Rightarrow>
                 (case pvalue e of
                    Child reference \<Rightarrow> Some (Inr \<lparr>plan_pages = ps', plan_root = Some reference\<rparr>, c')
                  | Inline _ \<Rightarrow> None)))"
    unfolding prepare_batch_def node_step_def [symmetric] n(1) using r(1) by (simp add: bind_step_def)
  show ?thesis
  proof (cases "apply_mutations ?ms kvs")
    case (Inl e)
    then have "runs h nb f s (prepare_batch h nb f s ms c) (Inl e)"
      unfolding step using r(2,3) by (simp add: planned_def bind_step_def runs_def)
    then show ?thesis using Inl by simp
  next
    case (Inr kvs')
    then obtain result new kss where p: "r = Inr (result, new)" "row ?rd new (Suc (level node)) result kss"
      "concat kss = kvs'" "pages_fit ?rd s new" "new = [] \<longleftrightarrow> kvs' = []"
      using r(3) by (auto simp: planned_def pages_fit_def)
    have srt: "sorted_keys (concat kss)" "records_ok (layout s) (concat kss)"
      using sorted_apply [OF Inr n(5)] records_ok_apply [OF Inr n(4) ms'(1)] p(3) by simp_all
    from grow_root_row [OF p(2) srt ok n(3) p(4)]
    consider "grow_root s (level node) result new = Inl Invalid"
      | changed' new' kss' lev' where
        "grow_root s (level node) result new = Inr (changed', new @ new')" "length changed' \<le> 1"
        "row ?rd (new @ new') (Suc lev') changed' kss'" "concat kss' = concat kss" "pages_fit ?rd s (new @ new')"
        "length result \<le> 1 \<longrightarrow> new' = []"
      by blast
    then show ?thesis
    proof cases
      case 1
      then have "runs h nb f s (prepare_batch h nb f s ms c) (Inl Invalid)"
        unfolding step using p(1) r(2) by (simp add: bind_step_def runs_def)
      then show ?thesis using Inr by simp
    next
      case 2
      show ?thesis
      proof (cases changed')
        case Nil
        then have e: "kvs' = []" using 2(3,4) p(3) by simp
        then have "result = []" using row_concat_empty [OF p(2)] p(3) by simp
        then have "new @ new' = []" using 2(6) p(5) e by simp
        moreover have "runs h nb f s (prepare_batch h nb f s ms c) (Inr \<lparr>plan_pages = new @ new', plan_root = None\<rparr>)"
          unfolding step using p(1) r(2) 2(1) Nil by (simp add: bind_step_def runs_def)
        ultimately show ?thesis using Inr e by (auto simp: plan_ok_def pages_fit_def)
      next
        case (Cons x xs)
        with 2(2) have x: "changed' = [x]" by simp
        with 2(3) obtain ks where ks: "kss' = [ks]" "row_entry ?rd (new @ new') (Suc lev') x ks"
          by (auto simp: list_all2_Cons1)
        then obtain ref where ref: "pvalue x = Child ref" "ptree ?rd (new @ new') lev' ref ks"
          by (auto simp: row_entry_def)
        have kvs': "kvs' = ks" using ks(1) 2(4) p(3) by simp
        have ne: "kvs' \<noteq> []" using ptree_nonempty [OF ref(2)] kvs' by simp
        then have "new @ new' \<noteq> []" using p(5) by simp
        with ne ref kvs' have "plan_ok ?rd s \<lparr>plan_pages = new @ new', plan_root = Some ref\<rparr> kvs'"
          using 2(5) by (auto simp: plan_ok_def)
        moreover have "runs h nb f s (prepare_batch h nb f s ms c) (Inr \<lparr>plan_pages = new @ new', plan_root = Some ref\<rparr>)"
          unfolding step using p(1) r(2) 2(1) x ref(1) by (simp add: bind_step_def runs_def)
        ultimately show ?thesis using Inr by auto
      qed
    qed
  qed
qed

end
