(* ===== verification/Isam_Write.thy ===== *)
theory Isam_Write
  imports Isam_Plan
begin

text \<open>Writing a plan: the pages go behind the base snapshot, so every snapshot that was readable
  before keeps its records, and the new snapshot holds the records of the plan.\<close>

section \<open>Later snapshots see the pages of earlier ones\<close>

lemma read_entries_cong:
  "layout s' = layout s \<Longrightarrow> format_version s' = format_version s \<Longrightarrow>
    read_entries s' lev offset bs n start previous = read_entries s lev offset bs n start previous"
proof (induction n arbitrary: start previous)
  case (Suc n)
  have packed: "packed_leaf s' lev = packed_leaf s lev"
    using Suc.prems by (simp add: packed_leaf_def)
  have "read_value s' lev offset bs start = read_value s lev offset bs start"
    unfolding read_value_def packed Suc.prems ..
  with Suc packed show ?case by (simp only: read_entries.simps)
qed simp

lemma parse_page_mono:
  assumes "parse_page h s offset bs = Inr m" "layout s' = layout s" "format_version s' = format_version s"
    "generation s \<le> generation s'"
  shows "parse_page h s' offset bs = Inr m"
proof -
  have "page_magic s' = page_magic s" "capacity s' = capacity s"
    using assms(2,3) by (auto simp: page_magic_def capacity_def packed_leaf_def fun_eq_iff)
  with assms show ?thesis
    by (auto simp: parse_page_def Let_def read_entries_cong [OF assms(2,3)] split: if_splits)
qed

text \<open>\<open>extends s s'\<close>: the snapshot \<open>s'\<close> is of the same file, not older and not shorter.\<close>

definition extends :: "Snapshot \<Rightarrow> Snapshot \<Rightarrow> bool" where
  "extends s s' \<longleftrightarrow> layout s' = layout s \<and> format_version s' = format_version s
    \<and> generation s \<le> generation s' \<and> end_of s \<le> end_of s'"

definition same_pages :: "File \<Rightarrow> nat \<Rightarrow> File \<Rightarrow> bool" where
  "same_pages f stop f' \<longleftrightarrow>
    (\<forall>p. HEADER_BYTES \<le> p \<longrightarrow> p + PAGE_BYTES \<le> stop \<longrightarrow> (\<exists>bs. read_exact_at f PAGE_BYTES p = Inr bs) \<longrightarrow>
      read_exact_at f' PAGE_BYTES p = read_exact_at f PAGE_BYTES p)"

lemma read_node_mono:
  assumes "read_node h f s offset = Inr m" "extends s s'" "same_pages f (end_of s) f'" "end_of s mod PAGE_BYTES = 0"
  shows "read_node h f' s' offset = Inr m"
proof -
  obtain bs where b: "data_start (format_version s) \<le> offset" "offset < end_of s" "offset mod PAGE_BYTES = 0"
    "read_exact_at f PAGE_BYTES offset = Inr bs" "parse_page h s offset bs = Inr m"
    using assms(1) by (auto simp: read_node_def not_le split: if_splits sum.splits)
  have "offset + PAGE_BYTES \<le> end_of s"
  proof -
    from b(3) obtain a where a: "offset = PAGE_BYTES * a" by (auto simp: mod_eq_0_iff_dvd elim: dvdE)
    from assms(4) obtain e where e: "end_of s = PAGE_BYTES * e" by (auto simp: mod_eq_0_iff_dvd elim: dvdE)
    from b(2) have "a < e" unfolding a e by (simp add: isam_consts)
    then have "PAGE_BYTES * (a + 1) \<le> PAGE_BYTES * e" by (intro mult_le_mono2) simp
    then show ?thesis unfolding a e by simp
  qed
  moreover have "HEADER_BYTES \<le> offset"
    using b(1) by (simp add: data_start_def split: if_splits)
  ultimately have "read_exact_at f' PAGE_BYTES offset = Inr bs"
    using assms(3) b(4) by (auto simp: same_pages_def)
  then show ?thesis
    using assms(2) b parse_page_mono [OF b(5)] by (simp add: read_node_def extends_def)
qed

lemma tree_mono:
  "tree rd n kvs \<Longrightarrow> (\<And>offset m. rd offset = Inr m \<Longrightarrow> rd' offset = Inr m) \<Longrightarrow> tree rd' n kvs"
  "forest rd l previous es kvs \<Longrightarrow> (\<And>offset m. rd offset = Inr m \<Longrightarrow> rd' offset = Inr m) \<Longrightarrow> forest rd' l previous es kvs"
  by (induction rule: tree_forest.inducts) (auto intro: tree_forest.intros)

text \<open>A snapshot keeps its records in every file that keeps its pages.\<close>

lemma stored_mono:
  assumes "stored h f s kvs" "same_pages f (end_of s) f'" "end_of s mod PAGE_BYTES = 0"
  shows "stored h f' s kvs"
proof -
  have "extends s s" by (simp add: extends_def)
  note mono = read_node_mono [OF _ this assms(2,3)]
  show ?thesis
    using assms(1) mono tree_mono(1) [where rd = "read_node h f s" and rd' = "read_node h f' s"]
    by (auto simp: stored_def split: if_splits)
qed

section \<open>Writing a plan\<close>

lemma write_pages_file:
  assumes "sorted_wrt (\<lambda>a b. fst a + PAGE_BYTES \<le> fst b) xs"
    "\<forall>(off, p) \<in> set xs. \<exists>bs. put_entries next offsets (plevel p) PREFIX (pentries p) (page_header next off p) = Inr bs
      \<and> length (seal h bs) = PAGE_BYTES"
  shows "\<exists>f'. write_pages h next offsets xs f = (Inr (), f') \<and> io_fails f' = io_fails f
    \<and> length (file_bytes f) \<le> length (file_bytes f')
    \<and> (\<forall>(off, p) \<in> set xs. \<forall>bs. put_entries next offsets (plevel p) PREFIX (pentries p) (page_header next off p) = Inr bs
        \<longrightarrow> \<not> io_fails f off \<longrightarrow> read_exact_at f' PAGE_BYTES off = Inr (seal h bs))
    \<and> (\<forall>q n. (\<forall>(off, p) \<in> set xs. q + n \<le> off) \<longrightarrow> q + n \<le> length (file_bytes f)
        \<longrightarrow> read_exact_at f' n q = read_exact_at f n q)"
  using assms
proof (induction xs arbitrary: f)
  case (Cons x xs)
  obtain off p where x: "x = (off, p)" by force
  from Cons.prems(2) x obtain bs where bs:
    "put_entries next offsets (plevel p) PREFIX (pentries p) (page_header next off p) = Inr bs"
    "length (seal h bs) = PAGE_BYTES"
    by auto
  let ?f1 = "write_all_at f (seal h bs) off"
  from Cons.IH [of ?f1] Cons.prems obtain f' where f': "write_pages h next offsets xs ?f1 = (Inr (), f')"
    "io_fails f' = io_fails ?f1" "length (file_bytes ?f1) \<le> length (file_bytes f')"
    "\<forall>(off, p) \<in> set xs. \<forall>bs. put_entries next offsets (plevel p) PREFIX (pentries p) (page_header next off p) = Inr bs
        \<longrightarrow> \<not> io_fails ?f1 off \<longrightarrow> read_exact_at f' PAGE_BYTES off = Inr (seal h bs)"
    "\<forall>q n. (\<forall>(off, p) \<in> set xs. q + n \<le> off) \<longrightarrow> q + n \<le> length (file_bytes ?f1)
        \<longrightarrow> read_exact_at f' n q = read_exact_at ?f1 n q"
    by auto
  have below: "\<forall>(off', p') \<in> set xs. off + PAGE_BYTES \<le> off'"
    using Cons.prems(1) x by auto
  have head: "read_exact_at f' PAGE_BYTES off = Inr (seal h bs)" if "\<not> io_fails f off"
    using f'(5) [rule_format, of off PAGE_BYTES] below bs(2) that by simp
  have old: "read_exact_at f' n q = read_exact_at f n q"
    if "\<forall>(off', p') \<in> set (x # xs). q + n \<le> off'" "q + n \<le> length (file_bytes f)" for q n
  proof -
    have "read_exact_at f' n q = read_exact_at ?f1 n q"
      using f'(5) that by auto
    also have "\<dots> = read_exact_at f n q"
      using that x by (intro read_write_other) auto
    finally show ?thesis .
  qed
  have "write_pages h next offsets (x # xs) f = (Inr (), f')"
    using x bs(1) f'(1) by simp
  with f' head old bs x show ?case by auto
qed simp

lemma child_of_resolve:
  "pvalue e = Child r \<Longrightarrow> ref_offset offsets r < 2 ^ 64 \<Longrightarrow> child_of (resolve offsets e) = ref_offset offsets r"
  by (simp add: child_of_def resolve_def u64_at_def slice_simps le_nat_le_bytes)

lemma rkey_resolve [simp]: "rkey (resolve offsets e) = pkey e"
  by (simp add: resolve_def)

lemma row_forest:
  assumes "list_all2 (\<lambda>e ks. \<exists>r. pvalue e = Child r \<and> pkey e = fst (last ks)
      \<and> (\<exists>m. rd' (ref_offset offsets r) = Inr m \<and> level m = l \<and> tree rd' m ks)) es kss"
    and "sorted_keys (concat kss)" "\<forall>k \<in> fst ` set (concat kss). above previous k"
    and small: "\<And>off m. rd' off = Inr m \<Longrightarrow> off < 2 ^ 64"
  shows "forest rd' l previous (map (resolve offsets) es) (concat kss)"
  using assms(1-3)
proof (induction arbitrary: previous rule: list_all2_induct)
  case Nil
  then show ?case by (simp add: forest_Nil)
next
  case (Cons e es ks kss)
  then obtain r m where m: "pvalue e = Child r" "pkey e = fst (last ks)" "rd' (ref_offset offsets r) = Inr m"
    "level m = l" "tree rd' m ks"
    by blast
  have ks: "ks \<noteq> []" "fst (last ks) = rkey (last (entries m))" using tree_facts [OF m(5)] by simp_all
  have "forest rd' l (Some (rkey (resolve offsets e))) (map (resolve offsets) es) (concat kss)"
  proof (rule Cons.IH)
    show "sorted_keys (concat kss)" using Cons.prems by (simp add: sorted_wrt_append)
    have "fst (last ks) \<in> set (map fst ks)" using ks(1) by simp
    then show "\<forall>k \<in> fst ` set (concat kss). above (Some (rkey (resolve offsets e))) k"
      using Cons.prems(1) m(2) by (fastforce simp: sorted_wrt_append above_def)
  qed
  moreover have "above previous (fst (hd ks))" using Cons.prems(2) ks(1) by simp
  ultimately have "forest rd' l previous (resolve offsets e # map (resolve offsets) es) (ks @ concat kss)"
    using m ks child_of_resolve [OF m(1) small [OF m(3)]] by (intro forest_Cons [of rd' _ m]) simp_all
  then show ?case by simp
qed

lemma ptree_tree:
  assumes "ptree rd qs l r kvs" "qs = take j ps"
    and ext: "\<And>off m. rd off = Inr m \<Longrightarrow> rd' off = Inr m" and small: "\<And>off m. rd' off = Inr m \<Longrightarrow> off < 2 ^ 64"
    and new: "\<And>i. i < length ps \<Longrightarrow> rd' (offsets ! i) = Inr (node_of offsets (ps ! i))"
  shows "\<exists>m. rd' (ref_offset offsets r) = Inr m \<and> level m = l \<and> tree rd' m kvs"
  using assms(1,2)
proof (induction arbitrary: j rule: ptree.induct)
  case (existing offset m l kvs qs)
  then show ?case using ext tree_mono(1) [OF existing(3) ext] by auto
next
  case (new_leaf i qs kvs)
  then have i: "i < length ps" "ps ! i = \<lparr>plevel = 0, pentries = map inline kvs\<rparr>" by simp_all
  have e: "entries (node_of offsets (ps ! i)) = map (\<lambda>p. \<lparr>rkey = fst p, rvalue = snd p\<rparr>) kvs"
    by (simp add: i(2) node_of_def resolve_def comp_def)
  have "tree rd' (node_of offsets (ps ! i)) (map kv (entries (node_of offsets (ps ! i))))"
    by (rule leaf) (use new_leaf i e in \<open>simp_all add: node_of_def comp_def\<close>)
  moreover have "map kv (entries (node_of offsets (ps ! i))) = kvs"
    unfolding e by (simp add: comp_def)
  ultimately show ?case using new [OF i(1)] i(2) by (auto simp: node_of_def)
next
  case (new_branch i qs l es kss)
  then have i: "i < length ps" "ps ! i = \<lparr>plevel = Suc l, pentries = es\<rparr>" "take i qs = take i ps" by simp_all
  have "list_all2 (\<lambda>e ks. \<exists>r. pvalue e = Child r \<and> pkey e = fst (last ks)
      \<and> (\<exists>m. rd' (ref_offset offsets r) = Inr m \<and> level m = l \<and> tree rd' m ks)) es kss"
    using new_branch.IH by (rule list_all2_mono) (use i(3) in blast)
  then have "forest rd' l None (map (resolve offsets) es) (concat kss)"
    by (rule row_forest) (use new_branch small in \<open>auto simp: above_def\<close>)
  then have "tree rd' (node_of offsets (ps ! i)) (concat kss)"
    using new_branch.hyps(3) by (intro branch [of _ l]) (simp_all add: i(2) node_of_def)
  then show ?case using new [OF i(1)] i(2) by (auto simp: node_of_def)
qed

lemma pages_fit_cong:
  assumes "layout s' = layout s" "format_version s' = format_version s" "pages_fit rd s ps"
  shows "pages_fit rd s' ps"
proof -
  have w: "entry_width s' = entry_width s"
    using assms(1,2) by (auto simp: entry_width_def packed_leaf_def fun_eq_iff split: PlannedValue.splits)
  have "entry_ok rd s' = entry_ok rd s"
    unfolding entry_ok_def assms(1) ..
  with w assms(3) show ?thesis by (simp add: pages_fit_def page_ok_def)
qed

lemma read_node_bound:
  "read_node h f s offset = Inr m \<Longrightarrow>
    data_start (format_version s) \<le> offset \<and> offset < end_of s \<and> offset mod PAGE_BYTES = 0"
  by (auto simp: read_node_def not_le split: if_splits)

text \<open>Bytes below an offset that the file already has stay what they are.\<close>

definition keeps_below :: "nat \<Rightarrow> File \<Rightarrow> File \<Rightarrow> bool" where
  "keeps_below start f f' \<longleftrightarrow> io_fails f' = io_fails f \<and> length (file_bytes f) \<le> length (file_bytes f')
    \<and> (\<forall>q n. q + n \<le> start \<longrightarrow> q + n \<le> length (file_bytes f) \<longrightarrow> read_exact_at f' n q = read_exact_at f n q)"

lemma keeps_below_same_pages: "keeps_below start f f' \<Longrightarrow> stop \<le> start \<Longrightarrow> same_pages f stop f'"
  by (force simp: keeps_below_def same_pages_def dest: read_exact_at_Inr_bound)

definition page_offsets :: "nat \<Rightarrow> nat \<Rightarrow> nat list" where
  "page_offsets start n = map (\<lambda>index. start + index * PAGE_BYTES) [0..<n]"

lemma page_offsets_simps [simp]:
  "length (page_offsets start n) = n" "i < n \<Longrightarrow> page_offsets start n ! i = start + i * PAGE_BYTES"
  by (simp_all add: page_offsets_def)

lemma planned_refs_ok:
  assumes fit: "pages_fit (read_node h f base) base ps" and i: "i < length ps"
    and start: "end_of base \<le> start" "start mod PAGE_BYTES = 0" and ok: "snapshot_ok base"
    and v: "format_version s = format_version base"
  shows "refs_ok s (page_offsets start (length ps)) (start + i * PAGE_BYTES) (pentries (ps ! i))"
proof -
  have ds: "data_start (format_version s) \<le> start" using ok start(1) v by (simp add: snapshot_ok_def)
  have "pointer_ok s (start + i * PAGE_BYTES) (ref_offset (page_offsets start (length ps)) r)"
    if e: "e \<in> set (pentries (ps ! i))" "pvalue e = Child r" for e r
  proof (cases r)
    case (Existing offset)
    with fit i e obtain m where "read_node h f base offset = Inr m"
      by (force simp: pages_fit_def page_ok_def entry_ok_def)
    then show ?thesis
      using Existing start(1) v by (auto simp: pointer_ok_def dest!: read_node_bound)
  next
    case (New j)
    with fit i e have "j < i" by (force simp: pages_fit_def page_ok_def entry_ok_def)
    with i New ds start(2) show ?thesis
      by (auto simp: pointer_ok_def isam_consts mod_simps)
  qed
  then show ?thesis by (auto simp: refs_ok_def)
qed

lemma write_pages_planned:
  fixes ps :: "PlannedPage list" and start :: nat
  defines "offsets \<equiv> page_offsets start (length ps)"
  assumes d: "digest_32 h" and fit: "pages_fit (read_node h f base) base ps"
    and ok: "snapshot_ok base" "snapshot_ok next" and ext: "extends base next"
    and start: "end_of base \<le> start" "start mod PAGE_BYTES = 0" "start + length ps * PAGE_BYTES \<le> I64_MAX"
    and io: "\<forall>offset \<ge> start. \<not> io_fails f offset"
  obtains f' where "write_pages h next offsets (zip offsets ps) f = (Inr (), f')" "keeps_below start f f'"
    "\<And>s' i. i < length ps \<Longrightarrow> layout s' = layout next \<Longrightarrow> format_version s' = format_version next \<Longrightarrow>
      generation next \<le> generation s' \<Longrightarrow> start + length ps * PAGE_BYTES \<le> end_of s' \<Longrightarrow>
      read_node h f' s' (offsets ! i) = Inr (node_of offsets (ps ! i))"
proof -
  have same: "layout next = layout base" "format_version next = format_version base"
    using ext by (simp_all add: extends_def)
  note fit' = pages_fit_cong [OF same fit]
  have page: "\<exists>bs. put_entries next offsets (plevel (ps ! i)) PREFIX (pentries (ps ! i))
        (page_header next (start + i * PAGE_BYTES) (ps ! i)) = Inr bs \<and> length (seal h bs) = PAGE_BYTES
      \<and> (\<forall>s'. layout s' = layout next \<longrightarrow> format_version s' = format_version next \<longrightarrow> generation next \<le> generation s'
        \<longrightarrow> parse_page h s' (start + i * PAGE_BYTES) (seal h bs) = Inr (node_of offsets (ps ! i)))"
    if i: "i < length ps" for i
  proof (rule parse_written_page [of h "read_node h f base" "next" i "ps ! i" "start + i * PAGE_BYTES" offsets])
    show "digest_32 h" "snapshot_ok next" by (fact d, fact ok(2))
    show "page_ok (read_node h f base) next i (ps ! i)" using fit' i by (simp add: pages_fit_def)
    have "i * PAGE_BYTES \<le> length ps * PAGE_BYTES" using i by simp
    then show "start + i * PAGE_BYTES < 2 ^ 64" using start(3) by (simp add: isam_consts)
    show "i \<le> length offsets" using i by (simp add: offsets_def)
    show "refs_ok next offsets (start + i * PAGE_BYTES) (pentries (ps ! i))"
      unfolding offsets_def using planned_refs_ok [OF fit i start(1,2) ok(1) same(2)] .
  qed blast
  have "sorted_wrt (\<lambda>a b. fst a + PAGE_BYTES \<le> fst b) (zip offsets ps)"
  proof (unfold sorted_wrt_iff_nth_less, intro allI impI)
    fix i j assume ij: "i < j" "j < length (zip offsets ps)"
    then have "Suc i * PAGE_BYTES \<le> j * PAGE_BYTES" by (intro mult_le_mono1) simp
    with ij show "fst (zip offsets ps ! i) + PAGE_BYTES \<le> fst (zip offsets ps ! j)"
      by (simp add: offsets_def)
  qed
  moreover have inz: "(off, p) \<in> set (zip offsets ps) \<longleftrightarrow> (\<exists>i < length ps. off = start + i * PAGE_BYTES \<and> p = ps ! i)" for off p
    unfolding set_zip offsets_def by (auto, metis page_offsets_simps(2))
  ultimately obtain f' where f': "write_pages h next offsets (zip offsets ps) f = (Inr (), f')"
    "io_fails f' = io_fails f" "length (file_bytes f) \<le> length (file_bytes f')"
    "\<forall>(off, p) \<in> set (zip offsets ps). \<forall>bs. put_entries next offsets (plevel p) PREFIX (pentries p) (page_header next off p) = Inr bs
        \<longrightarrow> \<not> io_fails f off \<longrightarrow> read_exact_at f' PAGE_BYTES off = Inr (seal h bs)"
    "\<forall>q n. (\<forall>(off, p) \<in> set (zip offsets ps). q + n \<le> off) \<longrightarrow> q + n \<le> length (file_bytes f)
        \<longrightarrow> read_exact_at f' n q = read_exact_at f n q"
    using write_pages_file [of "zip offsets ps" "next" offsets h f] page by fastforce
  have keeps: "keeps_below start f f'"
    unfolding keeps_below_def using f'(2,3,5) inz by force
  have read: "read_node h f' s' (offsets ! i) = Inr (node_of offsets (ps ! i))"
    if i: "i < length ps" and s': "layout s' = layout next" "format_version s' = format_version next"
      "generation next \<le> generation s'" "start + length ps * PAGE_BYTES \<le> end_of s'" for s' i
  proof -
    from page [OF i] obtain bs where bs: "put_entries next offsets (plevel (ps ! i)) PREFIX (pentries (ps ! i))
        (page_header next (start + i * PAGE_BYTES) (ps ! i)) = Inr bs"
      "parse_page h s' (start + i * PAGE_BYTES) (seal h bs) = Inr (node_of offsets (ps ! i))"
      using s' by blast
    have "(start + i * PAGE_BYTES, ps ! i) \<in> set (zip offsets ps)" using inz i by blast
    then have "read_exact_at f' PAGE_BYTES (start + i * PAGE_BYTES) = Inr (seal h bs)"
      using f'(4) bs(1) io by fastforce
    moreover have "data_start (format_version s') \<le> start + i * PAGE_BYTES"
      using ok(1) start(1) same s'(2) by (simp add: snapshot_ok_def)
    moreover have "start + i * PAGE_BYTES < end_of s'"
      using i s'(4) mult_less_mono1 [OF i, of PAGE_BYTES] by (simp add: isam_consts)
    moreover have "(start + i * PAGE_BYTES) mod PAGE_BYTES = 0" using start(2) by simp
    ultimately show ?thesis
      using bs(2) i by (simp add: read_node_def offsets_def)
  qed
  show thesis by (rule that [OF f'(1) keeps read])
qed

text \<open>A plan written behind the base snapshot holds its records in the new snapshot.\<close>

lemma write_plan_stored:
  assumes d: "digest_32 h" and plan: "plan_ok (read_node h f base) base plan kvs"
    and ok: "snapshot_ok base" "snapshot_ok next" and ext: "extends base next"
    and start: "end_of base \<le> start" "start mod PAGE_BYTES = 0"
      "start + length (plan_pages plan) * PAGE_BYTES \<le> I64_MAX"
    and io: "\<forall>offset \<ge> start. \<not> io_fails f offset"
  obtains final f' where "write_plan h f base next start plan = (Inr final, f')" "keeps_below start f f'"
    "stored h f' final kvs" "snapshot_ok final"
    "final = next\<lparr>root := root final,
       end_of := if plan_pages plan = [] then end_of next else start + length (plan_pages plan) * PAGE_BYTES\<rparr>"
proof (cases "plan_pages plan = []")
  case True
  with plan have "kvs = []" by (auto simp: plan_ok_def split: if_splits)
  then show thesis
    using True ok(2) by (intro that [of "next\<lparr>root := 0\<rparr>" f])
      (simp_all add: write_plan_def keeps_below_def stored_def snapshot_ok_def)
next
  case False
  let ?ps = "plan_pages plan" and ?rd = "read_node h f base"
  let ?offsets = "page_offsets start (length ?ps)" and ?stop = "start + length ?ps * PAGE_BYTES"
  from plan False obtain r l where r: "pages_fit ?rd base ?ps" "plan_root plan = Some r" "ptree ?rd ?ps l r kvs"
    by (auto simp: plan_ok_def split: if_splits)
  from write_pages_planned [OF d r(1) ok ext start io] obtain f' where f':
    "write_pages h next ?offsets (zip ?offsets ?ps) f = (Inr (), f')" "keeps_below start f f'"
    "\<And>s' i. i < length ?ps \<Longrightarrow> layout s' = layout next \<Longrightarrow> format_version s' = format_version next \<Longrightarrow>
      generation next \<le> generation s' \<Longrightarrow> ?stop \<le> end_of s' \<Longrightarrow>
      read_node h f' s' (?offsets ! i) = Inr (node_of ?offsets (?ps ! i))"
    by blast
  define final where "final = next\<lparr>root := ref_offset ?offsets r, end_of := ?stop\<rparr>"
  let ?rd' = "read_node h f' final"
  have exf: "extends base final" using ext start(1) by (simp add: extends_def final_def)
  have al: "end_of base mod PAGE_BYTES = 0" using ok(1) by (simp add: snapshot_ok_def)
  have old: "?rd' off = Inr m" if "?rd off = Inr m" for off m
    using read_node_mono [OF that exf keeps_below_same_pages [OF f'(2) start(1)] al] .
  have small: "off < 2 ^ 64" if "?rd' off = Inr m" for off m
    using read_node_bound [OF that] start(3) by (simp add: final_def isam_consts)
  have "?rd' (?offsets ! i) = Inr (node_of ?offsets (?ps ! i))" if "i < length ?ps" for i
    using f'(3) [OF that] by (simp add: final_def)
  with ptree_tree [OF r(3), of "length ?ps" ?ps ?rd' ?offsets] old small
  obtain m where m: "?rd' (root final) = Inr m" "tree ?rd' m kvs"
    by (auto simp: final_def)
  note b = read_node_bound [OF m(1)]
  have "0 < data_start (format_version final)" by (simp add: data_start_def isam_consts)
  with b m have st: "stored h f' final kvs" by (auto simp: stored_def)
  have "snapshot_ok final"
    using ok(2) b start by (auto simp: snapshot_ok_def final_def)
  moreover have "write_plan h f base next start plan = (Inr final, f')"
  proof -
    have "?stop < 2 ^ 64" "length ?ps * PAGE_BYTES < 2 ^ 64" using start(3) by (simp_all add: isam_consts)
    moreover have "case r of Existing _ \<Rightarrow> True | New j \<Rightarrow> j < length ?offsets"
      using r(3) by (cases) auto
    ultimately show ?thesis
      using False start f'(1) r(2)
      by (auto simp: write_plan_def Let_def final_def not_le not_less page_offsets_def [symmetric]
          split: PageRef.splits)
  qed
  ultimately show thesis
    using that [OF _ f'(2) st] False by (simp add: final_def)
qed

text \<open>C16: Planning a batch never panics: it reports \<open>Duplicate\<close> exactly when some insert of the batch
  meets a key that is present when its turn comes, and otherwise plans, or finds the depth of the
  tree exhausted.\<close>

theorem isam_prepare_outcome:
  assumes "stored h f s kvs" "cache_ok h nb f s c" "snapshot_ok s" "\<forall>m \<in> set ms. mutation_ok (layout s) m"
  shows "\<exists>r c'. prepare_batch h nb f s ms c = Some (r, c') \<and> cache_ok h nb f s c'
    \<and> (r = Inl Duplicate \<longleftrightarrow> batch_map ms (map_of kvs) = None)
    \<and> (\<forall>e. r = Inl e \<longrightarrow> e \<in> {Duplicate, Invalid})"
proof -
  have "sorted_keys kvs"
    using assms(1) tree_facts by (auto simp: stored_def split: if_splits)
  note am = apply_mutations_batch_map [OF this, of "sort_key mutation_key ms"]
  show ?thesis
    using prepare_batch_plan [OF assms] am
    by (auto simp: runs_def batch_map_sort split: sum.splits)
qed

text \<open>C9: A batch does what it says: the plan of a batch, written behind the base snapshot, is a
  snapshot with exactly the records that the mutations, in their order, make of the records of the
  base, and the base snapshot keeps its own records.\<close>

theorem isam_batch_correct:
  assumes "digest_32 h" "stored h f base kvs" "cache_ok h nb f base c" "snapshot_ok base"
    and "snapshot_ok next" "extends base next" "\<forall>m \<in> set ms. mutation_ok (layout base) m"
    and "prepare_batch h nb f base ms c = Some (Inr plan, c')"
    and "end_of base \<le> start" "start mod PAGE_BYTES = 0"
      "start + length (plan_pages plan) * PAGE_BYTES \<le> I64_MAX" "\<forall>offset \<ge> start. \<not> io_fails f offset"
  shows "\<exists>final f' kvs'. write_plan h f base next start plan = (Inr final, f')
    \<and> batch_map ms (map_of kvs) = Some (map_of kvs') \<and> stored h f' final kvs' \<and> stored h f' base kvs"
proof -
  have sorted: "sorted_keys kvs"
    using assms(2) tree_facts by (auto simp: stored_def split: if_splits)
  from prepare_batch_plan [OF assms(2,3,4,7)] assms(8) obtain kvs' where
    k: "apply_mutations (sort_key mutation_key ms) kvs = Inr kvs'" "plan_ok (read_node h f base) base plan kvs'"
    by (auto simp: runs_def split: sum.splits)
  obtain final f' where f': "write_plan h f base next start plan = (Inr final, f')" "keeps_below start f f'"
    "stored h f' final kvs'"
    using write_plan_stored [OF assms(1) k(2) assms(4-6,9-12)] by blast
  have "end_of base mod PAGE_BYTES = 0" using assms(4) by (simp add: snapshot_ok_def)
  then have "stored h f' base kvs"
    by (rule stored_mono [OF assms(2) keeps_below_same_pages [OF f'(2) assms(9)]])
  then show ?thesis
    using f' k(1) apply_mutations_batch_map [OF sorted, of "sort_key mutation_key ms"]
    by (auto simp: batch_map_sort)
qed

end
