(* ===== verification/Isam_Store.thy ===== *)
theory Isam_Store
  imports Isam_Write
begin

text \<open>Stores of \<^verbatim>\<open>storage/isam/mod.rs\<close>: opening, read batches, and the steps of
  \<open>write_with_validator\<close> (argument checks, validation and planning on a captured base, reservation of
  pages, publication), with the answers that read batches and validators get.\<close>

section \<open>Stores and read batches\<close>

record Store =
  st_layout :: Layout
  st_format_version :: nat
  st_writable :: bool
  owner_pid :: nat

definition MAX_BATCH_RECORDS :: nat where "MAX_BATCH_RECORDS = 4096"

definition check_process :: "nat \<Rightarrow> nat \<Rightarrow> IsamError + unit" where
  "check_process owner pid = check_that (owner = pid) WrongProcess"

definition store_snapshot :: "(bytes \<Rightarrow> bytes) \<Rightarrow> Store \<Rightarrow> File \<Rightarrow> IsamError + Snapshot" where
  "store_snapshot blake3 self file =
    and_then (read_snapshot blake3 file) (\<lambda>snapshot.
    if layout snapshot \<noteq> st_layout self \<or> format_version snapshot \<noteq> st_format_version self
    then Inl Corrupt else Inr snapshot)"

record ReadBatch =
  rb_snapshot :: Snapshot
  rb_owner_pid :: nat

definition read_batch :: "(bytes \<Rightarrow> bytes) \<Rightarrow> Store \<Rightarrow> nat \<Rightarrow> File \<Rightarrow> IsamError + ReadBatch" where
  "read_batch blake3 self pid file =
    and_then (check_process (owner_pid self) pid) (\<lambda>_.
    and_then (store_snapshot blake3 self file) (\<lambda>snapshot.
    Inr \<lparr>rb_snapshot = snapshot, rb_owner_pid = owner_pid self\<rparr>))"

text \<open>The empty cache of a new read batch.\<close>

definition empty_cache :: CachedPages where
  "empty_cache = \<lparr>cpages = [], fifo = [], cbytes = 0\<rparr>"

definition batch_get ::
    "(bytes \<Rightarrow> bytes) \<Rightarrow> (Node \<Rightarrow> nat) \<Rightarrow> File \<Rightarrow> ReadBatch \<Rightarrow> nat \<Rightarrow> bytes \<Rightarrow> CachedPages option
      \<Rightarrow> bytes option Step" where
  "batch_get blake3 node_bytes file self pid k cache =
    bind_step (Some (check_process (rb_owner_pid self) pid, cache)) (\<lambda>_ c.
    bind_step (Some (check_key (layout (rb_snapshot self)) k, c)) (\<lambda>_ c.
    tree_get blake3 node_bytes file (rb_snapshot self) k c))"

definition batch_range ::
    "(bytes \<Rightarrow> bytes) \<Rightarrow> (Node \<Rightarrow> nat) \<Rightarrow> File \<Rightarrow> ReadBatch \<Rightarrow> nat \<Rightarrow> bytes \<Rightarrow> bytes option \<Rightarrow> nat
      \<Rightarrow> CachedPages option \<Rightarrow> Record list Step" where
  "batch_range blake3 node_bytes file self pid start stop limit cache =
    bind_step (Some (check_process (rb_owner_pid self) pid, cache)) (\<lambda>_ c.
    bind_step (Some (check_key (layout (rb_snapshot self)) start, c)) (\<lambda>_ c.
    bind_step
      (Some (case stop of
               None \<Rightarrow> Inr ()
             | Some b \<Rightarrow> and_then (check_key (layout (rb_snapshot self)) b) (\<lambda>_. check_that (start \<le> b) Invalid), c))
      (\<lambda>_ c.
    if limit > MAX_BATCH_RECORDS then Some (Inl Invalid, c)
    else tree_range blake3 node_bytes file (rb_snapshot self) start stop limit c)))"

definition batch_verify ::
    "(bytes \<Rightarrow> bytes) \<Rightarrow> (Node \<Rightarrow> nat) \<Rightarrow> File \<Rightarrow> ReadBatch \<Rightarrow> nat \<Rightarrow> (IsamError + nat) option" where
  "batch_verify blake3 node_bytes file self pid =
    (case check_process (rb_owner_pid self) pid of
       Inl e \<Rightarrow> Some (Inl e)
     | Inr _ \<Rightarrow> tree_verify blake3 node_bytes file (rb_snapshot self))"

section \<open>Opening a store\<close>

text \<open>The checks of \<open>check_regular\<close> on the metadata of a file.\<close>

record Metadata =
  is_file :: bool
  nlink :: nat
  mode :: "32 word"

definition check_regular :: "Metadata \<Rightarrow> IsamError + unit" where
  "check_regular metadata =
    (if \<not> is_file metadata \<or> nlink metadata \<noteq> 1 then Inl Invalid
     else if and (mode metadata) 63 \<noteq> 0 then Inl Invalid
     else Inr ())"

text \<open>Opening, for the formats without a pipeline: the lock file must be empty, and a root that is
  not empty must lead to a valid page.\<close>

definition from_file :: "Snapshot \<Rightarrow> bool \<Rightarrow> nat \<Rightarrow> Store" where
  "from_file snapshot writable pid =
    \<lparr>st_layout = layout snapshot, st_format_version = format_version snapshot, st_writable = writable,
     owner_pid = pid\<rparr>"

definition open_inner_with_snapshot ::
    "(bytes \<Rightarrow> bytes) \<Rightarrow> (Node \<Rightarrow> nat) \<Rightarrow> Metadata \<Rightarrow> Metadata \<Rightarrow> nat \<Rightarrow> bool \<Rightarrow> nat \<Rightarrow> File \<Rightarrow> CachedPages option
      \<Rightarrow> (Store \<times> Snapshot \<times> File) Step" where
  "open_inner_with_snapshot blake3 node_bytes metadata lock_metadata lock_len writable pid file cache =
    bind_step (Some (check_regular metadata, cache)) (\<lambda>_ c.
    bind_step (Some (check_regular lock_metadata, c)) (\<lambda>_ c.
    bind_step (Some (check_that (lock_len = 0) Corrupt, c)) (\<lambda>_ c.
    bind_step (Some (read_snapshot blake3 file, c)) (\<lambda>snapshot c.
    bind_step (if root snapshot \<noteq> 0 then validate_root blake3 node_bytes file snapshot c else Some (Inr (), c)) (\<lambda>_ c.
    if writable \<and> format_version snapshot = PIPELINED_FORMAT_VERSION then
      bind_step (Some (read_snapshot blake3 file, c)) (\<lambda>snapshot' c.
      bind_step (Some (write_working_snapshot blake3 file snapshot', c)) (\<lambda>file' c.
      Some (Inr (from_file snapshot' writable pid, snapshot', file'), c)))
    else Some (Inr (from_file snapshot writable pid, snapshot, file), c))))))"

section \<open>The steps of a write\<close>

text \<open>A validator is a client of a read batch: it asks for the generation, for keys and for ranges,
  and decides in the end.\<close>

datatype Validator =
    Decide "IsamError + bool"
  | AskGeneration "nat \<Rightarrow> Validator"
  | AskGet bytes "(IsamError + bytes option) \<Rightarrow> Validator"
  | AskRange bytes "bytes option" nat "(IsamError + Record list) \<Rightarrow> Validator"

primrec run_validator ::
    "(bytes \<Rightarrow> bytes) \<Rightarrow> (Node \<Rightarrow> nat) \<Rightarrow> File \<Rightarrow> ReadBatch \<Rightarrow> nat \<Rightarrow> Validator \<Rightarrow> CachedPages option
      \<Rightarrow> bool Step" where
  "run_validator blake3 node_bytes file read pid (Decide r) = (\<lambda>c. Some (r, c))"
| "run_validator blake3 node_bytes file read pid (AskGeneration continue) = (\<lambda>c.
    run_validator blake3 node_bytes file read pid (continue (generation (rb_snapshot read))) c)"
| "run_validator blake3 node_bytes file read pid (AskGet k continue) = (\<lambda>c.
    case batch_get blake3 node_bytes file read pid k c of
      None \<Rightarrow> None
    | Some (r, c') \<Rightarrow> run_validator blake3 node_bytes file read pid (continue r) c')"
| "run_validator blake3 node_bytes file read pid (AskRange start stop limit continue) = (\<lambda>c.
    case batch_range blake3 node_bytes file read pid start stop limit c of
      None \<Rightarrow> None
    | Some (r, c') \<Rightarrow> run_validator blake3 node_bytes file read pid (continue r) c')"

text \<open>\<open>write_batch\<close> accepts every state; \<open>write_batch_at_generation\<close> one generation.\<close>

definition write_batch_validator :: Validator where
  "write_batch_validator = Decide (Inr True)"

definition at_generation :: "nat \<Rightarrow> Validator" where
  "at_generation expected = AskGeneration (\<lambda>current. Decide (Inr (current = expected)))"

fun check_mutations :: "Layout \<Rightarrow> Mutation list \<Rightarrow> IsamError + unit" where
  "check_mutations l [] = Inr ()"
| "check_mutations l (m # rest) =
    and_then (check_key l (mutation_key m)) (\<lambda>_.
    and_then (case m of
        Insert r \<Rightarrow> check_that (length (rvalue r) \<le> max_value_bytes l) Invalid
      | Put r \<Rightarrow> check_that (length (rvalue r) \<le> max_value_bytes l) Invalid
      | Delete _ \<Rightarrow> Inr ()) (\<lambda>_.
    check_mutations l rest))"

text \<open>The checks before any lock is taken; \<open>Inr False\<close> stands for a batch that has nothing to do.\<close>

definition check_batch :: "Store \<Rightarrow> nat \<Rightarrow> Mutation list \<Rightarrow> bytes list \<Rightarrow> IsamError + bool" where
  "check_batch self pid ms lock_keys =
    and_then (check_process (owner_pid self) pid) (\<lambda>_.
    if \<not> st_writable self then Inl IsamReadOnly
    else if length ms > MAX_BATCH_RECORDS then Inl Invalid
    else
      and_then (check_mutations (st_layout self) ms) (\<lambda>_.
      and_then (try_map (check_key (st_layout self)) lock_keys) (\<lambda>_.
      Inr (ms \<noteq> []))))"

text \<open>Validation and planning on the captured base: \<open>Inr None\<close> when the validator declines.\<close>

definition attempt_plan ::
    "(bytes \<Rightarrow> bytes) \<Rightarrow> (Node \<Rightarrow> nat) \<Rightarrow> Store \<Rightarrow> nat \<Rightarrow> File \<Rightarrow> Snapshot \<Rightarrow> Validator \<Rightarrow> Mutation list
      \<Rightarrow> (Snapshot \<times> BatchPlan) option Step" where
  "attempt_plan blake3 node_bytes self pid file base validate ms =
    (let read = \<lparr>rb_snapshot = base, rb_owner_pid = owner_pid self\<rparr> in
     bind_step (run_validator blake3 node_bytes file read pid validate (Some empty_cache)) (\<lambda>valid c.
     if \<not> valid then Some (Inr None, c)
     else if generation base + 1 \<ge> 2 ^ 64 then Some (Inl Invalid, c)
     else
       let next = base\<lparr>generation := generation base + 1, publication := generation base + 1\<rparr> in
       bind_step (prepare_batch blake3 node_bytes file base ms c) (\<lambda>plan c.
       Some (Inr (Some (next, plan)), c))))"

definition reserve_physical_pages :: "File \<Rightarrow> Snapshot \<Rightarrow> nat \<Rightarrow> IsamError + nat \<times> File" where
  "reserve_physical_pages file base pages =
    (if pages = 0 then Inr (end_of base, file)
     else
       let start = max (length (file_bytes file)) (end_of base) in
       if start mod PAGE_BYTES \<noteq> 0 then Inl Corrupt
       else if pages * PAGE_BYTES \<ge> 2 ^ 64 then Inl Invalid
       else
         let reserved_end = start + pages * PAGE_BYTES in
         if reserved_end \<ge> 2 ^ 64 \<or> reserved_end > I64_MAX then Inl Invalid
         else Inr (start, set_len file reserved_end))"

text \<open>\<open>Inr None\<close>: another root was published since the base was captured.\<close>

definition reserve_page_range ::
    "(bytes \<Rightarrow> bytes) \<Rightarrow> Store \<Rightarrow> File \<Rightarrow> Snapshot \<Rightarrow> nat \<Rightarrow> IsamError + (nat \<times> File) option" where
  "reserve_page_range blake3 self file base pages =
    and_then (store_snapshot blake3 self file) (\<lambda>latest.
    if latest \<noteq> base then Inr None
    else and_then (reserve_physical_pages file base pages) (\<lambda>r. Inr (Some r)))"

text \<open>The publication of \<open>write_with_validator\<close>, under exclusive ownership of the file.\<close>

definition publish ::
    "(bytes \<Rightarrow> bytes) \<Rightarrow> Store \<Rightarrow> File \<Rightarrow> Snapshot \<Rightarrow> Snapshot \<Rightarrow> IsamError + File option" where
  "publish blake3 self file base next =
    and_then (store_snapshot blake3 self file) (\<lambda>latest.
    if latest \<noteq> base then Inr None
    else (case write_snapshot blake3 file next of
        Inl Io \<Rightarrow> Inl CommitUnknown
      | Inl e \<Rightarrow> Inl e
      | Inr file' \<Rightarrow> Inr (Some file')))"

section \<open>What the operations do\<close>

lemma store_snapshot_Inr:
  "store_snapshot h st f = Inr s \<longleftrightarrow>
    read_snapshot h f = Inr s \<and> layout s = st_layout st \<and> format_version s = st_format_version st"
  by (auto simp: store_snapshot_def result_simps split: sum.splits if_splits)

lemma cache_ok_empty_cache: "cache_ok h nb f s (Some empty_cache)"
  unfolding empty_cache_def by (rule cache_ok_empty)

text \<open>A read batch in the eyes of its owner: the answers of a sorted list of records.\<close>

definition answer_get :: "Layout \<Rightarrow> (bytes \<times> bytes) list \<Rightarrow> bytes \<Rightarrow> IsamError + bytes option" where
  "answer_get l kvs k = (if length k = key_bytes l then Inr (map_of kvs k) else Inl Invalid)"

definition answer_range ::
    "Layout \<Rightarrow> (bytes \<times> bytes) list \<Rightarrow> bytes \<Rightarrow> bytes option \<Rightarrow> nat \<Rightarrow> IsamError + Record list" where
  "answer_range l kvs start stop limit =
    (if length start = key_bytes l \<and> (\<forall>b. stop = Some b \<longrightarrow> length b = key_bytes l \<and> start \<le> b)
        \<and> limit \<le> MAX_BATCH_RECORDS
     then Inr (take limit (records_in start stop kvs)) else Inl Invalid)"

primrec decision :: "Layout \<Rightarrow> nat \<Rightarrow> (bytes \<times> bytes) list \<Rightarrow> Validator \<Rightarrow> IsamError + bool" where
  "decision l g kvs (Decide r) = r"
| "decision l g kvs (AskGeneration continue) = decision l g kvs (continue g)"
| "decision l g kvs (AskGet k continue) = decision l g kvs (continue (answer_get l kvs k))"
| "decision l g kvs (AskRange start stop limit continue) =
    decision l g kvs (continue (answer_range l kvs start stop limit))"

lemma batch_get_runs:
  assumes "stored h f (rb_snapshot read) kvs" "cache_ok h nb f (rb_snapshot read) c" "rb_owner_pid read = pid"
  shows "runs h nb f (rb_snapshot read) (batch_get h nb f read pid k c)
    (answer_get (layout (rb_snapshot read)) kvs k)"
  using tree_get_runs [OF assms(1,2), of k] assms(2,3)
  by (auto simp: batch_get_def answer_get_def check_process_def check_key_def check_that_def bind_step_def runs_def)

lemma batch_range_runs:
  assumes "stored h f (rb_snapshot read) kvs" "cache_ok h nb f (rb_snapshot read) c" "rb_owner_pid read = pid"
  shows "runs h nb f (rb_snapshot read) (batch_range h nb f read pid start stop limit c)
    (answer_range (layout (rb_snapshot read)) kvs start stop limit)"
  using tree_range_runs [OF assms(1,2), of start stop limit] assms(2,3)
  by (auto simp: batch_range_def answer_range_def check_process_def check_key_def check_that_def bind_step_def
      runs_def not_le split: option.splits)

lemma run_validator_runs:
  assumes "stored h f (rb_snapshot read) kvs" "rb_owner_pid read = pid"
  shows "cache_ok h nb f (rb_snapshot read) c \<Longrightarrow>
    runs h nb f (rb_snapshot read) (run_validator h nb f read pid v c)
      (decision (layout (rb_snapshot read)) (generation (rb_snapshot read)) kvs v)"
proof (induction v arbitrary: c)
  case (Decide r)
  then show ?case by (simp add: runs_def)
next
  case (AskGeneration continue)
  then show ?case by simp
next
  case (AskGet k continue)
  from batch_get_runs [OF assms(1) AskGet.prems assms(2), of k]
  obtain c' where "batch_get h nb f read pid k c = Some (answer_get (layout (rb_snapshot read)) kvs k, c')"
    "cache_ok h nb f (rb_snapshot read) c'" by (auto simp: runs_def)
  then show ?case using AskGet.IH [OF rangeI, of c'] by simp
next
  case (AskRange start stop limit continue)
  from batch_range_runs [OF assms(1) AskRange.prems assms(2), of start stop limit]
  obtain c' where "batch_range h nb f read pid start stop limit c =
      Some (answer_range (layout (rb_snapshot read)) kvs start stop limit, c')"
    "cache_ok h nb f (rb_snapshot read) c'" by (auto simp: runs_def)
  then show ?case using AskRange.IH [OF rangeI, of c'] by simp
qed

lemma check_mutations_Inr: "check_mutations l ms = Inr () \<longleftrightarrow> (\<forall>m \<in> set ms. mutation_ok l m)"
  by (induction ms) (auto simp: check_key_def check_that_def result_simps split: Mutation.splits)

lemma check_batch_Inr:
  "check_batch st pid ms lock_keys = Inr b \<Longrightarrow>
    owner_pid st = pid \<and> st_writable st \<and> length ms \<le> MAX_BATCH_RECORDS \<and> b = (ms \<noteq> [])
    \<and> (\<forall>m \<in> set ms. mutation_ok (st_layout st) m)"
  unfolding check_mutations_Inr [symmetric]
  by (auto simp: check_batch_def check_process_def check_that_def result_simps split: if_splits sum.splits)

end
