(* ===== verification/Isam_Commit.thy ===== *)
theory Isam_Commit
  imports Isam_Store
begin

text \<open>Histories of a store: concurrent calls of \<open>write_with_validator\<close>, read batches and crashes
  as a step relation over the shared file, the serial specification of what a history means, and
  the invariant that every step keeps.\<close>

section \<open>Writers, readers and crashes\<close>

text \<open>The fixed surroundings of a history: the digest, the heap size of a node in the cache, the
  store every process has open, and for every write call its batch and its validator.\<close>

record Env =
  blake3 :: "bytes \<Rightarrow> bytes"
  node_bytes :: "Node \<Rightarrow> nat"
  store :: Store
  pid :: nat
  batch :: "nat \<Rightarrow> Mutation list"
  lock_keys :: "nat \<Rightarrow> bytes list"
  validate :: "nat \<Rightarrow> Validator"

text \<open>Where a call of \<open>write_with_validator\<close> is. The phases after \<open>Prepared\<close> hold the commit gate.\<close>

datatype Phase =
    Called
  | Started
  | Based Snapshot
  | Prepared Snapshot Snapshot BatchPlan
  | Reserved Snapshot Snapshot BatchPlan nat
  | Written Snapshot Snapshot
  | PagesSynced Snapshot Snapshot
  | RootWritten
  | Returned "IsamError + bool"
  | Dead

text \<open>\<open>disk\<close> is the file as processes see it and \<open>synced\<close> the file at the last \<open>sync_all\<close>. The log
  lists the calls whose root was written, in that order, and \<open>acked\<close> counts those of them that are
  known to be durable; both only record history.\<close>

record World =
  disk :: File
  synced :: File
  gate :: "nat option"
  phase :: "nat \<Rightarrow> Phase"
  readers :: "nat \<Rightarrow> Snapshot option"
  log :: "nat list"
  acked :: nat

definition finish :: "nat \<Rightarrow> IsamError + bool \<Rightarrow> World \<Rightarrow> World" where
  "finish w r W = W\<lparr>phase := (phase W)(w := Returned r), gate := if gate W = Some w then None else gate W\<rparr>"

definition become :: "nat \<Rightarrow> Phase \<Rightarrow> World \<Rightarrow> World" where
  "become w p W = W\<lparr>phase := (phase W)(w := p)\<rparr>"

text \<open>The next action of call \<open>w\<close> when nothing fails. A call that waits for the gate does nothing.\<close>

definition writer_step :: "Env \<Rightarrow> nat \<Rightarrow> World \<Rightarrow> World" where
  "writer_step E w W =
    (case phase W w of
       Called \<Rightarrow>
         (case check_batch (store E) (pid E) (batch E w) (lock_keys E w) of
            Inl e \<Rightarrow> finish w (Inl e) W
          | Inr False \<Rightarrow> finish w (Inr True) W
          | Inr True \<Rightarrow> become w Started W)
     | Started \<Rightarrow>
         (case store_snapshot (blake3 E) (store E) (disk W) of
            Inl e \<Rightarrow> finish w (Inl e) W
          | Inr base \<Rightarrow> become w (Based base) W)
     | Based base \<Rightarrow>
         (case attempt_plan (blake3 E) (node_bytes E) (store E) (pid E) (disk W) base (validate E w) (batch E w) of
            None \<Rightarrow> (finish w (Inl Io) W)\<lparr>phase := (phase W)(w := Dead)\<rparr>
          | Some (Inl e, _) \<Rightarrow> finish w (Inl e) W
          | Some (Inr None, _) \<Rightarrow> finish w (Inr False) W
          | Some (Inr (Some (next, plan)), _) \<Rightarrow> become w (Prepared base next plan) W)
     | Prepared base next plan \<Rightarrow>
         (if gate W = None then W\<lparr>gate := Some w\<rparr>
          else if gate W \<noteq> Some w then W
          else
            (case reserve_page_range (blake3 E) (store E) (disk W) base (length (plan_pages plan)) of
               Inl e \<Rightarrow> finish w (Inl e) W
             | Inr None \<Rightarrow> become w Started W
             | Inr (Some (start, file)) \<Rightarrow> (become w (Reserved base next plan start) W)\<lparr>disk := file\<rparr>))
     | Reserved base next plan start \<Rightarrow>
         (case write_plan (blake3 E) (disk W) base next start plan of
            (Inl e, file) \<Rightarrow> (finish w (Inl e) W)\<lparr>disk := file\<rparr>
          | (Inr next', file) \<Rightarrow> (become w (Written base next') W)\<lparr>disk := file\<rparr>)
     | Written base next \<Rightarrow> (become w (PagesSynced base next) W)\<lparr>synced := disk W\<rparr>
     | PagesSynced base next \<Rightarrow>
         (case publish (blake3 E) (store E) (disk W) base next of
            Inl e \<Rightarrow> finish w (Inl e) W
          | Inr None \<Rightarrow> become w Started W
          | Inr (Some file) \<Rightarrow> (become w RootWritten W)\<lparr>disk := file, log := log W @ [w]\<rparr>)
     | RootWritten \<Rightarrow> (finish w (Inr True) W)\<lparr>synced := disk W, acked := length (log W)\<rparr>
     | Returned r \<Rightarrow> W
     | Dead \<Rightarrow> W)"

text \<open>A failed lock, hook, synchronization or write ends the call with an error; after the root is
  written that error is \<open>CommitUnknown\<close>.\<close>

definition abort_error :: "Phase \<Rightarrow> IsamError \<Rightarrow> IsamError" where
  "abort_error p e = (if p = RootWritten then CommitUnknown else e)"

fun running :: "Phase \<Rightarrow> bool" where
  "running Called = False"
| "running (Returned r) = False"
| "running Dead = False"
| "running p = True"

text \<open>The file after a crash: pages that were not synchronized hold anything, and a root slot that
  was not synchronized is the old one, the new one, or torn, which its checksum reveals.\<close>

definition root_slot :: "File \<Rightarrow> nat \<Rightarrow> bytes" where
  "root_slot f k = sub_slice (file_bytes f) (k * PAGE_BYTES) (k * PAGE_BYTES + PAGE_BYTES)"

definition crash_image :: "(bytes \<Rightarrow> bytes) \<Rightarrow> File \<Rightarrow> File \<Rightarrow> File \<Rightarrow> bool" where
  "crash_image h clean dirty f \<longleftrightarrow>
    io_fails f = (\<lambda>_. False)
    \<and> HEADER_BYTES \<le> length (file_bytes f)
    \<and> min (length (file_bytes clean)) (length (file_bytes dirty)) \<le> length (file_bytes f)
    \<and> (\<forall>p \<ge> HEADER_BYTES. \<forall>bs. read_exact_at clean PAGE_BYTES p = Inr bs \<longrightarrow>
        read_exact_at dirty PAGE_BYTES p = Inr bs \<longrightarrow> read_exact_at f PAGE_BYTES p = Inr bs)
    \<and> (\<forall>k < 2. root_slot f k = root_slot clean k \<or> root_slot f k = root_slot dirty k
        \<or> (root_slot clean k \<noteq> root_slot dirty k \<and> decode_snapshot h (root_slot f k) (Some k) = Inl Corrupt))"

text \<open>The processes of before the crash are gone; calls that had not started may come later.\<close>

definition recover :: "File \<Rightarrow> Snapshot \<Rightarrow> World \<Rightarrow> World" where
  "recover f s W =
    W\<lparr>disk := f, synced := f, gate := None,
      phase := (\<lambda>w. if running (phase W w) then Dead else phase W w),
      readers := (\<lambda>_. None), log := take (generation s - 1) (log W)\<rparr>"

inductive step :: "Env \<Rightarrow> World \<Rightarrow> World \<Rightarrow> bool" for E where
  act: "step E W (writer_step E w W)"
| abort: "running (phase W w) \<Longrightarrow> step E W (finish w (Inl (abort_error (phase W w) e)) W)"
| die: "running (phase W w) \<Longrightarrow> step E W ((finish w (Inl Io) W)\<lparr>phase := (phase W)(w := Dead)\<rparr>)"
| partial: "phase W w = Reserved base next plan start \<Longrightarrow>
    offsets = map (\<lambda>index. start + index * PAGE_BYTES) [0..<length (plan_pages plan)] \<Longrightarrow>
    write_pages (blake3 E) next offsets (take k (zip offsets (plan_pages plan))) (disk W) = (Inr (), f) \<Longrightarrow>
    step E W ((finish w (Inl Io) W)\<lparr>disk := f\<rparr>)"
| capture: "read_batch (blake3 E) (store E) (pid E) (disk W) = Inr rb \<Longrightarrow>
    step E W (W\<lparr>readers := (readers W)(r := Some (rb_snapshot rb))\<rparr>)"
| crash: "crash_image (blake3 E) (synced W) (disk W) f \<Longrightarrow> read_snapshot (blake3 E) f = Inr s \<Longrightarrow>
    step E W (recover f s W)"

text \<open>A history starts with a new file, synchronized by \<open>create_inner\<close>, of a format without pipeline.\<close>

definition created :: "Env \<Rightarrow> World \<Rightarrow> bool" where
  "created E W \<longleftrightarrow>
    (\<exists>kb mv magic. layout_new kb mv = Inr (st_layout (store E))
       \<and> root_magic (st_format_version (store E)) = Some magic)
    \<and> st_format_version (store E) \<noteq> PIPELINED_FORMAT_VERSION
    \<and> create_header (blake3 E) \<lparr>file_bytes = [], io_fails = \<lambda>_. False\<rparr> (st_layout (store E))
        (st_format_version (store E)) = Inr (disk W)
    \<and> synced W = disk W \<and> gate W = None \<and> phase W = (\<lambda>_. Called) \<and> readers W = (\<lambda>_. None)
    \<and> log W = [] \<and> acked W = 0"

definition reachable :: "Env \<Rightarrow> World \<Rightarrow> bool" where
  "reachable E W \<longleftrightarrow> (\<exists>W0. created E W0 \<and> (step E)\<^sup>*\<^sup>* W0 W)"

section \<open>The serial specification\<close>

text \<open>\<open>serial E ws kvs\<close>: the batches of the calls \<open>ws\<close>, applied one after the other to an empty store,
  each validated on the records before it, give the records \<open>kvs\<close>.\<close>

inductive serial :: "Env \<Rightarrow> nat list \<Rightarrow> (bytes \<times> bytes) list \<Rightarrow> bool" for E where
  serial_Nil: "serial E [] []"
| serial_snoc: "serial E ws kvs \<Longrightarrow>
    decision (st_layout (store E)) (Suc (length ws)) kvs (validate E w) = Inr True \<Longrightarrow>
    batch_map (batch E w) (map_of kvs) = Some (map_of kvs') \<Longrightarrow> sorted_keys kvs' \<Longrightarrow>
    serial E (ws @ [w]) kvs'"

lemma serial_sorted: "serial E ws kvs \<Longrightarrow> sorted_keys kvs"
  by (induction rule: serial.induct) simp_all

lemma sorted_keys_map_of_eq:
  assumes "sorted_keys xs" "sorted_keys ys" "map_of xs = map_of ys"
  shows "xs = ys"
proof -
  have x: "sorted (map fst xs)" "distinct (map fst xs)" and y: "sorted (map fst ys)" "distinct (map fst ys)"
    using assms(1,2) strict_sorted_iff by blast+
  have s: "set xs = set ys"
    using map_of_eq_Some_iff [OF x(2)] map_of_eq_Some_iff [OF y(2)] assms(3) by auto
  have "inj_on fst (set xs \<union> set ys)" using x(2) s by (simp add: distinct_map)
  then show ?thesis using x y s by (intro map_sorted_distinct_set_unique)
qed

inductive_cases serial_NilE: "serial E [] kvs"

lemma serial_unique: "serial E ws kvs \<Longrightarrow> serial E ws kvs' \<Longrightarrow> kvs = kvs'"
proof (induction arbitrary: kvs' rule: serial.induct)
  case serial_Nil
  then show ?case by (cases rule: serial.cases) simp_all
next
  case (serial_snoc ws kvs w kvs1)
  from serial_snoc.prems obtain kvs0 where k: "serial E ws kvs0"
    "batch_map (batch E w) (map_of kvs0) = Some (map_of kvs')" "sorted_keys kvs'"
    by (cases rule: serial.cases) simp_all
  have "kvs0 = kvs" using serial_snoc.IH [OF k(1)] by simp
  then have "map_of kvs1 = map_of kvs'" using k(2) serial_snoc.hyps(3) by simp
  then show ?case using k(3) serial_snoc.hyps(4) by (intro sorted_keys_map_of_eq)
qed

section \<open>The invariant of a history\<close>

lemma same_pages_le: "same_pages f stop f' \<Longrightarrow> stop' \<le> stop \<Longrightarrow> same_pages f stop' f'"
  by (auto simp: same_pages_def)

lemma keeps_below_le: "keeps_below stop f f' \<Longrightarrow> stop' \<le> stop \<Longrightarrow> keeps_below stop' f f'"
  by (auto simp: keeps_below_def)

lemma keeps_below_set_len: "length (file_bytes f) \<le> n \<Longrightarrow> keeps_below stop f (set_len f n)"
  by (auto simp: keeps_below_def read_set_len)

lemma keeps_below_refl: "keeps_below stop f f"
  by (simp add: keeps_below_def)

lemma keeps_below_trans: "keeps_below stop f f' \<Longrightarrow> keeps_below stop f' f'' \<Longrightarrow> keeps_below stop f f''"
  by (auto simp: keeps_below_def)

lemma write_pages_keeps:
  "write_pages h next offsets xs f = (r, f') \<Longrightarrow> \<forall>(off, p) \<in> set xs. start \<le> off \<Longrightarrow> keeps_below start f f'"
proof (induction xs arbitrary: f)
  case Nil
  then show ?case by (simp add: keeps_below_refl)
next
  case (Cons x xs)
  obtain off p where x: "x = (off, p)" by force
  show ?case
  proof (cases "put_entries next offsets (plevel p) PREFIX (pentries p) (page_header next off p)")
    case (Inl e)
    then show ?thesis using Cons.prems x by (simp add: keeps_below_refl)
  next
    case (Inr bs)
    have "keeps_below start f (write_all_at f (seal h bs) off)"
      using Cons.prems(2) x by (auto simp: keeps_below_def intro!: read_write_other)
    moreover have "keeps_below start (write_all_at f (seal h bs) off) f'"
      using Cons.IH [of "write_all_at f (seal h bs) off"] Cons.prems x Inr by auto
    ultimately show ?thesis by (rule keeps_below_trans)
  qed
qed

lemma ptree_mono:
  assumes "ptree rd ps l r kvs" "\<And>off m. rd off = Inr m \<Longrightarrow> rd' off = Inr m"
  shows "ptree rd' ps l r kvs"
  using assms(1)
proof (induction rule: ptree.induct)
  case (existing offset m l kvs ps)
  then show ?case using assms(2) tree_mono(1) [OF existing(3) assms(2)] by (auto intro: ptree.existing)
next
  case (new_leaf i ps kvs)
  then show ?case by (auto intro: ptree.new_leaf)
next
  case (new_branch i ps l es kss)
  then show ?case by (intro ptree.new_branch) (auto elim: list_all2_mono)
qed

lemma plan_ok_mono:
  assumes "plan_ok rd s plan kvs" "\<And>off m. rd off = Inr m \<Longrightarrow> rd' off = Inr m"
  shows "plan_ok rd' s plan kvs"
proof -
  have "entry_ok rd' s i lev e" if "entry_ok rd s i lev e" for i lev e
    using that assms(2) by (fastforce simp: entry_ok_def split: PlannedValue.splits PageRef.splits)
  then have "pages_fit rd' s (plan_pages plan)" if "pages_fit rd s (plan_pages plan)"
    using that unfolding pages_fit_def page_ok_def by blast
  moreover have "ptree rd' (plan_pages plan) l r kvs" if "ptree rd (plan_pages plan) l r kvs" for l r
    using that assms(2) by (rule ptree_mono)
  ultimately show ?thesis
    using assms(1) unfolding plan_ok_def by (auto split: if_splits)
qed

text \<open>\<open>f\<close> is a file of the store whose published root is \<open>s\<close>, with the records \<open>kvs\<close>.\<close>

definition published :: "Env \<Rightarrow> File \<Rightarrow> Snapshot \<Rightarrow> (bytes \<times> bytes) list \<Rightarrow> bool" where
  "published E f s kvs \<longleftrightarrow> io_fails f = (\<lambda>_. False) \<and> store_snapshot (blake3 E) (store E) f = Inr s
    \<and> stored (blake3 E) f s kvs \<and> end_of s \<le> length (file_bytes f)"

lemma published_ok:
  "published E f s kvs \<Longrightarrow> snapshot_ok s \<and> read_snapshot (blake3 E) f = Inr s
    \<and> layout s = st_layout (store E) \<and> format_version s = st_format_version (store E)"
  by (auto simp: published_def store_snapshot_Inr intro: current_slot(1))

lemma published_keeps:
  assumes "published E f s kvs" "keeps_below (end_of s) f f'"
  shows "published E f' s kvs"
proof -
  note ok = published_ok [OF assms(1)]
  have hd: "HEADER_BYTES \<le> end_of s"
    using ok by (simp add: snapshot_ok_def data_start_def split: if_splits)
  have "read_exact_at f' HEADER_BYTES 0 = read_exact_at f HEADER_BYTES 0"
    using assms hd by (auto simp: keeps_below_def published_def)
  then have "read_snapshot (blake3 E) f' = read_snapshot (blake3 E) f" by (simp add: read_snapshot_def)
  then have "store_snapshot (blake3 E) (store E) f' = Inr s"
    using assms(1) by (simp add: store_snapshot_def published_def)
  moreover have "stored (blake3 E) f' s kvs"
    by (rule stored_mono [OF _ keeps_below_same_pages [OF assms(2) order_refl]])
       (use assms(1) ok in \<open>simp_all add: published_def snapshot_ok_def\<close>)
  moreover have "io_fails f' = io_fails f" "length (file_bytes f) \<le> length (file_bytes f')"
    using assms(2) by (simp_all add: keeps_below_def)
  ultimately show ?thesis
    using assms(1) unfolding published_def by simp
qed

text \<open>A root of the past: what a captured snapshot is worth later.\<close>

definition past :: "Env \<Rightarrow> File \<Rightarrow> nat list \<Rightarrow> nat \<Rightarrow> Snapshot \<Rightarrow> (bytes \<times> bytes) list \<Rightarrow> bool" where
  "past E f ws stop base kvs \<longleftrightarrow>
    (\<exists>n \<le> length ws. serial E (take n ws) kvs \<and> generation base = Suc n)
    \<and> stored (blake3 E) f base kvs \<and> snapshot_ok base \<and> layout base = st_layout (store E)
    \<and> format_version base = st_format_version (store E) \<and> end_of base \<le> stop"

lemma past_mono:
  assumes "past E f ws stop base kvs" "same_pages f stop f'" "stop \<le> stop'" "ws' = ws @ us"
  shows "past E f' ws' stop' base kvs"
proof -
  from assms(1) obtain n where n: "n \<le> length ws" "serial E (take n ws) kvs" "generation base = Suc n"
    and b: "stored (blake3 E) f base kvs" "snapshot_ok base" "layout base = st_layout (store E)"
      "format_version base = st_format_version (store E)" "end_of base \<le> stop"
    by (auto simp: past_def)
  have "end_of base mod PAGE_BYTES = 0" using b(2) by (simp add: snapshot_ok_def)
  then have "stored (blake3 E) f' base kvs"
    by (rule stored_mono [OF b(1) same_pages_le [OF assms(2) b(5)]])
  moreover have "take n ws' = take n ws" "n \<le> length ws'" "end_of base \<le> stop'"
    using n(1) b(5) assms(3,4) by simp_all
  ultimately show ?thesis using n b unfolding past_def by auto
qed

lemma past_current:
  "published E f s kvs \<Longrightarrow> serial E ws kvs \<Longrightarrow> generation s = Suc (length ws) \<Longrightarrow> past E f ws (end_of s) s kvs"
  using published_ok [of E f s kvs] by (auto simp: past_def published_def)

definition batch_ok :: "Env \<Rightarrow> nat \<Rightarrow> bool" where
  "batch_ok E w \<longleftrightarrow> owner_pid (store E) = pid E \<and> batch E w \<noteq> []
    \<and> (\<forall>m \<in> set (batch E w). mutation_ok (st_layout (store E)) m)
    \<and> st_format_version (store E) \<noteq> PIPELINED_FORMAT_VERSION"

text \<open>The batch of call \<open>w\<close> is accepted on the records \<open>kvs\<close> and turns them into \<open>kvs'\<close>.\<close>

definition accepted :: "Env \<Rightarrow> nat \<Rightarrow> nat \<Rightarrow> (bytes \<times> bytes) list \<Rightarrow> (bytes \<times> bytes) list \<Rightarrow> bool" where
  "accepted E w g kvs kvs' \<longleftrightarrow> decision (st_layout (store E)) g kvs (validate E w) = Inr True
    \<and> batch_map (batch E w) (map_of kvs) = Some (map_of kvs') \<and> sorted_keys kvs'"

definition planned_on ::
    "Env \<Rightarrow> File \<Rightarrow> nat \<Rightarrow> Snapshot \<Rightarrow> Snapshot \<Rightarrow> BatchPlan \<Rightarrow> (bytes \<times> bytes) list \<Rightarrow> (bytes \<times> bytes) list \<Rightarrow> bool" where
  "planned_on E f w base next plan kvs kvs' \<longleftrightarrow>
    next = base\<lparr>generation := generation base + 1, publication := generation base + 1\<rparr> \<and> snapshot_ok next
    \<and> accepted E w (generation base) kvs kvs' \<and> plan_ok (read_node (blake3 E) f base) base plan kvs'"

lemma planned_on_mono:
  assumes "planned_on E f w base next plan kvs kvs'" "same_pages f (end_of base) f'" "snapshot_ok base"
  shows "planned_on E f' w base next plan kvs kvs'"
proof -
  have "read_node (blake3 E) f' base off = Inr m" if "read_node (blake3 E) f base off = Inr m" for off m
    using assms by (intro read_node_mono [OF that _ assms(2)]) (simp_all add: extends_def snapshot_ok_def)
  with assms(1) plan_ok_mono show ?thesis by (auto simp: planned_on_def)
qed

definition written :: "Env \<Rightarrow> File \<Rightarrow> nat \<Rightarrow> Snapshot \<Rightarrow> Snapshot \<Rightarrow> (bytes \<times> bytes) list \<Rightarrow> (bytes \<times> bytes) list \<Rightarrow> bool" where
  "written E f w base next kvs kvs' \<longleftrightarrow> root_successor base next \<and> snapshot_ok next
    \<and> generation next = Suc (generation base) \<and> accepted E w (generation base) kvs kvs'
    \<and> stored (blake3 E) f next kvs' \<and> end_of next \<le> length (file_bytes f)"

definition returned_ok :: "Env \<Rightarrow> nat list \<Rightarrow> nat \<Rightarrow> nat \<Rightarrow> IsamError + bool \<Rightarrow> bool" where
  "returned_ok E ws acks w r \<longleftrightarrow> (r = Inr True \<longrightarrow> batch E w = [] \<or> w \<in> set (take acks ws))"

fun free_ok :: "Env \<Rightarrow> File \<Rightarrow> nat list \<Rightarrow> nat \<Rightarrow> nat \<Rightarrow> nat \<Rightarrow> Phase \<Rightarrow> bool" where
  "free_ok E f ws stop acks w Called \<longleftrightarrow> True"
| "free_ok E f ws stop acks w Started \<longleftrightarrow> batch_ok E w"
| "free_ok E f ws stop acks w (Based base) \<longleftrightarrow> batch_ok E w \<and> (\<exists>kvs. past E f ws stop base kvs)"
| "free_ok E f ws stop acks w (Prepared base next plan) \<longleftrightarrow>
    batch_ok E w \<and> (\<exists>kvs kvs'. past E f ws stop base kvs \<and> planned_on E f w base next plan kvs kvs')"
| "free_ok E f ws stop acks w (Returned r) \<longleftrightarrow> returned_ok E ws acks w r"
| "free_ok E f ws stop acks w Dead \<longleftrightarrow> True"
| "free_ok E f ws stop acks w _ \<longleftrightarrow> False"

fun gated_ok :: "Env \<Rightarrow> World \<Rightarrow> Snapshot \<Rightarrow> (bytes \<times> bytes) list \<Rightarrow> nat \<Rightarrow> Phase \<Rightarrow> bool" where
  "gated_ok E W s kvs w (Reserved base next plan start) \<longleftrightarrow> batch_ok E w \<and> base = s
    \<and> (\<exists>kvs'. planned_on E (disk W) w base next plan kvs kvs')
    \<and> end_of s \<le> start \<and> start mod PAGE_BYTES = 0 \<and> start + length (plan_pages plan) * PAGE_BYTES \<le> I64_MAX
    \<and> start + length (plan_pages plan) * PAGE_BYTES \<le> length (file_bytes (disk W))"
| "gated_ok E W s kvs w (Written base next) \<longleftrightarrow> batch_ok E w \<and> base = s
    \<and> (\<exists>kvs'. written E (disk W) w base next kvs kvs')"
| "gated_ok E W s kvs w (PagesSynced base next) \<longleftrightarrow> batch_ok E w \<and> base = s
    \<and> (\<exists>kvs'. written E (disk W) w base next kvs kvs') \<and> synced W = disk W"
| "gated_ok E W s kvs w RootWritten \<longleftrightarrow> batch_ok E w \<and> w \<in> set (log W)"
| "gated_ok E W s kvs w _ \<longleftrightarrow> False"

definition phase_ok :: "Env \<Rightarrow> World \<Rightarrow> Snapshot \<Rightarrow> (bytes \<times> bytes) list \<Rightarrow> nat \<Rightarrow> bool" where
  "phase_ok E W s kvs w \<longleftrightarrow> free_ok E (disk W) (log W) (end_of s) (acked W) w (phase W w)
    \<or> (gate W = Some w \<and> gated_ok E W s kvs w (phase W w))"

lemma free_ok_mono:
  assumes "free_ok E f ws stop acks w p" "same_pages f stop f'" "stop \<le> stop'" "ws' = ws @ us"
    "acks \<le> acks'"
  shows "free_ok E f' ws' stop' acks' w p"
proof (cases p)
  case (Based base)
  then show ?thesis using assms past_mono [OF _ assms(2,3,4)] by auto
next
  case (Prepared base nxt plan)
  with assms(1) obtain kvs kvs' where "batch_ok E w" "past E f ws stop base kvs"
    "planned_on E f w base nxt plan kvs kvs'" by auto
  moreover from this have "same_pages f (end_of base) f'" "snapshot_ok base"
    using same_pages_le [OF assms(2)] by (auto simp: past_def)
  ultimately show ?thesis
    using Prepared past_mono [OF _ assms(2,3,4)] planned_on_mono by fastforce
next
  case (Returned r)
  have "set (take acks ws) \<subseteq> set (take acks' ws')"
    using set_take_subset_set_take [OF assms(5), of ws'] assms(4) by auto
  then show ?thesis using Returned assms(1) by (auto simp: returned_ok_def)
qed (use assms in auto)

definition readers_ok :: "Env \<Rightarrow> World \<Rightarrow> nat \<Rightarrow> bool" where
  "readers_ok E W stop \<longleftrightarrow> (\<forall>r rs. readers W r = Some rs \<longrightarrow> (\<exists>kvs. past E (disk W) (log W) stop rs kvs))"

definition may_have_committed :: "Phase \<Rightarrow> bool" where
  "may_have_committed p \<longleftrightarrow> p \<in> {RootWritten, Returned (Inr True), Returned (Inl CommitUnknown), Dead}"

definition honest :: "World \<Rightarrow> bool" where
  "honest W \<longleftrightarrow> distinct (log W) \<and> (\<forall>w \<in> set (log W). may_have_committed (phase W w))"

text \<open>The synchronized file has a root of the history, at least as new as every acknowledged one; it
  agrees with the file on every page of the published root and on at least one root slot.\<close>

definition agree :: "File \<Rightarrow> File \<Rightarrow> nat \<Rightarrow> bool" where
  "agree f f' stop \<longleftrightarrow>
    (\<forall>p. HEADER_BYTES \<le> p \<longrightarrow> p + PAGE_BYTES \<le> stop \<longrightarrow> read_exact_at f PAGE_BYTES p = read_exact_at f' PAGE_BYTES p)"

definition synced_ok :: "Env \<Rightarrow> World \<Rightarrow> Snapshot \<Rightarrow> bool" where
  "synced_ok E W s \<longleftrightarrow>
    (\<exists>s0 kvs0 n. published E (synced W) s0 kvs0 \<and> serial E (take n (log W)) kvs0 \<and> generation s0 = Suc n
      \<and> acked W \<le> n \<and> n \<le> length (log W) \<and> end_of s0 \<le> end_of s)
    \<and> end_of s \<le> length (file_bytes (synced W)) \<and> agree (synced W) (disk W) (end_of s)
    \<and> (\<exists>k < 2. root_slot (synced W) k = root_slot (disk W) k)"

definition inv_at :: "Env \<Rightarrow> World \<Rightarrow> Snapshot \<Rightarrow> (bytes \<times> bytes) list \<Rightarrow> bool" where
  "inv_at E W s kvs \<longleftrightarrow> published E (disk W) s kvs \<and> serial E (log W) kvs
    \<and> generation s = Suc (length (log W)) \<and> synced_ok E W s \<and> (\<forall>w. phase_ok E W s kvs w)
    \<and> readers_ok E W (end_of s) \<and> honest W"

lemma gated_ok_cong:
  "disk W' = disk W \<Longrightarrow> synced W' = synced W \<Longrightarrow> log W' = log W \<Longrightarrow> gated_ok E W' s kvs w p = gated_ok E W s kvs w p"
  by (cases p) simp_all

lemma honest_update:
  assumes "honest W" "log W' = log W" "phase W' = (phase W)(w := p)" "w \<in> set (log W) \<Longrightarrow> may_have_committed p"
  shows "honest W'"
  using assms by (auto simp: honest_def)

text \<open>An action that leaves the files and the log alone.\<close>

lemma inv_quiet:
  assumes inv: "inv_at E W s kvs"
    and same: "disk W' = disk W" "synced W' = synced W" "log W' = log W" "acked W' = acked W" "readers W' = readers W"
    and ph: "phase W' = (phase W)(w := p)"
    and g: "gate W' = gate W \<or> gate W = None \<and> gate W' = Some w \<or> gate W = Some w \<and> gate W' = None"
    and p: "phase_ok E W' s kvs w" "w \<in> set (log W) \<Longrightarrow> may_have_committed p"
  shows "inv_at E W' s kvs"
proof -
  have "phase_ok E W' s kvs v" for v
  proof (cases "v = w")
    case False
    have "phase_ok E W s kvs v" using inv by (simp add: inv_at_def)
    moreover have "gate W = Some v \<Longrightarrow> gate W' = Some v" using g False by auto
    ultimately show ?thesis
      using False gated_ok_cong [OF same(1-3)] same ph by (auto simp: phase_ok_def)
  qed (use p in simp)
  moreover have "synced_ok E W' s" using inv same by (simp add: inv_at_def synced_ok_def)
  moreover have "readers_ok E W' (end_of s)" using inv same by (simp add: inv_at_def readers_ok_def)
  moreover have "honest W'" using inv same ph p(2) by (auto simp: inv_at_def intro: honest_update)
  ultimately show ?thesis using inv same by (simp add: inv_at_def)
qed

lemma inv_become:
  assumes "inv_at E W s kvs" "free_ok E (disk W) (log W) (end_of s) (acked W) w p"
    "w \<in> set (log W) \<Longrightarrow> may_have_committed p"
  shows "inv_at E (become w p W) s kvs"
  by (rule inv_quiet [OF assms(1), of _ w p]) (use assms in \<open>simp_all add: become_def phase_ok_def\<close>)

lemma inv_finish:
  assumes "inv_at E W s kvs" "returned_ok E (log W) (acked W) w r" "w \<in> set (log W) \<Longrightarrow> may_have_committed (Returned r)"
  shows "inv_at E (finish w r W) s kvs"
  by (rule inv_quiet [OF assms(1), of _ w "Returned r"]) (use assms in \<open>auto simp: finish_def phase_ok_def\<close>)

lemma inv_die:
  assumes "inv_at E W s kvs"
  shows "inv_at E ((finish w r W)\<lparr>phase := (phase W)(w := Dead)\<rparr>) s kvs"
  by (rule inv_quiet [OF assms, of _ w Dead])
     (use assms in \<open>auto simp: finish_def phase_ok_def may_have_committed_def\<close>)

lemma not_logged:
  assumes "inv_at E W s kvs" "\<not> may_have_committed (phase W w)"
  shows "w \<notin> set (log W)"
  using assms by (auto simp: inv_at_def honest_def)

text \<open>An action of the only process that may touch the file, which appends behind the published root.\<close>

lemma inv_append:
  assumes inv: "inv_at E W s kvs" and keeps: "keeps_below (end_of s) (disk W) f" and g: "gate W = Some w"
    and same: "disk W' = f" "synced W' = synced W" "log W' = log W" "acked W' = acked W" "readers W' = readers W"
    and ph: "phase W' = (phase W)(w := p)"
    and p: "phase_ok E W' s kvs w" "w \<in> set (log W) \<Longrightarrow> may_have_committed p"
  shows "inv_at E W' s kvs"
proof -
  have pub: "published E (disk W) s kvs" using inv by (simp add: inv_at_def)
  have pages: "same_pages (disk W) (end_of s) f" using keeps by (rule keeps_below_same_pages) simp
  have "phase_ok E W' s kvs v" for v
  proof (cases "v = w")
    case False
    have "phase_ok E W s kvs v" using inv by (simp add: inv_at_def)
    then have "free_ok E (disk W) (log W) (end_of s) (acked W) v (phase W v)"
      using g False by (simp add: phase_ok_def)
    then have "free_ok E f (log W) (end_of s) (acked W) v (phase W v)"
      by (rule free_ok_mono [OF _ pages, where us = "[]"]) simp_all
    then show ?thesis using same ph False by (simp add: phase_ok_def)
  qed (use p in simp)
  moreover have "synced_ok E W' s"
  proof -
    have hd: "HEADER_BYTES \<le> end_of s" "end_of s \<le> length (file_bytes (disk W))"
      using pub published_ok [OF pub] by (auto simp: snapshot_ok_def data_start_def published_def split: if_splits)
    have "agree (synced W) f (end_of s)" if "agree (synced W) (disk W) (end_of s)"
      using that keeps hd(2) by (auto simp: agree_def keeps_below_def)
    moreover have "root_slot f k = root_slot (disk W) k" if "k < 2" for k
    proof -
      have "k * PAGE_BYTES + PAGE_BYTES \<le> end_of s" using that hd(1) by (auto simp: isam_consts less_2_cases_iff)
      with keeps hd(2) have "read_exact_at f PAGE_BYTES (k * PAGE_BYTES) = read_exact_at (disk W) PAGE_BYTES (k * PAGE_BYTES)"
        by (auto simp: keeps_below_def)
      moreover have "io_fails (disk W) = (\<lambda>_. False)" "io_fails f = (\<lambda>_. False)"
        "length (file_bytes (disk W)) \<le> length (file_bytes f)"
        using pub keeps by (auto simp: published_def keeps_below_def)
      ultimately show ?thesis
        using \<open>k * PAGE_BYTES + PAGE_BYTES \<le> end_of s\<close> hd(2)
        by (simp add: root_slot_def read_exact_at_def split: if_splits)
    qed
    ultimately show ?thesis using inv same unfolding inv_at_def synced_ok_def by metis
  qed
  moreover have "readers_ok E W' (end_of s)"
    using inv same past_mono [OF _ pages order_refl, where us = "[]"]
    unfolding inv_at_def readers_ok_def by fastforce
  moreover have "honest W'" using inv same ph p(2) by (auto simp: inv_at_def intro: honest_update)
  ultimately show ?thesis using inv same published_keeps [OF pub keeps] by (simp add: inv_at_def)
qed

section \<open>Every action keeps the invariant\<close>

lemma step_called:
  assumes inv: "inv_at E W s kvs" and p: "phase W w = Called"
    and v: "st_format_version (store E) \<noteq> PIPELINED_FORMAT_VERSION"
  shows "inv_at E (writer_step E w W) s kvs"
proof -
  have nl: "w \<notin> set (log W)" using inv p by (intro not_logged) (simp_all add: may_have_committed_def)
  show ?thesis
  proof (cases "check_batch (store E) (pid E) (batch E w) (lock_keys E w)")
    case (Inl e)
    then show ?thesis using inv p nl by (auto simp: writer_step_def returned_ok_def intro!: inv_finish)
  next
    case (Inr b)
    note b = check_batch_Inr [OF Inr]
    then show ?thesis
      using Inr inv p nl v
      by (cases b) (auto simp: writer_step_def batch_ok_def returned_ok_def intro!: inv_finish inv_become)
  qed
qed

lemma step_started:
  assumes inv: "inv_at E W s kvs" and p: "phase W w = Started"
  shows "inv_at E (writer_step E w W) s kvs"
proof -
  have nl: "w \<notin> set (log W)" using inv p by (intro not_logged) (simp_all add: may_have_committed_def)
  have "phase_ok E W s kvs w" using inv by (simp add: inv_at_def)
  then have "batch_ok E w" using p by (simp add: phase_ok_def)
  moreover have "past E (disk W) (log W) (end_of s) s kvs"
    using inv by (intro past_current) (simp_all add: inv_at_def)
  moreover have "store_snapshot (blake3 E) (store E) (disk W) = Inr s"
    using inv by (simp add: inv_at_def published_def)
  ultimately show ?thesis
    using inv p nl by (auto simp: writer_step_def intro!: inv_become)
qed

lemma attempt_plan_spec:
  assumes b: "batch_ok E w" and past: "past E f ws stop base kvs"
  obtains e c where "attempt_plan (blake3 E) (node_bytes E) (store E) (pid E) f base (validate E w) (batch E w) = Some (Inl e, c)"
  | c where "attempt_plan (blake3 E) (node_bytes E) (store E) (pid E) f base (validate E w) (batch E w) = Some (Inr None, c)"
  | nxt plan c kvs' where
    "attempt_plan (blake3 E) (node_bytes E) (store E) (pid E) f base (validate E w) (batch E w) = Some (Inr (Some (nxt, plan)), c)"
    "planned_on E f w base nxt plan kvs kvs'"
proof -
  let ?h = "blake3 E" and ?nb = "node_bytes E" and ?l = "st_layout (store E)"
  let ?read = "\<lparr>rb_snapshot = base, rb_owner_pid = owner_pid (store E)\<rparr>"
  have base: "stored ?h f base kvs" "snapshot_ok base" "layout base = ?l"
    "format_version base = st_format_version (store E)"
    using past by (auto simp: past_def)
  have sorted: "sorted_keys kvs" using past serial_sorted by (auto simp: past_def)
  obtain c where v: "run_validator ?h ?nb f ?read (pid E) (validate E w) (Some empty_cache) =
      Some (decision ?l (generation base) kvs (validate E w), c)" "cache_ok ?h ?nb f base c"
    using run_validator_runs [of ?h f ?read kvs "pid E" ?nb "Some empty_cache" "validate E w"] base b cache_ok_empty_cache
    by (auto simp: runs_def batch_ok_def)
  define nxt where "nxt = base\<lparr>generation := generation base + 1, publication := generation base + 1\<rparr>"
  have eq: "attempt_plan ?h ?nb (store E) (pid E) f base (validate E w) (batch E w) =
      bind_step (Some (decision ?l (generation base) kvs (validate E w), c)) (\<lambda>valid c.
       if \<not> valid then Some (Inr None, c)
       else if generation base + 1 \<ge> 2 ^ 64 then Some (Inl Invalid, c)
       else bind_step (prepare_batch ?h ?nb f base (batch E w) c) (\<lambda>plan c. Some (Inr (Some (nxt, plan)), c)))"
    unfolding attempt_plan_def Let_def v(1) nxt_def ..
  show thesis
  proof (cases "decision ?l (generation base) kvs (validate E w)")
    case (Inl e)
    then show thesis using eq that(1) by (simp add: bind_step_def)
  next
    case (Inr valid)
    show thesis
    proof (cases "valid \<and> generation base + 1 < 2 ^ 64")
      case False
      then consider "\<not> valid" | "valid" "generation base + 1 \<ge> 2 ^ 64" by linarith
      then show thesis
      proof cases
        case 1
        then show thesis using Inr eq that(2) by (simp add: bind_step_def)
      next
        case 2
        then show thesis using Inr eq that(1) by (simp add: bind_step_def)
      qed
    next
      case True
      have ms: "\<forall>m \<in> set (batch E w). mutation_ok (layout base) m" using b base(3) by (simp add: batch_ok_def)
      note am = apply_mutations_batch_map [OF sorted, of "sort_key mutation_key (batch E w)"]
      have nok: "snapshot_ok nxt" using True base(2,4) b by (simp add: nxt_def snapshot_ok_def batch_ok_def)
      show thesis
      proof (cases "apply_mutations (sort_key mutation_key (batch E w)) kvs")
        case (Inl e)
        with prepare_batch_plan [OF base(1) v(2) base(2) ms] obtain c' where
          "prepare_batch ?h ?nb f base (batch E w) c = Some (Inl e, c')" by (auto simp: runs_def)
        then show thesis using Inr True eq that(1) by (simp add: bind_step_def)
      next
        case app: (Inr kvs')
        with prepare_batch_plan [OF base(1) v(2) base(2) ms]
        consider c' where "prepare_batch ?h ?nb f base (batch E w) c = Some (Inl Invalid, c')"
          | plan c2 where "prepare_batch ?h ?nb f base (batch E w) c = Some (Inr plan, c2)"
            "plan_ok (read_node ?h f base) base plan kvs'"
          by (auto simp: runs_def)
        then show thesis
        proof cases
          case 1
          then show thesis using Inr True eq that(1) by (simp add: bind_step_def)
        next
          case (2 plan c2)
          have "accepted E w (generation base) kvs kvs'"
            using Inr True am app by (simp add: accepted_def batch_map_sort)
          then have "planned_on E f w base nxt plan kvs kvs'"
            using 2 nok by (simp add: planned_on_def nxt_def)
          moreover have "attempt_plan ?h ?nb (store E) (pid E) f base (validate E w) (batch E w) =
              Some (Inr (Some (nxt, plan)), c2)"
            using 2 Inr True eq by (simp add: bind_step_def)
          ultimately show thesis using that(3) by blast
        qed
      qed
    qed
  qed
qed

lemma step_based:
  assumes inv: "inv_at E W s kvs" and p: "phase W w = Based base"
  shows "inv_at E (writer_step E w W) s kvs"
proof -
  have nl: "w \<notin> set (log W)" using inv p by (intro not_logged) (simp_all add: may_have_committed_def)
  have "phase_ok E W s kvs w" using inv by (simp add: inv_at_def)
  then obtain kb where b: "batch_ok E w" "past E (disk W) (log W) (end_of s) base kb"
    using p by (auto simp: phase_ok_def)
  from attempt_plan_spec [OF b] show ?thesis
  proof cases
    case (1 e c)
    then show ?thesis using inv p nl by (auto simp: writer_step_def returned_ok_def intro!: inv_finish)
  next
    case (2 c)
    then show ?thesis using inv p nl by (auto simp: writer_step_def returned_ok_def intro!: inv_finish)
  next
    case (3 nxt plan c kvs')
    then have "free_ok E (disk W) (log W) (end_of s) (acked W) w (Prepared base nxt plan)" using b by auto
    then show ?thesis using 3 inv p nl by (auto simp: writer_step_def simp del: free_ok.simps intro!: inv_become)
  qed
qed

lemma reserve_physical_pages_Inr:
  assumes "reserve_physical_pages f base n = Inr (start, f')" "snapshot_ok base" "end_of base \<le> length (file_bytes f)"
  shows "end_of base \<le> start" "start mod PAGE_BYTES = 0" "start + n * PAGE_BYTES \<le> I64_MAX"
    "start + n * PAGE_BYTES \<le> length (file_bytes f')" "keeps_below stop f f'"
  using assms
  by (auto simp: reserve_physical_pages_def Let_def snapshot_ok_def keeps_below_refl
      intro!: keeps_below_set_len split: if_splits)

lemma step_reserve:
  assumes inv: "inv_at E W s kvs" and p: "phase W w = Prepared base nxt plan" and g: "gate W = Some w"
    and r: "reserve_page_range (blake3 E) (store E) (disk W) base (length (plan_pages plan)) = Inr (Some (start, f))"
  shows "inv_at E ((become w (Reserved base nxt plan start) W)\<lparr>disk := f\<rparr>) s kvs"
proof -
  have nl: "w \<notin> set (log W)" using inv p by (intro not_logged) (simp_all add: may_have_committed_def)
  have pub: "published E (disk W) s kvs" using inv by (simp add: inv_at_def)
  have sok: "snapshot_ok s" using published_ok [OF pub] by simp
  have "phase_ok E W s kvs w" using inv by (simp add: inv_at_def)
  then obtain kb kvs' where b: "batch_ok E w" "past E (disk W) (log W) (end_of s) base kb"
    "planned_on E (disk W) w base nxt plan kb kvs'"
    using p by (auto simp: phase_ok_def)
  from r pub have base: "base = s"
    and res: "reserve_physical_pages (disk W) s (length (plan_pages plan)) = Inr (start, f)"
    by (auto simp: reserve_page_range_def published_def result_simps split: if_splits)
  have kb: "kb = kvs"
  proof -
    from b(2) base inv have "serial E (log W) kb" by (auto simp: past_def inv_at_def)
    with inv show ?thesis by (auto simp: inv_at_def intro: serial_unique)
  qed
  have len: "end_of s \<le> length (file_bytes (disk W))" using pub by (simp add: published_def)
  note r = reserve_physical_pages_Inr [OF res sok len]
  have "planned_on E f w s nxt plan kvs kvs'"
    using planned_on_mono [OF b(3)] keeps_below_same_pages [OF r(5) order_refl] base kb sok by simp
  then show ?thesis
    using r b(1) base g nl
    by (intro inv_append [OF inv r(5) g, of _ "Reserved base nxt plan start"])
       (auto simp: become_def phase_ok_def)
qed

lemma step_prepared:
  assumes inv: "inv_at E W s kvs" and p: "phase W w = Prepared base nxt plan"
  shows "inv_at E (writer_step E w W) s kvs"
proof -
  have nl: "w \<notin> set (log W)" using inv p by (intro not_logged) (simp_all add: may_have_committed_def)
  have ok: "phase_ok E W s kvs w" using inv by (simp add: inv_at_def)
  then have b: "batch_ok E w" using p by (auto simp: phase_ok_def)
  show ?thesis
  proof (cases "gate W")
    case None
    have "inv_at E (W\<lparr>gate := Some w\<rparr>) s kvs"
      using ok p None nl by (intro inv_quiet [OF inv, of _ w "Prepared base nxt plan"]) (auto simp: phase_ok_def)
    then show ?thesis using p None by (simp add: writer_step_def)
  next
    case (Some v)
    show ?thesis
    proof (cases "v = w")
      case True
      with Some have g: "gate W = Some w" by simp
      show ?thesis
      proof (cases "reserve_page_range (blake3 E) (store E) (disk W) base (length (plan_pages plan))")
        case (Inl e)
        then show ?thesis using inv p g nl by (auto simp: writer_step_def returned_ok_def intro!: inv_finish)
      next
        case (Inr res)
        then show ?thesis
          using inv p g nl b step_reserve [OF inv p g]
          by (cases res) (auto simp: writer_step_def intro!: inv_become)
      qed
    qed (use Some p inv in \<open>simp add: writer_step_def\<close>)
  qed
qed

lemma gated_phase:
  assumes "inv_at E W s kvs" "\<not> free_ok E (disk W) (log W) (end_of s) (acked W) w (phase W w)"
  shows "gate W = Some w" "gated_ok E W s kvs w (phase W w)"
  using assms by (auto simp: inv_at_def phase_ok_def)

lemma step_reserved:
  assumes inv: "inv_at E W s kvs" and p: "phase W w = Reserved base nxt plan start" and d: "digest_32 (blake3 E)"
  shows "\<exists>final f. writer_step E w W = (become w (Written s final) W)\<lparr>disk := f\<rparr> \<and> inv_at E (writer_step E w W) s kvs"
proof -
  have nl: "w \<notin> set (log W)" using inv p by (intro not_logged) (simp_all add: may_have_committed_def)
  have pub: "published E (disk W) s kvs" using inv by (simp add: inv_at_def)
  have sok: "snapshot_ok s" using published_ok [OF pub] by simp
  from gated_phase [OF inv, of w] p obtain kvs' where g: "gate W = Some w" "base = s" "batch_ok E w"
    "planned_on E (disk W) w s nxt plan kvs kvs'" "end_of s \<le> start" "start mod PAGE_BYTES = 0"
    "start + length (plan_pages plan) * PAGE_BYTES \<le> I64_MAX"
    "start + length (plan_pages plan) * PAGE_BYTES \<le> length (file_bytes (disk W))"
    by auto
  have n: "nxt = s\<lparr>generation := generation s + 1, publication := generation s + 1\<rparr>" "snapshot_ok nxt"
    "accepted E w (generation s) kvs kvs'" "plan_ok (read_node (blake3 E) (disk W) s) s plan kvs'"
    using g(4) unfolding planned_on_def by blast+
  have "extends s nxt" using n(1) by (simp add: extends_def)
  moreover have "\<forall>offset \<ge> start. \<not> io_fails (disk W) offset" using pub by (simp add: published_def)
  ultimately obtain final f where f: "write_plan (blake3 E) (disk W) s nxt start plan = (Inr final, f)"
    "keeps_below start (disk W) f" "stored (blake3 E) f final kvs'" "snapshot_ok final"
    "final = nxt\<lparr>root := root final,
       end_of := if plan_pages plan = [] then end_of nxt else start + length (plan_pages plan) * PAGE_BYTES\<rparr>"
    using write_plan_stored [OF d n(4) sok n(2) _ g(5-7)] by blast
  define e where "e = (if plan_pages plan = [] then end_of nxt else start + length (plan_pages plan) * PAGE_BYTES)"
  have e: "end_of final = e" "end_of s \<le> e" "e \<le> length (file_bytes (disk W))"
    by (subst f(5), simp add: e_def) (use n(1) g(5,8) pub in \<open>simp_all add: published_def e_def\<close>)
  have fields: "layout final = layout s" "format_version final = format_version s"
    "generation final = Suc (generation s)" "publication final = Suc (generation s)"
    by (subst f(5), simp add: n(1))+
  have "publication s = generation s"
    using sok published_ok [OF pub] g(3) by (simp add: snapshot_ok_def batch_ok_def)
  then have "root_successor s final" using fields e by (simp add: root_successor_def)
  moreover have "e \<le> length (file_bytes f)" using e f(2) by (simp add: keeps_below_def)
  ultimately have "written E f w s final kvs kvs'"
    using fields f n(3) e by (simp add: written_def)
  then have "inv_at E ((become w (Written s final) W)\<lparr>disk := f\<rparr>) s kvs"
    using g nl by (intro inv_append [OF inv keeps_below_le [OF f(2) g(5)] g(1), of _ "Written s final"])
      (auto simp: become_def phase_ok_def)
  then show ?thesis using p g(2) f(1) by (auto simp: writer_step_def)
qed

lemma agree_refl: "agree f f stop" by (simp add: agree_def)

text \<open>Synchronizing makes the published root durable.\<close>

lemma synced_ok_sync:
  assumes "inv_at E W s kvs" "disk W' = disk W" "synced W' = disk W" "log W' = log W" "acked W' \<le> length (log W)"
  shows "synced_ok E W' s"
  unfolding synced_ok_def
proof (intro conjI)
  show "\<exists>s0 kvs0 n. published E (synced W') s0 kvs0 \<and> serial E (take n (log W')) kvs0 \<and> generation s0 = Suc n
      \<and> acked W' \<le> n \<and> n \<le> length (log W') \<and> end_of s0 \<le> end_of s"
    using assms by (intro exI [of _ s] exI [of _ kvs] exI [of _ "length (log W)"]) (simp add: inv_at_def)
qed (use assms in \<open>auto simp: inv_at_def published_def agree_refl intro!: exI [of _ 0]\<close>)

lemma inv_sync:
  assumes inv: "inv_at E W s kvs" and g: "gate W = Some w"
    and same: "disk W' = disk W" "synced W' = disk W" "log W' = log W" "readers W' = readers W"
    and acks: "acked W \<le> acked W'" "acked W' \<le> length (log W)"
    and ph: "phase W' = (phase W)(w := p)"
    and p: "phase_ok E W' s kvs w" "w \<in> set (log W) \<Longrightarrow> may_have_committed p"
  shows "inv_at E W' s kvs"
proof -
  have "phase_ok E W' s kvs v" for v
  proof (cases "v = w")
    case False
    have "phase_ok E W s kvs v" using inv by (simp add: inv_at_def)
    then have "free_ok E (disk W) (log W) (end_of s) (acked W) v (phase W v)"
      using g False by (simp add: phase_ok_def)
    then have "free_ok E (disk W) (log W) (end_of s) (acked W') v (phase W v)"
      by (rule free_ok_mono [where us = "[]"]) (simp_all add: acks(1) same_pages_def)
    then show ?thesis using same ph False by (simp add: phase_ok_def)
  qed (use p in simp)
  moreover have "synced_ok E W' s" using inv same(1-3) acks(2) by (rule synced_ok_sync)
  moreover have "readers_ok E W' (end_of s)" using inv same by (simp add: inv_at_def readers_ok_def)
  moreover have "honest W'" using inv same ph p(2) by (auto simp: inv_at_def intro: honest_update)
  ultimately show ?thesis using inv same by (simp add: inv_at_def)
qed

lemma inv_acked: "inv_at E W s kvs \<Longrightarrow> acked W \<le> length (log W)"
  by (auto simp: inv_at_def synced_ok_def)

lemma step_written:
  assumes inv: "inv_at E W s kvs" and p: "phase W w = Written base nxt"
  shows "inv_at E (writer_step E w W) s kvs"
proof -
  have nl: "w \<notin> set (log W)" using inv p by (intro not_logged) (simp_all add: may_have_committed_def)
  from gated_phase [OF inv, of w] p have g: "gate W = Some w" "gated_ok E W s kvs w (Written base nxt)" by auto
  then have "inv_at E ((become w (PagesSynced base nxt) W)\<lparr>synced := disk W\<rparr>) s kvs"
    using inv_acked [OF inv] nl
    by (intro inv_sync [OF inv g(1), of _ "PagesSynced base nxt"]) (auto simp: become_def phase_ok_def)
  then show ?thesis using p by (simp add: writer_step_def)
qed

lemma step_root_written:
  assumes inv: "inv_at E W s kvs" and p: "phase W w = RootWritten"
  shows "inv_at E (writer_step E w W) s kvs"
proof -
  from gated_phase [OF inv, of w] p have g: "gate W = Some w" "w \<in> set (log W)" by auto
  then have "inv_at E ((finish w (Inr True) W)\<lparr>synced := disk W, acked := length (log W)\<rparr>) s kvs"
    using inv_acked [OF inv]
    by (intro inv_sync [OF inv g(1), of _ "Returned (Inr True)"])
       (auto simp: finish_def phase_ok_def returned_ok_def may_have_committed_def)
  then show ?thesis using p by (simp add: writer_step_def)
qed

lemma root_slot_simps:
  "root_slot f 0 = sub_slice (file_bytes f) 0 PAGE_BYTES"
  "root_slot f (Suc 0) = sub_slice (file_bytes f) PAGE_BYTES HEADER_BYTES"
  by (simp_all add: root_slot_def isam_consts)

lemma all_less_2: "(\<forall>k < 2. P k) \<longleftrightarrow> P 0 \<and> P (Suc 0)"
  by (auto simp: less_2_cases_iff)

lemma ex_less_2: "(\<exists>k < 2. P k) \<longleftrightarrow> P 0 \<or> P (Suc 0)"
  by (auto simp: less_2_cases_iff)

lemma step_publish:
  assumes inv: "inv_at E W s kvs" and p: "phase W w = PagesSynced base nxt" and d: "digest_32 (blake3 E)"
  shows "\<exists>f kvs'. writer_step E w W = (become w RootWritten W)\<lparr>disk := f, log := log W @ [w]\<rparr>
    \<and> inv_at E (writer_step E w W) nxt kvs'"
proof -
  have nl: "w \<notin> set (log W)" using inv p by (intro not_logged) (simp_all add: may_have_committed_def)
  have pub: "published E (disk W) s kvs" using inv by (simp add: inv_at_def)
  note ok = published_ok [OF pub]
  from gated_phase [OF inv, of w] p obtain kvs' where g: "gate W = Some w" "base = s" "batch_ok E w"
    "written E (disk W) w s nxt kvs kvs'" "synced W = disk W"
    by auto
  have n: "root_successor s nxt" "snapshot_ok nxt" "generation nxt = Suc (generation s)"
    "accepted E w (generation s) kvs kvs'" "stored (blake3 E) (disk W) nxt kvs'"
    "end_of nxt \<le> length (file_bytes (disk W))"
    using g(4) by (simp_all add: written_def)
  have suc: "layout nxt = layout s" "format_version nxt = format_version s" "end_of s \<le> end_of nxt"
    using n(1) by (simp_all add: root_successor_def)
  obtain f where f: "write_snapshot (blake3 E) (disk W) nxt = Inr f" "read_snapshot (blake3 E) f = Inr nxt"
    "io_fails f = io_fails (disk W)" "length (file_bytes f) = length (file_bytes (disk W))"
    "\<And>p n. HEADER_BYTES \<le> p \<Longrightarrow> read_exact_at f n p = read_exact_at (disk W) n p"
    "sub_slice (file_bytes f) 0 PAGE_BYTES = sub_slice (file_bytes (disk W)) 0 PAGE_BYTES
      \<or> sub_slice (file_bytes f) PAGE_BYTES HEADER_BYTES = sub_slice (file_bytes (disk W)) PAGE_BYTES HEADER_BYTES"
    using publish_root [OF d _ n(2,1)] ok by metis
  define W' where "W' = (become w RootWritten W)\<lparr>disk := f, log := log W @ [w]\<rparr>"
  have W': "disk W' = f" "synced W' = disk W" "log W' = log W @ [w]" "acked W' = acked W"
    "gate W' = Some w" "phase W' = (phase W)(w := RootWritten)" "readers W' = readers W"
    using g by (simp_all add: W'_def become_def)
  have pages: "same_pages (disk W) stop f" for stop
    by (simp add: same_pages_def f(5))
  have "published E f nxt kvs'"
  proof -
    have "stored (blake3 E) f nxt kvs'"
      using n(5) pages by (rule stored_mono) (use n(2) in \<open>simp add: snapshot_ok_def\<close>)
    moreover have "io_fails f = (\<lambda>_. False)" using f(3) pub by (simp add: published_def)
    ultimately show ?thesis
      using f n(6) suc ok by (simp add: published_def store_snapshot_Inr)
  qed
  moreover have "serial E (log W') kvs'" "generation nxt = Suc (length (log W'))"
    using inv n(3,4) W' by (auto simp: inv_at_def accepted_def intro!: serial_snoc)
  moreover have "synced_ok E W' nxt"
    unfolding synced_ok_def
  proof (intro conjI)
    show "\<exists>s0 kvs0 n. published E (synced W') s0 kvs0 \<and> serial E (take n (log W')) kvs0 \<and> generation s0 = Suc n
        \<and> acked W' \<le> n \<and> n \<le> length (log W') \<and> end_of s0 \<le> end_of nxt"
      using inv W' suc(3) inv_acked [OF inv] pub
      by (intro exI [of _ s] exI [of _ kvs] exI [of _ "length (log W)"]) (simp add: inv_at_def)
    show "\<exists>k < 2. root_slot (synced W') k = root_slot (disk W') k"
      using f(6) W' by (auto simp: ex_less_2 root_slot_simps)
  qed (use W' n(6) f(5) in \<open>auto simp: agree_def\<close>)
  moreover have "phase_ok E W' nxt kvs' v" for v
  proof (cases "v = w")
    case False
    have "phase_ok E W s kvs v" using inv by (simp add: inv_at_def)
    then have "free_ok E (disk W) (log W) (end_of s) (acked W) v (phase W v)"
      using g(1) False by (simp add: phase_ok_def)
    then have "free_ok E f (log W @ [w]) (end_of nxt) (acked W) v (phase W v)"
      using suc(3) by (rule free_ok_mono [OF _ pages]) simp_all
    then show ?thesis using W' False by (simp add: phase_ok_def)
  qed (use W' g(3) in \<open>simp add: phase_ok_def\<close>)
  moreover have "readers_ok E W' (end_of nxt)"
    using inv W' past_mono [OF _ pages suc(3), where us = "[w]"]
    unfolding inv_at_def readers_ok_def by fastforce
  moreover have "honest W'"
    using inv nl W' by (auto simp: inv_at_def honest_def may_have_committed_def)
  ultimately have "inv_at E W' nxt kvs'" using W' by (simp add: inv_at_def)
  moreover have "writer_step E w W = W'"
    using p g(2) f(1) pub by (simp add: writer_step_def publish_def published_def W'_def)
  ultimately show ?thesis unfolding W'_def by auto
qed

lemma step_writer:
  assumes inv: "inv_at E W s kvs" and d: "digest_32 (blake3 E)"
    and v: "st_format_version (store E) \<noteq> PIPELINED_FORMAT_VERSION"
  shows "\<exists>s' kvs'. inv_at E (writer_step E w W) s' kvs'"
proof (cases "phase W w")
  case (PagesSynced base nxt)
  then show ?thesis using step_publish [OF inv _ d] by blast
qed (use step_called [OF inv _ v] step_started [OF inv] step_based [OF inv] step_prepared [OF inv]
      step_reserved [OF inv _ d] step_written [OF inv] step_root_written [OF inv] inv
     in \<open>(blast | (auto simp: writer_step_def)[])+\<close>)

lemma step_abort:
  assumes inv: "inv_at E W s kvs" and r: "running (phase W w)"
  shows "inv_at E (finish w (Inl (abort_error (phase W w) e)) W) s kvs"
proof (rule inv_finish [OF inv])
  assume "w \<in> set (log W)"
  then have "may_have_committed (phase W w)" using inv by (simp add: inv_at_def honest_def)
  then have "phase W w = RootWritten" using r by (auto simp: may_have_committed_def)
  then show "may_have_committed (Returned (Inl (abort_error (phase W w) e)))"
    by (simp add: abort_error_def may_have_committed_def)
qed (simp add: returned_ok_def)

lemma step_partial:
  assumes inv: "inv_at E W s kvs" and p: "phase W w = Reserved base nxt plan start"
    and o: "offsets = map (\<lambda>index. start + index * PAGE_BYTES) [0..<length (plan_pages plan)]"
    and wr: "write_pages (blake3 E) nxt offsets (take k (zip offsets (plan_pages plan))) (disk W) = (Inr (), f)"
  shows "inv_at E ((finish w (Inl Io) W)\<lparr>disk := f\<rparr>) s kvs"
proof -
  have nl: "w \<notin> set (log W)" using inv p by (intro not_logged) (simp_all add: may_have_committed_def)
  from gated_phase [OF inv, of w] p have g: "gate W = Some w" "end_of s \<le> start" by auto
  have "\<forall>(off, q) \<in> set (take k (zip offsets (plan_pages plan))). start \<le> off"
    using o by (auto dest!: in_set_takeD set_zip_leftD)
  then have "keeps_below start (disk W) f" by (rule write_pages_keeps [OF wr])
  then have "keeps_below (end_of s) (disk W) f" using g(2) by (rule keeps_below_le)
  then show ?thesis
    using nl g(1) by (intro inv_append [OF inv _ g(1), of _ _ "Returned (Inl Io)"])
      (auto simp: finish_def phase_ok_def returned_ok_def)
qed

lemma step_capture:
  assumes inv: "inv_at E W s kvs" and r: "read_batch (blake3 E) (store E) (pid E) (disk W) = Inr rb"
  shows "inv_at E (W\<lparr>readers := (readers W)(r := Some (rb_snapshot rb))\<rparr>) s kvs"
proof -
  have "rb_snapshot rb = s"
    using r inv by (auto simp: read_batch_def check_process_def check_that_def result_simps inv_at_def published_def)
  moreover have "past E (disk W) (log W) (end_of s) s kvs"
    using inv by (intro past_current) (simp_all add: inv_at_def)
  moreover have "gated_ok E (W\<lparr>readers := x\<rparr>) s kvs v q = gated_ok E W s kvs v q" for x v q
    by (rule gated_ok_cong) simp_all
  ultimately show ?thesis
    using inv by (auto simp: inv_at_def readers_ok_def phase_ok_def synced_ok_def honest_def)
qed

section \<open>Crashes\<close>

text \<open>After a crash the root slots are those of the synchronized file or those of the file, or one is
  torn and the file is refused.\<close>

lemma read_snapshot_slots:
  assumes "read_snapshot h f = Inr s" "HEADER_BYTES \<le> length (file_bytes f')" "\<not> io_fails f' 0"
    "\<forall>k < 2. root_slot f' k = root_slot f k"
  shows "read_snapshot h f' = Inr s"
  using assms by (elim read_snapshot_Inr) (simp add: all_less_2 root_slot_simps read_snapshot_I)

lemma read_snapshot_torn:
  assumes "HEADER_BYTES \<le> length (file_bytes f)" "\<not> io_fails f 0" "k < 2" "j < 2" "j \<noteq> k"
    "decode_snapshot h (root_slot f k) (Some k) = Inl Corrupt"
    "decode_snapshot h (root_slot f j) (Some j) = Inr A"
  shows "read_snapshot h f = Inl Corrupt"
proof -
  have "take PAGE_BYTES (sub_slice (file_bytes f) 0 HEADER_BYTES) = root_slot f 0"
    "drop PAGE_BYTES (sub_slice (file_bytes f) 0 HEADER_BYTES) = root_slot f (Suc 0)"
    by (simp_all add: sub_slice_def root_slot_def isam_consts drop_take)
  then show ?thesis
    using assms by (auto simp: read_snapshot_def read_exact_at_def less_2_cases_iff)
qed

lemma crash_image_root:
  assumes c: "crash_image h clean dirty f" and clean: "read_snapshot h clean = Inr s0"
    and dirty: "read_snapshot h dirty = Inr s" and k: "k < 2" "root_slot clean k = root_slot dirty k"
  shows "read_snapshot h f = Inr s0 \<or> read_snapshot h f = Inr s \<or> read_snapshot h f = Inl Corrupt"
proof -
  have f: "HEADER_BYTES \<le> length (file_bytes f)" "\<not> io_fails f 0" using c by (simp_all add: crash_image_def)
  have slot: "root_slot f i = root_slot clean i \<or> root_slot f i = root_slot dirty i
      \<or> (root_slot clean i \<noteq> root_slot dirty i \<and> decode_snapshot h (root_slot f i) (Some i) = Inl Corrupt)" if "i < 2" for i
    using c that by (simp add: crash_image_def)
  define j where "j = 1 - k"
  have j: "j < 2" "j \<noteq> k" "\<And>i. i < 2 \<Longrightarrow> i = j \<or> i = k" using k(1) by (auto simp: j_def less_2_cases_iff)
  have fk: "root_slot f k = root_slot clean k" using slot [OF k(1)] k(2) by auto
  from slot [OF j(1)] consider "root_slot f j = root_slot clean j" | "root_slot f j = root_slot dirty j"
    | "decode_snapshot h (root_slot f j) (Some j) = Inl Corrupt" by blast
  then show ?thesis
  proof cases
    case 1
    then have "\<forall>i < 2. root_slot f i = root_slot clean i" using fk j(3) by auto
    then show ?thesis using read_snapshot_slots [OF clean f] by simp
  next
    case 2
    then have "\<forall>i < 2. root_slot f i = root_slot dirty i" using fk k(2) j(3) by auto
    then show ?thesis using read_snapshot_slots [OF dirty f] by simp
  next
    case 3
    obtain A where "decode_snapshot h (root_slot clean k) (Some k) = Inr A"
      using clean k(1) by (elim read_snapshot_Inr) (auto simp: less_2_cases_iff root_slot_simps)
    then show ?thesis using 3 read_snapshot_torn [OF f j(1) k(1)] j(2) fk by auto
  qed
qed

text \<open>What a crash leaves: a prefix of the history that has every acknowledged batch.\<close>

lemma crash_contents:
  assumes inv: "inv_at E W s kvs" and c: "crash_image (blake3 E) (synced W) (disk W) f"
  shows "read_snapshot (blake3 E) f = Inl Corrupt \<or>
    (\<exists>s' kvs' n. acked W \<le> n \<and> n \<le> length (log W) \<and> serial E (take n (log W)) kvs'
      \<and> generation s' = Suc n \<and> published E f s' kvs')"
proof -
  from inv obtain s0 kvs0 n k where
    pub: "published E (disk W) s kvs" and ser: "serial E (log W) kvs" "generation s = Suc (length (log W))"
    and pub0: "published E (synced W) s0 kvs0" and ser0: "serial E (take n (log W)) kvs0" "generation s0 = Suc n"
      "acked W \<le> n" "n \<le> length (log W)" "end_of s0 \<le> end_of s"
    and ag: "end_of s \<le> length (file_bytes (synced W))" "agree (synced W) (disk W) (end_of s)"
    and k: "k < 2" "root_slot (synced W) k = root_slot (disk W) k"
    by (auto simp: inv_at_def synced_ok_def)
  note ok = published_ok [OF pub] and ok0 = published_ok [OF pub0]
  have len: "end_of s \<le> length (file_bytes f)"
    using c ag(1) pub by (auto simp: crash_image_def published_def)
  have read: "read_exact_at f PAGE_BYTES p = Inr bs"
    if "HEADER_BYTES \<le> p" "read_exact_at (synced W) PAGE_BYTES p = Inr bs" "read_exact_at (disk W) PAGE_BYTES p = Inr bs" for p bs
    using c that by (simp add: crash_image_def)
  have pages: "same_pages (disk W) (end_of s) f" "same_pages (synced W) (end_of s) f"
    using read ag(2) unfolding same_pages_def agree_def by metis+
  have st: "stored (blake3 E) f s kvs"
    by (rule stored_mono [OF _ pages(1)]) (use pub ok in \<open>simp_all add: published_def snapshot_ok_def\<close>)
  have st0: "stored (blake3 E) f s0 kvs0"
    by (rule stored_mono [OF _ same_pages_le [OF pages(2) ser0(5)]])
       (use pub0 ok0 in \<open>simp_all add: published_def snapshot_ok_def\<close>)
  have io: "io_fails f = (\<lambda>_. False)" using c by (simp add: crash_image_def)
  have p: "published E f s kvs" if "read_snapshot (blake3 E) f = Inr s"
    unfolding published_def store_snapshot_Inr using that st io len ok by blast
  have p0: "published E f s0 kvs0" if "read_snapshot (blake3 E) f = Inr s0"
    unfolding published_def store_snapshot_Inr using that st0 io order_trans [OF ser0(5) len] ok0 by blast
  have "acked W \<le> length (log W)" using ser0 by simp
  with crash_image_root [OF c _ _ k, of s0 s] ok ok0 p p0 ser ser0 show ?thesis
    by (metis order_refl take_all)
qed

lemma step_crash:
  assumes inv: "inv_at E W s kvs" and c: "crash_image (blake3 E) (synced W) (disk W) f"
    and r: "read_snapshot (blake3 E) f = Inr s'"
  shows "\<exists>kvs'. inv_at E (recover f s' W) s' kvs'"
proof -
  from crash_contents [OF inv c] r obtain kvs' n where
    n: "acked W \<le> n" "n \<le> length (log W)" "serial E (take n (log W)) kvs'" "generation s' = Suc n"
      "published E f s' kvs'"
    using published_ok by fastforce
  define W' where "W' = recover f s' W"
  have W': "disk W' = f" "synced W' = f" "gate W' = None" "log W' = take n (log W)" "acked W' = acked W"
    "phase W' = (\<lambda>w. if running (phase W w) then Dead else phase W w)" "readers W' = (\<lambda>_. None)"
    using n(4) by (simp_all add: W'_def recover_def)
  have "synced_ok E W' s'"
    unfolding synced_ok_def
  proof (intro conjI)
    show "\<exists>s0 kvs0 m. published E (synced W') s0 kvs0 \<and> serial E (take m (log W')) kvs0 \<and> generation s0 = Suc m
        \<and> acked W' \<le> m \<and> m \<le> length (log W') \<and> end_of s0 \<le> end_of s'"
      using n W' by (intro exI [of _ s'] exI [of _ kvs'] exI [of _ n]) simp
  qed (use W' n(5) in \<open>auto simp: published_def agree_refl intro!: exI [of _ 0]\<close>)
  moreover have "phase_ok E W' s' kvs' w" for w
  proof -
    have "phase_ok E W s kvs w" using inv by (simp add: inv_at_def)
    then have "returned_ok E (log W) (acked W) w r" if "phase W w = Returned r" for r
      using that by (simp add: phase_ok_def)
    then show ?thesis
      using W' n(1) by (cases "phase W w") (auto simp: phase_ok_def returned_ok_def min_def)
  qed
  moreover have "honest W'"
  proof -
    have "may_have_committed (phase W' w)" if "w \<in> set (take n (log W))" for w
      using inv in_set_takeD [OF that] W' by (auto simp: inv_at_def honest_def may_have_committed_def)
    then show ?thesis using inv W' by (simp add: honest_def inv_at_def)
  qed
  moreover have "readers_ok E W' (end_of s')" using W' by (simp add: readers_ok_def)
  ultimately have "inv_at E W' s' kvs'" using W' n by (simp add: inv_at_def)
  then show ?thesis unfolding W'_def ..
qed

end
