(* ===== verification/Isam_History.thy ===== *)
theory Isam_History
  imports Isam_Commit
begin

text \<open>What holds in every history of a store: serializability, snapshot isolation, crash recovery,
  honest outcomes, compare-and-publish and progress, with an example history.\<close>

section \<open>Reachable states\<close>

lemma created_inv:
  assumes d: "digest_32 (blake3 E)" "zero_page_unsealed (blake3 E)" and c: "created E W"
  shows "\<exists>s kvs. inv_at E W s kvs"
proof -
  let ?l = "st_layout (store E)" and ?v = "st_format_version (store E)"
  from c obtain kb mv magic where m: "layout_new kb mv = Inr ?l" "root_magic ?v = Some magic"
    "?v \<noteq> PIPELINED_FORMAT_VERSION"
    "create_header (blake3 E) \<lparr>file_bytes = [], io_fails = \<lambda>_. False\<rparr> ?l ?v = Inr (disk W)"
    and W: "synced W = disk W" "gate W = None" "phase W = (\<lambda>_. Called)" "readers W = (\<lambda>_. None)"
      "log W = []" "acked W = 0"
    by (auto simp: created_def)
  let ?s = "initial_snapshot ?v ?l"
  from read_snapshot_created [OF d m(1-3)] m(4)
  have f: "read_snapshot (blake3 E) (disk W) = Inr ?s" "length (file_bytes (disk W)) = HEADER_BYTES"
    "io_fails (disk W) = (\<lambda>_. False)" by auto
  have "end_of ?s = HEADER_BYTES" using m(3) by (simp add: initial_snapshot_def data_start_def)
  with f have pub: "published E (disk W) ?s []"
    by (simp add: published_def store_snapshot_Inr stored_def initial_snapshot_def)
  have "synced_ok E W ?s"
    unfolding synced_ok_def
  proof (intro conjI)
    show "\<exists>s0 kvs0 n. published E (synced W) s0 kvs0 \<and> serial E (take n (log W)) kvs0 \<and> generation s0 = Suc n
        \<and> acked W \<le> n \<and> n \<le> length (log W) \<and> end_of s0 \<le> end_of ?s"
      using pub W by (intro exI [of _ ?s] exI [of _ "[]"] exI [of _ 0]) (simp add: serial_Nil initial_snapshot_def)
  qed (use W pub in \<open>auto simp: published_def agree_refl intro!: exI [of _ 0]\<close>)
  then have "inv_at E W ?s []"
    using pub W by (simp add: inv_at_def serial_Nil initial_snapshot_def phase_ok_def readers_ok_def honest_def)
  then show ?thesis by blast
qed

lemma step_inv_at:
  assumes st: "step E W W'" and inv: "inv_at E W s kvs" and d: "digest_32 (blake3 E)"
    and v: "st_format_version (store E) \<noteq> PIPELINED_FORMAT_VERSION"
  shows "\<exists>s' kvs'. inv_at E W' s' kvs'"
  using st
proof cases
  case (act w)
  then show ?thesis using step_writer [OF inv d v] by simp
next
  case (abort w e)
  then show ?thesis using step_abort [OF inv] by blast
next
  case (die w)
  then show ?thesis using inv_die [OF inv] by blast
next
  case (partial w base nxt plan start offsets k f)
  then show ?thesis using step_partial [OF inv] by blast
next
  case (capture rb r)
  then show ?thesis using step_capture [OF inv] by blast
next
  case (crash f s')
  then show ?thesis using step_crash [OF inv] by blast
qed

lemma reachable_inv:
  assumes r: "reachable E W" and d: "digest_32 (blake3 E)" "zero_page_unsealed (blake3 E)"
  obtains s kvs where "inv_at E W s kvs"
proof -
  from r obtain W0 where W0: "created E W0" "(step E)\<^sup>*\<^sup>* W0 W" by (auto simp: reachable_def)
  have v: "st_format_version (store E) \<noteq> PIPELINED_FORMAT_VERSION" using W0(1) by (simp add: created_def)
  from W0(2) have "\<exists>s kvs. inv_at E W s kvs"
    by (induction rule: rtranclp_induct) (use created_inv [OF d W0(1)] step_inv_at [OF _ _ d(1) v] in blast)+
  then show thesis using that by blast
qed

lemma reachable_step: "reachable E W \<Longrightarrow> step E W W' \<Longrightarrow> reachable E W'"
  unfolding reachable_def by (meson rtranclp.rtrancl_into_rtrancl)

text \<open>C3: Serializability: whatever calls, failures, process deaths and crashes came before, the
  published root of the file is readable and its records are those of the committed batches
  applied one after the other, each accepted by its validator on the records and the generation
  before it; the generation counts the commits.\<close>

theorem isam_serializable:
  assumes "digest_32 (blake3 E)" "zero_page_unsealed (blake3 E)" "reachable E W"
  shows "\<exists>s kvs. store_snapshot (blake3 E) (store E) (disk W) = Inr s \<and> stored (blake3 E) (disk W) s kvs
    \<and> serial E (log W) kvs \<and> generation s = Suc (length (log W))"
  using reachable_inv [OF assms(3,1,2)] by (force simp: inv_at_def published_def)

text \<open>C8: Snapshot isolation: a read batch keeps answering from the records of the commits up to its
  generation, however many commits, failed writes and partial page writes came after it was
  taken.\<close>

theorem isam_snapshot_isolation:
  assumes "digest_32 (blake3 E)" "zero_page_unsealed (blake3 E)" "reachable E W"
    and "readers W r = Some rs" "owner_pid (store E) = pid E"
  shows "\<exists>kvs. generation rs - 1 \<le> length (log W) \<and> serial E (take (generation rs - 1) (log W)) kvs
    \<and> (\<forall>k c. cache_ok (blake3 E) (node_bytes E) (disk W) rs c \<longrightarrow>
        (\<exists>c'. batch_get (blake3 E) (node_bytes E) (disk W) \<lparr>rb_snapshot = rs, rb_owner_pid = owner_pid (store E)\<rparr>
          (pid E) k c = Some (answer_get (st_layout (store E)) kvs k, c')))"
proof -
  obtain s kvs0 where "inv_at E W s kvs0" using reachable_inv [OF assms(3,1,2)] .
  then obtain kvs where "past E (disk W) (log W) (end_of s) rs kvs"
    using assms(4) unfolding inv_at_def readers_ok_def by blast
  then obtain n where n: "n \<le> length (log W)" "serial E (take n (log W)) kvs" "generation rs = Suc n"
    and st: "stored (blake3 E) (disk W) rs kvs" "layout rs = st_layout (store E)"
    by (auto simp: past_def)
  show ?thesis
    using n st batch_get_runs [where read = "\<lparr>rb_snapshot = rs, rb_owner_pid = owner_pid (store E)\<rparr>"] assms(5)
    by (intro exI [of _ kvs]) (fastforce simp: runs_def)
qed

text \<open>C5: Crash recovery: after a crash, opening the file either refuses it because a root slot is
  torn, or finds the records of a prefix of the commits that has every acknowledged one, whole
  batches only.\<close>

theorem isam_crash_recovery:
  assumes "digest_32 (blake3 E)" "zero_page_unsealed (blake3 E)" "reachable E W"
    and "crash_image (blake3 E) (synced W) (disk W) f"
  shows "read_snapshot (blake3 E) f = Inl Corrupt \<or>
    (\<exists>n s kvs. acked W \<le> n \<and> n \<le> length (log W) \<and> serial E (take n (log W)) kvs
      \<and> store_snapshot (blake3 E) (store E) f = Inr s \<and> generation s = Suc n \<and> stored (blake3 E) f s kvs)"
proof -
  obtain s kvs where "inv_at E W s kvs" using reachable_inv [OF assms(3,1,2)] .
  from crash_contents [OF this assms(4)] show ?thesis unfolding published_def by blast
qed

text \<open>C7: Honest outcomes: a call that returned \<open>Ok(true)\<close> for a batch that is not empty is committed
  and durable; a call that returned \<open>Ok(false)\<close> or an error other than \<open>CommitUnknown\<close> is not
  committed; and no batch is committed twice.\<close>

theorem isam_honest_outcome:
  assumes "digest_32 (blake3 E)" "zero_page_unsealed (blake3 E)" "reachable E W"
  shows "distinct (log W) \<and>
    (phase W w = Returned (Inr True) \<longrightarrow> batch E w = [] \<or> w \<in> set (take (acked W) (log W))) \<and>
    (\<forall>r. phase W w = Returned r \<and> r \<noteq> Inr True \<and> r \<noteq> Inl CommitUnknown \<longrightarrow> w \<notin> set (log W))"
proof -
  obtain s kvs where inv: "inv_at E W s kvs" using reachable_inv [OF assms(3,1,2)] .
  then have "phase_ok E W s kvs w" "honest W" by (simp_all add: inv_at_def)
  then show ?thesis by (auto simp: phase_ok_def returned_ok_def honest_def may_have_committed_def)
qed

lemma serial_nth:
  assumes "serial E ws kvs" "i < length ws"
  shows "\<exists>kvs_i. serial E (take i ws) kvs_i \<and> decision (st_layout (store E)) (Suc i) kvs_i (validate E (ws ! i)) = Inr True"
  using assms
proof (induction rule: serial.induct)
  case (serial_snoc ws kvs w kvs')
  then show ?case by (cases "i < length ws") (auto simp: nth_append less_Suc_eq)
qed simp

text \<open>C22: Compare and publish: of the calls of \<open>write_batch_at_generation\<close> with the same expected
  generation at most one commits, and it is the commit that follows that generation.\<close>

theorem isam_compare_and_publish:
  assumes "digest_32 (blake3 E)" "zero_page_unsealed (blake3 E)" "reachable E W"
    and "validate E w = at_generation g" "w \<in> set (log W)"
  shows "(\<exists>i < length (log W). g = Suc i \<and> log W ! i = w)
    \<and> (\<forall>v \<in> set (log W). validate E v = at_generation g \<longrightarrow> v = w)"
proof -
  obtain s kvs where "inv_at E W s kvs" using reachable_inv [OF assms(3,1,2)] .
  then have ser: "serial E (log W) kvs" by (simp add: inv_at_def)
  have pos: "\<exists>i < length (log W). g = Suc i \<and> log W ! i = v"
    if v: "validate E v = at_generation g" "v \<in> set (log W)" for v
  proof -
    from v(2) obtain i where "i < length (log W)" "log W ! i = v" by (auto simp: in_set_conv_nth)
    with serial_nth [OF ser this(1)] v(1) show ?thesis by (auto simp: at_generation_def)
  qed
  then show ?thesis using assms(4,5) by (metis Suc_inject)
qed

section \<open>A call that is alone\<close>

lemma commit_alone:
  assumes d: "digest_32 (blake3 E)" and inv: "inv_at E W s kvs"
    and p: "phase W w = Prepared s nxt plan" and g: "gate W = None"
    and len: "length (file_bytes (disk W)) mod PAGE_BYTES = 0"
      "length (file_bytes (disk W)) + length (plan_pages plan) * PAGE_BYTES \<le> I64_MAX"
  shows "\<exists>W'. W' = (writer_step E w ^^ 6) W \<and> phase W' w = Returned (Inr True)
    \<and> log W' = log W @ [w] \<and> acked W' = length (log W')"
proof -
  let ?n = "length (plan_pages plan)"
  define W1 where "W1 = writer_step E w W"
  have W1: "phase W1 w = Prepared s nxt plan" "gate W1 = Some w" "disk W1 = disk W" "log W1 = log W"
    using p g by (simp_all add: W1_def writer_step_def)
  have i1: "inv_at E W1 s kvs" unfolding W1_def using inv p by (rule step_prepared)
  have pub: "published E (disk W) s kvs" using inv by (simp add: inv_at_def)
  then have "end_of s \<le> length (file_bytes (disk W))" "store_snapshot (blake3 E) (store E) (disk W) = Inr s"
    by (simp_all add: published_def)
  then obtain start f where r: "reserve_page_range (blake3 E) (store E) (disk W) s ?n = Inr (Some (start, f))"
    using len by (cases "?n = 0")
      (auto simp: reserve_page_range_def reserve_physical_pages_def Let_def max_def isam_consts)
  define W2 where "W2 = writer_step E w W1"
  have e2: "W2 = (become w (Reserved s nxt plan start) W1)\<lparr>disk := f\<rparr>"
    using W1 r by (simp add: W2_def writer_step_def)
  have i2: "inv_at E W2 s kvs" unfolding W2_def using i1 W1(1) by (rule step_prepared)
  have p2: "phase W2 w = Reserved s nxt plan start" "log W2 = log W" using e2 W1(4) by (simp_all add: become_def)
  define W3 where "W3 = writer_step E w W2"
  obtain final f3 where e3: "W3 = (become w (Written s final) W2)\<lparr>disk := f3\<rparr>" and i3: "inv_at E W3 s kvs"
    unfolding W3_def using step_reserved [OF i2 p2(1) d] by blast
  have p3: "phase W3 w = Written s final" "log W3 = log W" using e3 p2(2) by (simp_all add: become_def)
  define W4 where "W4 = writer_step E w W3"
  have i4: "inv_at E W4 s kvs" unfolding W4_def using i3 p3(1) by (rule step_written)
  have p4: "phase W4 w = PagesSynced s final" "log W4 = log W"
    using p3 by (simp_all add: W4_def writer_step_def become_def)
  define W5 where "W5 = writer_step E w W4"
  obtain f5 where e5: "W5 = (become w RootWritten W4)\<lparr>disk := f5, log := log W4 @ [w]\<rparr>"
    unfolding W5_def using step_publish [OF i4 p4(1) d] by blast
  have p5: "phase W5 w = RootWritten" "log W5 = log W @ [w]" using e5 p4(2) by (simp_all add: become_def)
  define W6 where "W6 = writer_step E w W5"
  have "phase W6 w = Returned (Inr True)" "log W6 = log W @ [w]" "acked W6 = length (log W6)"
    using p5 by (simp_all add: W6_def writer_step_def finish_def)
  moreover have "W6 = (writer_step E w ^^ 6) W"
    by (simp add: W6_def W5_def W4_def W3_def W2_def W1_def eval_nat_numeral)
  ultimately show ?thesis by blast
qed

text \<open>C23: Progress: a call whose plan is on the published root commits and is acknowledged within six
  actions when no other call has the gate and the file can grow.\<close>

theorem isam_commit_progress:
  assumes "digest_32 (blake3 E)" "zero_page_unsealed (blake3 E)" "reachable E W"
    and "phase W w = Prepared base nxt plan" "gate W = None"
    and "store_snapshot (blake3 E) (store E) (disk W) = Inr base"
    and "length (file_bytes (disk W)) mod PAGE_BYTES = 0"
      "length (file_bytes (disk W)) + length (plan_pages plan) * PAGE_BYTES \<le> I64_MAX"
  shows "phase ((writer_step E w ^^ 6) W) w = Returned (Inr True)
    \<and> log ((writer_step E w ^^ 6) W) = log W @ [w]"
proof -
  obtain s kvs where inv: "inv_at E W s kvs" using reachable_inv [OF assms(3,1,2)] .
  then have "base = s" using assms(6) by (simp add: inv_at_def published_def)
  with commit_alone [OF assms(1) inv, of w nxt plan] assms show ?thesis by auto
qed

section \<open>An example history\<close>

definition sample_store :: Store where
  "sample_store = \<lparr>st_layout = \<lparr>key_bytes = 2, max_value_bytes = 4\<rparr>, st_format_version = 2, st_writable = True, owner_pid = 7\<rparr>"

definition sample_env :: Env where
  "sample_env = \<lparr>blake3 = sample_digest, node_bytes = (\<lambda>_. 0), store = sample_store, pid = 7,
    batch = (\<lambda>_. [Put \<lparr>rkey = [5, 6], rvalue = [1, 2]\<rparr>]), lock_keys = (\<lambda>_. []),
    validate = (\<lambda>_. at_generation 1)\<rparr>"

definition sample_file :: File where
  "sample_file = projr (create_header sample_digest \<lparr>file_bytes = [], io_fails = \<lambda>_. False\<rparr>
    \<lparr>key_bytes = 2, max_value_bytes = 4\<rparr> 2)"

definition sample_world :: World where
  "sample_world = \<lparr>disk = sample_file, synced = sample_file, gate = None, phase = (\<lambda>_. Called),
    readers = (\<lambda>_. None), log = [], acked = 0\<rparr>"

lemma sample_file:
  "create_header sample_digest \<lparr>file_bytes = [], io_fails = \<lambda>_. False\<rparr> \<lparr>key_bytes = 2, max_value_bytes = 4\<rparr> 2 = Inr sample_file"
  "read_snapshot sample_digest sample_file = Inr (initial_snapshot 2 \<lparr>key_bytes = 2, max_value_bytes = 4\<rparr>)"
  "length (file_bytes sample_file) = HEADER_BYTES" "io_fails sample_file = (\<lambda>_. False)"
proof -
  have "layout_new 2 4 = Inr \<lparr>key_bytes = 2, max_value_bytes = 4\<rparr>" "root_magic 2 = Some ISAM_MAGIC" "2 \<noteq> PIPELINED_FORMAT_VERSION"
    by (simp_all add: layout_new_def root_magic_def isam_consts)
  from read_snapshot_created [OF sample_digest_ok this]
  show "create_header sample_digest \<lparr>file_bytes = [], io_fails = \<lambda>_. False\<rparr> \<lparr>key_bytes = 2, max_value_bytes = 4\<rparr> 2 = Inr sample_file"
    "read_snapshot sample_digest sample_file = Inr (initial_snapshot 2 \<lparr>key_bytes = 2, max_value_bytes = 4\<rparr>)"
    "length (file_bytes sample_file) = HEADER_BYTES" "io_fails sample_file = (\<lambda>_. False)"
    by (auto simp: sample_file_def)
qed

lemma sample_created: "created sample_env sample_world"
  unfolding created_def
proof (intro conjI)
  show "\<exists>kb mv magic. layout_new kb mv = Inr (st_layout (store sample_env))
      \<and> root_magic (st_format_version (store sample_env)) = Some magic"
    by (intro exI [of _ 2] exI [of _ 4] exI [of _ ISAM_MAGIC])
       (simp add: layout_new_def root_magic_def sample_env_def sample_store_def isam_consts)
qed (use sample_file(1) in \<open>simp_all add: sample_env_def sample_world_def sample_store_def isam_consts\<close>)

abbreviation sample_base :: Snapshot where
  "sample_base \<equiv> initial_snapshot 2 \<lparr>key_bytes = 2, max_value_bytes = 4\<rparr>"

definition sample_plan :: BatchPlan where
  "sample_plan = \<lparr>plan_pages = [\<lparr>plevel = 0, pentries = [\<lparr>pkey = [5, 6], pvalue = Inline [1, 2]\<rparr>]\<rparr>], plan_root = Some (New 0)\<rparr>"

lemma sample_prepare:
  "prepare_batch h nb f sample_base [Put \<lparr>rkey = [5, 6], rvalue = [1, 2]\<rparr>] c = Some (Inr sample_plan, c)"
  by (simp add: prepare_batch_def initial_snapshot_def bind_step_def change_batch.simps grow_root.simps sample_plan_def
      emit_pages.simps planned_width_def stride_def packed_leaf_def isam_consts PREFIX_def)

definition sample_next :: Snapshot where
  "sample_next = sample_base\<lparr>generation := 2, publication := 2\<rparr>"

definition sample_prepared :: World where
  "sample_prepared = (writer_step sample_env 0 ^^ 3) sample_world"

lemma sample_prepared:
  "phase sample_prepared 0 = Prepared sample_base sample_next sample_plan" "gate sample_prepared = None"
  "disk sample_prepared = sample_file" "log sample_prepared = []"
proof -
  have 1: "writer_step sample_env 0 sample_world = become 0 Started sample_world"
    by (simp add: writer_step_def sample_world_def sample_env_def check_batch_def check_process_def check_that_def
        sample_store_def MAX_BATCH_RECORDS_def check_key_def)
  have 2: "writer_step sample_env 0 (become 0 Started sample_world) = become 0 (Based sample_base) (become 0 Started sample_world)"
    using sample_file(2)
    by (simp add: writer_step_def become_def sample_world_def sample_env_def sample_store_def store_snapshot_def initial_snapshot_def)
  have 3: "writer_step sample_env 0 (become 0 (Based sample_base) (become 0 Started sample_world)) =
      become 0 (Prepared sample_base sample_next sample_plan) (become 0 (Based sample_base) (become 0 Started sample_world))"
  proof -
    have g: "generation sample_base = 1" by (simp add: initial_snapshot_def)
    have "attempt_plan sample_digest nb sample_store 7 f sample_base (at_generation 1)
        [Put \<lparr>rkey = [5, 6], rvalue = [1, 2]\<rparr>] = Some (Inr (Some (sample_next, sample_plan)), Some empty_cache)" for nb f
      unfolding attempt_plan_def at_generation_def sample_next_def
      by (simp add: bind_step_def Let_def g sample_prepare)
    then show ?thesis by (simp add: writer_step_def become_def sample_env_def)
  qed
  have eq: "sample_prepared = become 0 (Prepared sample_base sample_next sample_plan) (become 0 (Based sample_base) (become 0 Started sample_world))"
    by (simp add: sample_prepared_def numeral_3_eq_3 1 2 3)
  show "phase sample_prepared 0 = Prepared sample_base sample_next sample_plan" "gate sample_prepared = None"
    "disk sample_prepared = sample_file" "log sample_prepared = []"
    unfolding eq by (simp_all add: become_def sample_world_def)
qed

lemma reachable_steps: "reachable E W \<Longrightarrow> reachable E ((writer_step E w ^^ n) W)"
  by (induction n) (auto intro: reachable_step act)

lemma sample_reachable: "reachable sample_env sample_prepared"
  unfolding sample_prepared_def
  by (rule reachable_steps) (use sample_created in \<open>auto simp: reachable_def\<close>)

text \<open>The history with one acknowledged commit.\<close>

definition sample_committed :: World where
  "sample_committed = (writer_step sample_env 0 ^^ 6) sample_prepared"

lemma sample_committed:
  "reachable sample_env sample_committed" "phase sample_committed 0 = Returned (Inr True)"
  "log sample_committed = [0]" "acked sample_committed = 1"
proof -
  show r: "reachable sample_env sample_committed"
    unfolding sample_committed_def by (rule reachable_steps) (rule sample_reachable)
  have d: "digest_32 (blake3 sample_env)" "zero_page_unsealed (blake3 sample_env)"
    using sample_digest_ok by (simp_all add: sample_env_def)
  obtain s kvs where inv: "inv_at sample_env sample_prepared s kvs" using reachable_inv [OF sample_reachable d] .
  then have "store_snapshot (blake3 sample_env) (store sample_env) sample_file = Inr s"
    by (simp add: inv_at_def published_def sample_prepared)
  then have "s = sample_base"
    using sample_file(2) by (simp add: sample_env_def store_snapshot_Inr)
  with commit_alone [OF d(1) inv, of 0 sample_next sample_plan]
  show "phase sample_committed 0 = Returned (Inr True)" "log sample_committed = [0]" "acked sample_committed = 1"
    by (auto simp: sample_prepared sample_committed_def sample_file(3) sample_plan_def isam_consts)
qed

lemma sample_digest_env: "digest_32 (blake3 sample_env)" "zero_page_unsealed (blake3 sample_env)"
  "blake3 sample_env = sample_digest"
  using sample_digest_ok by (simp_all add: sample_env_def)

lemma sample_contents:
  obtains s where "inv_at sample_env sample_committed s [([5, 6], [1, 2])]"
    "stored sample_digest (disk sample_committed) s [([5, 6], [1, 2])]" "generation s = 2"
    "layout s = \<lparr>key_bytes = 2, max_value_bytes = 4\<rparr>"
proof -
  obtain s kvs where inv: "inv_at sample_env sample_committed s kvs"
    using reachable_inv [OF sample_committed(1) sample_digest_env(1,2)] .
  have "serial sample_env [0] [([5, 6], [1, 2])]"
    using serial_snoc [OF serial_Nil, of sample_env 0 "[([5, 6], [1, 2])]"]
    by (simp add: sample_env_def at_generation_def)
  moreover have "serial sample_env [0] kvs" using inv sample_committed(3) by (simp add: inv_at_def)
  ultimately have "kvs = [([5, 6], [1, 2])]" by (blast intro: serial_unique)
  moreover have "layout s = st_layout (store sample_env)"
    using inv by (simp add: inv_at_def published_def store_snapshot_Inr)
  ultimately show thesis
    using inv sample_committed(3) sample_digest_env(3) that [of s]
    by (simp add: inv_at_def published_def sample_env_def sample_store_def)
qed

text \<open>The example shows that the hypotheses of the properties of this theory and of the reading
  operations can be met.\<close>

theorem isam_serializable_witness:
  "digest_32 (blake3 sample_env) \<and> zero_page_unsealed (blake3 sample_env) \<and> reachable sample_env sample_committed
    \<and> (\<exists>s kvs. store_snapshot (blake3 sample_env) (store sample_env) (disk sample_committed) = Inr s
        \<and> stored (blake3 sample_env) (disk sample_committed) s kvs \<and> serial sample_env [0] kvs \<and> generation s = 2)"
  using isam_serializable [OF sample_digest_env(1,2) sample_committed(1)] sample_digest_env sample_committed
  by (simp add: eval_nat_numeral)

theorem isam_snapshot_isolation_witness:
  "\<exists>W rs kvs. reachable sample_env W \<and> readers W 0 = Some rs \<and> generation rs = 2
    \<and> serial sample_env (take 1 (log W)) kvs"
proof -
  obtain s where s: "inv_at sample_env sample_committed s [([5, 6], [1, 2])]" "generation s = 2"
    using sample_contents .
  define W where "W = sample_committed\<lparr>readers := (readers sample_committed)(0 := Some s)\<rparr>"
  have own: "owner_pid (store sample_env) = pid sample_env" by (simp add: sample_env_def sample_store_def)
  have "read_batch (blake3 sample_env) (store sample_env) (pid sample_env) (disk sample_committed) =
      Inr \<lparr>rb_snapshot = s, rb_owner_pid = 7\<rparr>"
    using s(1) by (simp add: read_batch_def check_process_def check_that_def inv_at_def published_def)
      (simp add: sample_env_def sample_store_def)
  from capture [OF this, of 0] have "reachable sample_env W"
    unfolding W_def by (intro reachable_step [OF sample_committed(1)]) simp
  moreover have "readers W 0 = Some s" by (simp add: W_def)
  moreover from isam_snapshot_isolation [OF sample_digest_env(1,2) calculation own] s(2)
  have "\<exists>kvs. serial sample_env (take 1 (log W)) kvs" by auto
  ultimately show ?thesis using s(2) by blast
qed

lemma crash_image_dirty:
  "io_fails f = (\<lambda>_. False) \<Longrightarrow> HEADER_BYTES \<le> length (file_bytes f) \<Longrightarrow> crash_image h clean f f"
  by (simp add: crash_image_def)

theorem isam_crash_recovery_witness:
  "\<exists>W f. reachable sample_env W \<and> crash_image (blake3 sample_env) (synced W) (disk W) f \<and> acked W = 1
    \<and> (\<exists>n s kvs. 1 \<le> n \<and> serial sample_env (take n (log W)) kvs \<and> stored (blake3 sample_env) f s kvs)"
proof -
  obtain s where s: "inv_at sample_env sample_committed s [([5, 6], [1, 2])]" using sample_contents .
  let ?f = "disk sample_committed"
  have r: "read_snapshot (blake3 sample_env) ?f = Inr s" "io_fails ?f = (\<lambda>_. False)"
    using s by (simp_all add: inv_at_def published_def store_snapshot_Inr)
  then have "HEADER_BYTES \<le> length (file_bytes ?f)" by (auto elim: read_snapshot_Inr)
  with r have c: "crash_image (blake3 sample_env) (synced sample_committed) ?f ?f" by (intro crash_image_dirty)
  from isam_crash_recovery [OF sample_digest_env(1,2) sample_committed(1) c] r(1) sample_committed(4)
  have "\<exists>n s kvs. 1 \<le> n \<and> serial sample_env (take n (log sample_committed)) kvs \<and> stored (blake3 sample_env) ?f s kvs"
    by auto
  with sample_committed c show ?thesis by blast
qed

theorem isam_honest_outcome_witness:
  "reachable sample_env sample_committed \<and> phase sample_committed 0 = Returned (Inr True)
    \<and> 0 \<in> set (take (acked sample_committed) (log sample_committed))"
proof -
  have "batch sample_env 0 \<noteq> []" by (simp add: sample_env_def)
  then show ?thesis
    using isam_honest_outcome [OF sample_digest_env(1,2) sample_committed(1), of 0] sample_committed(1,2) by simp
qed

theorem isam_compare_and_publish_witness:
  "reachable sample_env sample_committed \<and> validate sample_env 0 = at_generation 1
    \<and> (\<exists>i < length (log sample_committed). 1 = Suc i \<and> log sample_committed ! i = 0)"
proof -
  have v: "validate sample_env 0 = at_generation 1" by (simp add: sample_env_def)
  show ?thesis
    using isam_compare_and_publish [OF sample_digest_env(1,2) sample_committed(1) v] sample_committed v by simp
qed

theorem isam_commit_progress_witness:
  "reachable sample_env sample_prepared \<and> phase sample_prepared 0 = Prepared sample_base sample_next sample_plan
    \<and> log ((writer_step sample_env 0 ^^ 6) sample_prepared) = [0]"
proof -
  have "store_snapshot (blake3 sample_env) (store sample_env) (disk sample_prepared) = Inr sample_base"
    using sample_file(2) sample_prepared(3)
    by (simp add: sample_env_def sample_store_def store_snapshot_Inr initial_snapshot_def)
  then show ?thesis
    using isam_commit_progress [OF sample_digest_env(1,2) sample_reachable sample_prepared(1,2)] sample_reachable
      sample_prepared sample_file(3)
    by (simp add: sample_plan_def isam_consts)
qed

theorem isam_get_correct_witness:
  "\<exists>s c'. tree_get sample_digest (\<lambda>_. 0) (disk sample_committed) s [5, 6] None = Some (Inr (Some [1, 2]), c')"
proof -
  obtain s where "stored sample_digest (disk sample_committed) s [([5, 6], [1, 2])]" using sample_contents .
  from isam_get_correct [OF this cache_ok_None, of "\<lambda>_. 0" "[5, 6]"] show ?thesis by auto
qed

theorem isam_range_correct_witness:
  "\<exists>s c'. tree_range sample_digest (\<lambda>_. 0) (disk sample_committed) s [0, 0] None 10 None =
    Some (Inr [\<lparr>rkey = [5, 6], rvalue = [1, 2]\<rparr>], c')"
proof -
  obtain s where "stored sample_digest (disk sample_committed) s [([5, 6], [1, 2])]" using sample_contents .
  from isam_range_correct [OF this cache_ok_None, of "\<lambda>_. 0" "[0, 0]" None 10] show ?thesis
    by (auto simp: records_in_def in_range_def)
qed

theorem isam_verify_exact_witness:
  "\<exists>s. tree_verify sample_digest (\<lambda>_. 0) (disk sample_committed) s = Some (Inr 1)"
proof -
  obtain s where "stored sample_digest (disk sample_committed) s [([5, 6], [1, 2])]" using sample_contents .
  with isam_verify_exact [of 1 sample_digest "\<lambda>_. 0" "disk sample_committed" s] show ?thesis by auto
qed

theorem isam_cache_transparent_witness:
  "\<exists>s c. cached_node sample_digest (\<lambda>_. 0) (disk sample_committed) s (root s) (Some empty_cache) =
    Some (read_node sample_digest (disk sample_committed) s (root s), c) \<and> generation s = 2"
proof -
  obtain s where "inv_at sample_env sample_committed s [([5, 6], [1, 2])]" "generation s = 2" using sample_contents .
  with isam_cache_transparent [OF cache_ok_empty_cache, of sample_digest "\<lambda>_. 0" "disk sample_committed" s "root s"]
  show ?thesis by auto
qed

theorem isam_prepare_outcome_witness:
  "prepare_batch sample_digest (\<lambda>_. 0) sample_file sample_base [Put \<lparr>rkey = [5, 6], rvalue = [1, 2]\<rparr>] None \<noteq>
    Some (Inl Duplicate, None)"
proof -
  have "stored sample_digest sample_file sample_base []" "snapshot_ok sample_base"
    using current_slot(1) [OF sample_file(2)] by (simp_all add: stored_def initial_snapshot_def)
  from isam_prepare_outcome [OF this(1) cache_ok_None this(2), of "[Put \<lparr>rkey = [5, 6], rvalue = [1, 2]\<rparr>]" "\<lambda>_. 0"]
  show ?thesis by (auto simp: initial_snapshot_def)
qed

theorem isam_batch_correct_witness:
  "\<exists>final f' kvs'. prepare_batch sample_digest (\<lambda>_. 0) sample_file sample_base [Put \<lparr>rkey = [5, 6], rvalue = [1, 2]\<rparr>] None =
      Some (Inr sample_plan, None)
    \<and> write_plan sample_digest sample_file sample_base sample_next 8192 sample_plan = (Inr final, f')
    \<and> Some (map_of kvs') = Some [[5, 6] \<mapsto> [1, 2]] \<and> stored sample_digest f' final kvs'"
proof -
  have s: "stored sample_digest sample_file sample_base []" "snapshot_ok sample_base" "snapshot_ok sample_next"
    "extends sample_base sample_next"
    using current_slot(1) [OF sample_file(2)]
    by (simp_all add: stored_def initial_snapshot_def sample_next_def snapshot_ok_def extends_def isam_consts)
  have io: "\<forall>offset \<ge> 8192. \<not> io_fails sample_file offset" using sample_file(4) by simp
  have ms: "\<forall>m \<in> set [Put \<lparr>rkey = [5, 6], rvalue = [1, 2]\<rparr>]. mutation_ok (layout sample_base) m"
    by (simp add: initial_snapshot_def)
  have room: "end_of sample_base \<le> 8192" "8192 mod PAGE_BYTES = 0"
    "8192 + length (plan_pages sample_plan) * PAGE_BYTES \<le> I64_MAX"
    by (simp_all add: initial_snapshot_def sample_plan_def data_start_def isam_consts)
  obtain final f' kvs' where w: "write_plan sample_digest sample_file sample_base sample_next 8192 sample_plan = (Inr final, f')"
    "batch_map [Put \<lparr>rkey = [5, 6], rvalue = [1, 2]\<rparr>] (map_of []) = Some (map_of kvs')" "stored sample_digest f' final kvs'"
    using isam_batch_correct [OF sample_digest_ok(1) s(1) cache_ok_None s(2-4) ms sample_prepare room io] by blast
  have "Some (map_of kvs') = Some [[5, 6] \<mapsto> [1, 2]]"
    by (subst w(2) [symmetric]) simp
  with w(1,3) show ?thesis
    by (intro exI conjI) (rule sample_prepare, assumption+)
qed

end
