(* ===== verification/Bson_Number.thy ===== *)
theory Bson_Number
  imports Complex_Main Float64
begin

text \<open>
  Exact numeric identity, \<^verbatim>\<open>document/number.rs\<close>: integers, binary64 doubles and Decimal128
  values in the one canonical form \<open>\<plusminus> coefficient * 2 ^ exponent_two * 5 ^ exponent_five\<close> with a
  coefficient that neither two nor five divides.  Two BSON numbers have the same canonical form
  exactly when they have the same value, and the comparison of canonical forms is the comparison of
  values, across all four families.
\<close>

type_synonym i32 = "32 word"
type_synonym i64 = "64 word"

definition MIN_CANONICAL_EXPONENT_TWO :: int where "MIN_CANONICAL_EXPONENT_TWO = -6176"
definition MAX_CANONICAL_EXPONENT_TWO :: int where "MAX_CANONICAL_EXPONENT_TWO = 6223"
definition MIN_CANONICAL_EXPONENT_FIVE :: int where "MIN_CANONICAL_EXPONENT_FIVE = -6176"
definition MAX_CANONICAL_EXPONENT_FIVE :: int where "MAX_CANONICAL_EXPONENT_FIVE = 6159"
definition MAX_DECIMAL128_COEFFICIENT :: nat where
  "MAX_DECIMAL128_COEFFICIENT = 9999999999999999999999999999999999"
definition DECIMAL128_EXPONENT_BIAS :: int where "DECIMAL128_EXPONENT_BIAS = 6176"

record CanonicalFinite =
  is_negative :: bool
  coefficient :: nat
  exponent_two :: int
  exponent_five :: int

datatype CanonicalNumber = NaN | NegativeInfinity | Finite CanonicalFinite | PositiveInfinity

section \<open>Construction\<close>

text \<open>One of the loops of \<open>finite\<close>: divide by \<open>p\<close> while the coefficient, which is not zero, allows it.\<close>

function strip_factor :: "nat \<Rightarrow> nat \<Rightarrow> int \<Rightarrow> nat \<times> int" where
  "strip_factor p c e =
    (if 1 < p \<and> 0 < c \<and> c mod p = 0 then strip_factor p (c div p) (e + 1) else (c, e))"
  by pat_completeness auto
termination by (relation "measure (\<lambda>(p, c, e). c)") auto

declare strip_factor.simps [simp del]

text \<open>\<open>finite\<close> up to its assertions, which are the next definition.\<close>

definition canonical_finite :: "bool \<Rightarrow> nat \<Rightarrow> int \<Rightarrow> int \<Rightarrow> CanonicalNumber" where
  "canonical_finite negative c e2 e5 =
    (if c = 0 then
       Finite \<lparr>is_negative = False, coefficient = 0, exponent_two = 0, exponent_five = 0\<rparr>
     else
       let (c', e2') = strip_factor 2 c e2;
           (c'', e5') = strip_factor 5 c' e5
       in Finite \<lparr>is_negative = negative, coefficient = c'', exponent_two = e2', exponent_five = e5'\<rparr>)"

definition assertions_hold :: "CanonicalNumber \<Rightarrow> bool" where
  "assertions_hold n =
    (case n of
       Finite f \<Rightarrow> coefficient f = 0
         \<or> (MIN_CANONICAL_EXPONENT_TWO \<le> exponent_two f \<and> exponent_two f \<le> MAX_CANONICAL_EXPONENT_TWO
            \<and> MIN_CANONICAL_EXPONENT_FIVE \<le> exponent_five f \<and> exponent_five f \<le> MAX_CANONICAL_EXPONENT_FIVE)
     | _ \<Rightarrow> True)"

definition from_i32 :: "i32 \<Rightarrow> CanonicalNumber" where
  "from_i32 v = canonical_finite (sint v < 0) (nat \<bar>sint v\<bar>) 0 0"

definition from_i64 :: "i64 \<Rightarrow> CanonicalNumber" where
  "from_i64 v = canonical_finite (sint v < 0) (nat \<bar>sint v\<bar>) 0 0"

definition from_f64 :: "f64 \<Rightarrow> CanonicalNumber" where
  "from_f64 v =
    (if f64_is_nan v then NaN
     else if f64_is_infinite v \<and> f64_sign v then NegativeInfinity
     else if f64_is_infinite v then PositiveInfinity
     else
       let negative = f64_sign v; exponent_bits = int (f64_exponent v); fraction = f64_fraction v in
       if exponent_bits = 0 \<and> fraction = 0 then canonical_finite False 0 0 0
       else
         let (significand, exponent_two) =
           (if exponent_bits = 0 then (fraction, - 1022 - 52)
            else (2 ^ 52 + fraction, exponent_bits - 1023 - 52))
         in canonical_finite negative significand exponent_two 0)"

definition from_decimal_bid :: "bytes \<Rightarrow> CanonicalNumber" where
  "from_decimal_bid bid =
    (let raw = le_nat bid; negative = (raw div 2 ^ 127 \<noteq> 0) in
     if raw div 2 ^ 123 mod 16 = 15 then
       (if raw div 2 ^ 122 mod 2 = 1 then NaN
        else if negative then NegativeInfinity else PositiveInfinity)
     else
       let (biased_exponent, c) =
         (if raw div 2 ^ 125 mod 4 = 3
          then (raw div 2 ^ 111 mod 2 ^ 14, 2 ^ 113 + raw mod 2 ^ 111)
          else (raw div 2 ^ 113 mod 2 ^ 14, raw mod 2 ^ 113));
         c' = (if c > MAX_DECIMAL128_COEFFICIENT then 0 else c);
         e = int biased_exponent - DECIMAL128_EXPONENT_BIAS
       in canonical_finite negative c' e e)"

section \<open>Comparison\<close>

definition aligned_magnitude :: "CanonicalFinite \<Rightarrow> int \<Rightarrow> int \<Rightarrow> nat" where
  "aligned_magnitude f common_two common_five =
    coefficient f * 2 ^ nat (exponent_two f - common_two) * 5 ^ nat (exponent_five f - common_five)"

definition magnitude_cmp :: "CanonicalFinite \<Rightarrow> CanonicalFinite \<Rightarrow> Ordering" where
  "magnitude_cmp a b =
    (let common_two = min (exponent_two a) (exponent_two b);
         common_five = min (exponent_five a) (exponent_five b)
     in cmp (aligned_magnitude a common_two common_five) (aligned_magnitude b common_two common_five))"

definition finite_cmp :: "CanonicalFinite \<Rightarrow> CanonicalFinite \<Rightarrow> Ordering" where
  "finite_cmp a b =
    (if a = b then Equal
     else if coefficient a = 0 \<and> coefficient b = 0 then Equal
     else if coefficient a = 0 then (if is_negative b then Greater else Less)
     else if coefficient b = 0 then (if is_negative a then Less else Greater)
     else if is_negative a \<and> \<not> is_negative b then Less
     else if \<not> is_negative a \<and> is_negative b then Greater
     else if \<not> is_negative a then magnitude_cmp a b
     else reverse (magnitude_cmp a b))"

fun number_rank :: "CanonicalNumber \<Rightarrow> nat" where
  "number_rank NaN = 0"
| "number_rank NegativeInfinity = 1"
| "number_rank (Finite _) = 2"
| "number_rank PositiveInfinity = 3"

definition number_cmp :: "CanonicalNumber \<Rightarrow> CanonicalNumber \<Rightarrow> Ordering" where
  "number_cmp a b =
    then_with (cmp (number_rank a) (number_rank b))
      (\<lambda>_. case (a, b) of (Finite l, Finite r) \<Rightarrow> finite_cmp l r | _ \<Rightarrow> Equal)"

section \<open>Values\<close>

definition factored_value :: "nat \<Rightarrow> int \<Rightarrow> int \<Rightarrow> rat" where
  "factored_value c e2 e5 = of_nat c * 2 powi e2 * 5 powi e5"

definition with_sign :: "bool \<Rightarrow> rat \<Rightarrow> rat" where
  "with_sign negative x = (if negative then - x else x)"

definition finite_value :: "CanonicalFinite \<Rightarrow> rat" where
  "finite_value f = with_sign (is_negative f) (factored_value (coefficient f) (exponent_two f) (exponent_five f))"

text \<open>The canonical forms: zero has one form, and every other coefficient is coprime to ten.\<close>

definition canonical :: "CanonicalFinite \<Rightarrow> bool" where
  "canonical f \<longleftrightarrow>
    (if coefficient f = 0 then \<not> is_negative f \<and> exponent_two f = 0 \<and> exponent_five f = 0
     else \<not> 2 dvd coefficient f \<and> \<not> 5 dvd coefficient f)"

lemma strip_factor_spec:
  assumes "1 < p" "0 < c"
  shows "\<exists>n. c = fst (strip_factor p c e) * p ^ n \<and> snd (strip_factor p c e) = e + int n
    \<and> 0 < fst (strip_factor p c e) \<and> \<not> p dvd fst (strip_factor p c e)"
  using assms
proof (induction p c e rule: strip_factor.induct)
  case (1 p c e)
  show ?case
  proof (cases "c mod p = 0")
    case True
    then have c: "c = c div p * p" by auto
    with 1 True have pos: "0 < c div p" by (metis gr0I mult_0)
    from 1(1) [OF _ 1(2) pos] 1(2,3) True obtain n where
      n: "c div p = fst (strip_factor p (c div p) (e + 1)) * p ^ n"
      "snd (strip_factor p (c div p) (e + 1)) = e + 1 + int n"
      "0 < fst (strip_factor p (c div p) (e + 1))" "\<not> p dvd fst (strip_factor p (c div p) (e + 1))"
      by auto
    have eq: "strip_factor p c e = strip_factor p (c div p) (e + 1)"
      using 1(2,3) True by (subst strip_factor.simps) simp
    show ?thesis
      unfolding eq by (rule exI [of _ "Suc n"]) (use n c in \<open>auto simp: mult.assoc mult.commute\<close>)
  next
    case False
    then have eq: "strip_factor p c e = (c, e)" by (subst strip_factor.simps) simp
    show ?thesis
      unfolding eq by (rule exI [of _ 0]) (use False 1(3) in \<open>auto simp: dvd_eq_mod_eq_0\<close>)
  qed
qed

lemma canonical_finite_spec:
  obtains f where "canonical_finite negative c e2 e5 = Finite f" "canonical f"
    "finite_value f = with_sign negative (factored_value c e2 e5)"
    "c = 0 \<or> (\<exists>m n. c = coefficient f * 2 ^ m * 5 ^ n \<and> exponent_two f = e2 + int m \<and> exponent_five f = e5 + int n
      \<and> 0 < coefficient f)"
proof (cases "c = 0")
  case True
  then show thesis
    by (intro that [of "\<lparr>is_negative = False, coefficient = 0, exponent_two = 0, exponent_five = 0\<rparr>"])
       (simp_all add: canonical_finite_def canonical_def finite_value_def factored_value_def with_sign_def)
next
  case False
  obtain c2 e2' where s2: "strip_factor 2 c e2 = (c2, e2')" by force
  with strip_factor_spec [of 2 c e2] False obtain m where
    m: "c = c2 * 2 ^ m" "e2' = e2 + int m" "0 < c2" "\<not> 2 dvd c2" by auto
  obtain c5 e5' where s5: "strip_factor 5 c2 e5 = (c5, e5')" by force
  with strip_factor_spec [of 5 c2 e5] m(3) obtain n where
    n: "c2 = c5 * 5 ^ n" "e5' = e5 + int n" "0 < c5" "\<not> 5 dvd c5" by auto
  have odd: "\<not> 2 dvd c5" using m(4) n(1) by auto
  let ?f = "\<lparr>is_negative = negative, coefficient = c5, exponent_two = e2', exponent_five = e5'\<rparr>"
  have "factored_value c5 e2' e5' = factored_value c e2 e5"
    unfolding factored_value_def m(1,2) n(1,2) by (simp add: power_int_add mult_ac)
  then show thesis
    using False s2 s5 m n odd
    by (intro that [of ?f])
       (auto simp: canonical_finite_def canonical_def finite_value_def intro!: exI [of _ m] exI [of _ n])
qed

lemma factored_value_pos: "0 < c \<Longrightarrow> 0 < factored_value c e2 e5"
  by (simp add: factored_value_def)

text \<open>Uniqueness of the canonical form.\<close>

lemma coprime_form_unique:
  fixes c c' x y x' y' :: nat
  assumes eq: "c * 2 ^ x * 5 ^ y = c' * 2 ^ x' * 5 ^ y'"
    and c: "\<not> 2 dvd c" "\<not> 5 dvd c" "\<not> 2 dvd c'" "\<not> 5 dvd c'"
    and min: "x = 0 \<or> x' = 0" "y = 0 \<or> y' = 0"
  shows "c = c' \<and> x = x' \<and> y = y'"
proof -
  have odd5: "\<not> 2 dvd (5 :: nat) ^ k" for k by simp
  have no_even: False
    if "c1 * 5 ^ y1 = c2 * 2 ^ Suc k * 5 ^ y2" "\<not> 2 dvd c1" for c1 c2 y1 y2 k :: nat
  proof -
    have "2 dvd c1 * 5 ^ y1" unfolding that(1) by simp
    then show False using that(2) odd5 by simp
  qed
  have no_five: False
    if "c1 = c2 * 5 ^ Suc k" "\<not> 5 dvd c1" for c1 c2 k :: nat
    using that by simp
  have x: "x = 0 \<and> x' = 0"
    using eq c min(1) no_even [of c y c' "x' - 1" y'] no_even [of c' y' c "x - 1" y]
    by (cases x; cases x') auto
  with eq have eq5: "c * 5 ^ y = c' * 5 ^ y'" by simp
  have "y = 0 \<and> y' = 0"
    using eq5 c min(2) no_five [of c c' "y' - 1"] no_five [of c' c "y - 1"]
    by (cases y; cases y') auto
  with x eq5 show ?thesis by simp
qed

lemma factored_value_aligned:
  assumes "t \<le> e2" "u \<le> e5"
  shows "factored_value c e2 e5 = of_nat (c * 2 ^ nat (e2 - t) * 5 ^ nat (e5 - u)) * (2 powi t * 5 powi u)"
proof -
  have p: "x powi e = x ^ nat (e - t) * x powi t" if "t \<le> e" "x \<noteq> 0" for x :: rat and e t
    using that power_int_add [of x "e - t" t] by (simp add: power_int_def)
  show ?thesis
    unfolding factored_value_def p [OF assms(1), of 2, simplified] p [OF assms(2), of 5, simplified]
    by (simp add: mult_ac)
qed

lemma magnitude_cmp_value:
  "magnitude_cmp a b = cmp (factored_value (coefficient a) (exponent_two a) (exponent_five a))
    (factored_value (coefficient b) (exponent_two b) (exponent_five b))"
proof -
  define t u where "t = min (exponent_two a) (exponent_two b)" and "u = min (exponent_five a) (exponent_five b)"
  define z :: rat where "z = 2 powi t * 5 powi u"
  have z: "0 < z" by (simp add: z_def)
  have "factored_value (coefficient f) (exponent_two f) (exponent_five f) = of_nat (aligned_magnitude f t u) * z"
    if "f \<in> {a, b}" for f
    using that factored_value_aligned [of t "exponent_two f" u "exponent_five f" "coefficient f"]
    by (auto simp: t_def u_def z_def aligned_magnitude_def)
  moreover have "cmp (of_nat x * z) (of_nat y * z) = cmp x y" for x y :: nat
    using z by (auto simp: cmp_def)
  ultimately show ?thesis
    by (simp add: magnitude_cmp_def Let_def t_def u_def)
qed

lemma canonical_unique:
  assumes a: "canonical a" and b: "canonical b" and eq: "finite_value a = finite_value b"
  shows "a = b"
proof -
  let ?va = "factored_value (coefficient a) (exponent_two a) (exponent_five a)"
  let ?vb = "factored_value (coefficient b) (exponent_two b) (exponent_five b)"
  have z: "coefficient f = 0 \<longleftrightarrow> finite_value f = 0" for f
    using factored_value_pos [of "coefficient f" "exponent_two f" "exponent_five f"]
    by (auto simp: finite_value_def with_sign_def factored_value_def split: if_splits)
  show ?thesis
  proof (cases "finite_value a = 0")
    case True
    then show ?thesis using a b eq z [of a] z [of b] by (simp add: canonical_def)
  next
    case False
    then have pos: "0 < coefficient a" "0 < coefficient b" using z [of a] z [of b] eq by auto
    have v: "0 < ?va" "0 < ?vb" using pos by (simp_all add: factored_value_pos)
    have sign: "is_negative a = is_negative b" and mag: "?va = ?vb"
      using eq v unfolding finite_value_def with_sign_def
      by (cases "is_negative a"; cases "is_negative b"; force)+
    have "magnitude_cmp a b = Equal" using mag by (simp add: magnitude_cmp_value)
    then have m: "coefficient a * 2 ^ nat (exponent_two a - min (exponent_two a) (exponent_two b))
          * 5 ^ nat (exponent_five a - min (exponent_five a) (exponent_five b))
        = coefficient b * 2 ^ nat (exponent_two b - min (exponent_two a) (exponent_two b))
          * 5 ^ nat (exponent_five b - min (exponent_five a) (exponent_five b))"
      by (simp add: magnitude_cmp_def aligned_magnitude_def Let_def)
    have "coefficient a = coefficient b
      \<and> nat (exponent_two a - min (exponent_two a) (exponent_two b)) = nat (exponent_two b - min (exponent_two a) (exponent_two b))
      \<and> nat (exponent_five a - min (exponent_five a) (exponent_five b)) = nat (exponent_five b - min (exponent_five a) (exponent_five b))"
      by (rule coprime_form_unique [OF m]) (use a b pos in \<open>auto simp: canonical_def min_def\<close>)
    then show ?thesis using sign by (auto simp: min_def split: if_splits)
  qed
qed

lemma finite_cmp_value:
  assumes "canonical a" "canonical b"
  shows "finite_cmp a b = cmp (finite_value a) (finite_value b)"
proof (cases "a = b")
  case False
  then have ne: "finite_value a \<noteq> finite_value b" using canonical_unique [OF assms] by blast
  have z: "finite_value f = 0" if "coefficient f = 0" for f
    using that by (simp add: finite_value_def with_sign_def factored_value_def)
  have p: "0 < factored_value (coefficient f) (exponent_two f) (exponent_five f)" if "coefficient f \<noteq> 0" for f
    using that by (intro factored_value_pos) simp
  consider "coefficient a = 0" "coefficient b = 0" | "coefficient a = 0" "coefficient b \<noteq> 0"
    | "coefficient a \<noteq> 0" "coefficient b = 0" | "coefficient a \<noteq> 0" "coefficient b \<noteq> 0" by blast
  then show ?thesis
  proof cases
    case 1
    then show ?thesis using ne z by simp
  next
    case 2
    then show ?thesis using False z [of a] p [of b] by (simp add: finite_cmp_def finite_value_def [of b] with_sign_def cmp_def)
  next
    case 3
    then show ?thesis using False z [of b] p [of a] by (simp add: finite_cmp_def finite_value_def [of a] with_sign_def cmp_def)
  next
    case 4
    with p [of a] p [of b] show ?thesis
      using False by (auto simp: finite_cmp_def magnitude_cmp_value finite_value_def with_sign_def cmp_def)
  qed
qed (simp add: finite_cmp_def)

section \<open>Exact values\<close>

text \<open>The extended value of a number, in the order in which BSON sorts numbers.\<close>

datatype exact = ExNaN | ExNegInf | ExVal rat | ExPosInf

fun number_exact :: "CanonicalNumber \<Rightarrow> exact" where
  "number_exact NaN = ExNaN"
| "number_exact NegativeInfinity = ExNegInf"
| "number_exact (Finite f) = ExVal (finite_value f)"
| "number_exact PositiveInfinity = ExPosInf"

fun exact_cmp :: "exact \<Rightarrow> exact \<Rightarrow> Ordering" where
  "exact_cmp (ExVal x) (ExVal y) = cmp x y"
| "exact_cmp ExNaN ExNaN = Equal"
| "exact_cmp ExNaN _ = Less"
| "exact_cmp _ ExNaN = Greater"
| "exact_cmp ExNegInf ExNegInf = Equal"
| "exact_cmp ExNegInf _ = Less"
| "exact_cmp _ ExNegInf = Greater"
| "exact_cmp ExPosInf ExPosInf = Equal"
| "exact_cmp ExPosInf _ = Greater"
| "exact_cmp _ ExPosInf = Less"

definition number_canonical :: "CanonicalNumber \<Rightarrow> bool" where
  "number_canonical n \<longleftrightarrow> (case n of Finite f \<Rightarrow> canonical f | _ \<Rightarrow> True)"

lemma number_eq_iff:
  "number_canonical a \<Longrightarrow> number_canonical b \<Longrightarrow> a = b \<longleftrightarrow> number_exact a = number_exact b"
  using canonical_unique by (cases a; cases b) (auto simp: number_canonical_def)

lemma number_cmp_exact:
  "number_canonical a \<Longrightarrow> number_canonical b \<Longrightarrow> number_cmp a b = exact_cmp (number_exact a) (number_exact b)"
  by (cases a; cases b) (auto simp: number_canonical_def number_cmp_def finite_cmp_value)

text \<open>What the four families stand for.\<close>

definition int_exact :: "int \<Rightarrow> exact" where
  "int_exact i = ExVal (of_int i)"

definition f64_ulp :: rat where
  "f64_ulp = 2 powi (- 1074)"

definition f64_exact :: "f64 \<Rightarrow> exact" where
  "f64_exact v =
    (if f64_is_nan v then ExNaN
     else if f64_is_infinite v then (if f64_sign v then ExNegInf else ExPosInf)
     else ExVal (of_int (f64_scaled v) * f64_ulp))"

text \<open>Decimal128 in the binary integer decimal encoding: sign, combination field, coefficient.  A
  coefficient of more than 34 digits counts as zero.\<close>

definition bid_field :: "bytes \<Rightarrow> nat \<Rightarrow> nat \<Rightarrow> nat" where
  "bid_field bid from width = le_nat bid div 2 ^ from mod 2 ^ width"

definition decimal_exact :: "bytes \<Rightarrow> exact" where
  "decimal_exact bid =
    (let negative = bid_field bid 127 1 = 1 in
     if bid_field bid 123 4 = 15 then
       (if bid_field bid 122 1 = 1 then ExNaN else if negative then ExNegInf else ExPosInf)
     else if bid_field bid 125 2 = 3 \<or> bid_field bid 0 113 \<ge> 10 ^ 34 then ExVal 0
     else ExVal (with_sign negative (of_nat (bid_field bid 0 113) * 10 powi (int (bid_field bid 113 14) - 6176))))"

lemma canonical_finite_exact:
  "number_canonical (canonical_finite neg c e2 e5)"
  "number_exact (canonical_finite neg c e2 e5) = ExVal (with_sign neg (factored_value c e2 e5))"
  using canonical_finite_spec [of neg c e2 e5] by (force simp: number_canonical_def)+

lemma from_int_exact:
  "number_canonical (from_i32 v) \<and> number_exact (from_i32 v) = int_exact (sint v)"
  "number_canonical (from_i64 w) \<and> number_exact (from_i64 w) = int_exact (sint w)"
proof -
  have "with_sign (i < 0) (factored_value (nat \<bar>i\<bar>) 0 0) = of_int i" for i
    by (simp add: with_sign_def factored_value_def)
  then show "number_canonical (from_i32 v) \<and> number_exact (from_i32 v) = int_exact (sint v)"
    "number_canonical (from_i64 w) \<and> number_exact (from_i64 w) = int_exact (sint w)"
    by (simp_all add: from_i32_def from_i64_def canonical_finite_exact int_exact_def)
qed

lemma scaled_magnitude_fields:
  "scaled_magnitude (unat v mod 2 ^ 63) = (if f64_exponent v = 0 then f64_fraction v
     else (2 ^ 52 + f64_fraction v) * 2 ^ (f64_exponent v - 1))"
proof -
  have "(2 ^ 52 * f64_exponent v + f64_fraction v) div 2 ^ 52 = f64_exponent v"
    "(2 ^ 52 * f64_exponent v + f64_fraction v) mod 2 ^ 52 = f64_fraction v"
    using f64_fields_less(2) [of v] by (simp_all add: div_mult_self4)
  then show ?thesis
    unfolding f64_magnitude scaled_magnitude_def by simp
qed

lemma powi_ulp: "(2 :: rat) powi (int k - 1074) = 2 ^ k * f64_ulp"
proof -
  have "(2 :: rat) powi (int k + - 1074) = 2 powi int k * 2 powi (- 1074)" by (rule power_int_add) simp
  then show ?thesis by (simp only: f64_ulp_def power_int_of_nat diff_conv_add_uminus)
qed

lemma from_f64_exact: "number_canonical (from_f64 v) \<and> number_exact (from_f64 v) = f64_exact v"
proof (cases "f64_exponent v = 2047")
  case True
  then show ?thesis
    by (auto simp: from_f64_def f64_exact_def f64_is_nan_def f64_is_infinite_def number_canonical_def)
next
  case False
  then have nn: "\<not> f64_is_nan v" "\<not> f64_is_infinite v" by (simp_all add: f64_is_nan_def f64_is_infinite_def)
  define m where "m = scaled_magnitude (unat v mod 2 ^ 63)"
  have ex: "f64_exact v = ExVal (with_sign (f64_sign v) (of_nat m * f64_ulp))"
    using nn by (simp add: f64_exact_def with_sign_def f64_scaled_def m_def)
  have split: "from_f64 v = (if f64_exponent v = 0 \<and> f64_fraction v = 0 then canonical_finite False 0 0 0
      else if f64_exponent v = 0 then canonical_finite (f64_sign v) (f64_fraction v) (int 0 - 1074) 0
      else canonical_finite (f64_sign v) (2 ^ 52 + f64_fraction v) (int (f64_exponent v - 1) - 1074) 0)"
    using nn by (simp add: from_f64_def Let_def of_nat_diff)
  have val: "factored_value c (int k - 1074) 0 = of_nat (c * 2 ^ k) * f64_ulp" for c k
    by (simp only: factored_value_def powi_ulp) simp
  have form: ?thesis if "from_f64 v = canonical_finite (f64_sign v) c (int k - 1074) 0" "m = c * 2 ^ k" for c k
    unfolding that(1) ex canonical_finite_exact(2) val that(2) using canonical_finite_exact(1) by blast
  consider "f64_exponent v = 0" "f64_fraction v = 0" | "f64_exponent v = 0" "f64_fraction v \<noteq> 0" | "f64_exponent v \<noteq> 0"
    by blast
  then show ?thesis
  proof cases
    case 1
    then have "m = 0" by (simp only: m_def scaled_magnitude_fields) simp
    then show ?thesis using 1 split ex by (simp add: canonical_finite_exact with_sign_def factored_value_def)
  next
    case 2
    then have "m = f64_fraction v * 2 ^ 0" by (simp only: m_def scaled_magnitude_fields) simp
    with 2 split show ?thesis by (intro form [of "f64_fraction v" 0]) simp_all
  next
    case 3
    then have "m = (2 ^ 52 + f64_fraction v) * 2 ^ (f64_exponent v - 1)"
      by (simp only: m_def scaled_magnitude_fields) simp
    with 3 split show ?thesis by (intro form [of "2 ^ 52 + f64_fraction v" "f64_exponent v - 1"]) simp_all
  qed
qed

lemma from_decimal_bid_cases:
  assumes "length bid = 16"
  shows "from_decimal_bid bid =
    (if bid_field bid 123 4 = 15 then
       (if bid_field bid 122 1 = 1 then NaN
        else if bid_field bid 127 1 = 1 then NegativeInfinity else PositiveInfinity)
     else if bid_field bid 125 2 = 3 then canonical_finite (bid_field bid 127 1 = 1) 0 0 0
     else canonical_finite (bid_field bid 127 1 = 1)
       (if bid_field bid 0 113 \<ge> 10 ^ 34 then 0 else bid_field bid 0 113)
       (int (bid_field bid 113 14) - 6176) (int (bid_field bid 113 14) - 6176))"
proof -
  have "le_nat bid < 2 ^ 128" using le_nat_less [of bid] assms by simp
  then have "le_nat bid div 2 ^ 127 < 2" by (simp add: less_mult_imp_div_less)
  then have sign: "(le_nat bid div 2 ^ 127 \<noteq> 0) = (bid_field bid 127 1 = 1)" by (auto simp: bid_field_def)
  have fields: "le_nat bid div 2 ^ 123 mod 16 = bid_field bid 123 4"
    "(le_nat bid div 2 ^ 122 mod 2 = 1) = (bid_field bid 122 1 = 1)"
    "le_nat bid div 2 ^ 125 mod 4 = bid_field bid 125 2"
    "le_nat bid div 2 ^ 113 mod 2 ^ 14 = bid_field bid 113 14"
    "le_nat bid mod 2 ^ 113 = bid_field bid 0 113"
    unfolding bid_field_def by simp_all
  have big: "2 ^ 113 + x > MAX_DECIMAL128_COEFFICIENT" for x
    unfolding MAX_DECIMAL128_COEFFICIENT_def by simp
  have lim: "x > MAX_DECIMAL128_COEFFICIENT \<longleftrightarrow> x \<ge> 10 ^ 34" for x
    unfolding MAX_DECIMAL128_COEFFICIENT_def by (simp add: Suc_le_eq [symmetric] del: Suc_le_eq)
  have z: "canonical_finite n 0 a b = canonical_finite n 0 0 0" for n a b
    by (simp add: canonical_finite_def)
  show ?thesis
  proof (cases "bid_field bid 125 2 = 3")
    case True
    then show ?thesis
      unfolding from_decimal_bid_def Let_def sign fields
      by (simp only: True if_True if_P [OF big] prod.case) (rule if_cong [OF refl refl z])
  next
    case False
    then show ?thesis
      unfolding from_decimal_bid_def Let_def sign fields
      by (simp only: False if_False prod.case lim DECIMAL128_EXPONENT_BIAS_def)
  qed
qed

lemma from_decimal_exact:
  assumes "length bid = 16"
  shows "number_canonical (from_decimal_bid bid) \<and> number_exact (from_decimal_bid bid) = decimal_exact bid"
proof -
  have "factored_value c e e = of_nat c * 10 powi e" for c e
    using power_int_mult_distrib [of "2 :: rat" 5 e] by (simp add: factored_value_def)
  moreover have "factored_value 0 a b = 0" for a b by (simp add: factored_value_def)
  ultimately show ?thesis
    using canonical_finite_exact
    by (auto simp: from_decimal_bid_cases [OF assms] decimal_exact_def Let_def with_sign_def number_canonical_def)
qed

section \<open>The assertions\<close>

lemma factor_exponents:
  fixes c :: nat
  assumes "0 < c" "c * 2 ^ m * 5 ^ n < b"
  shows "b \<le> 2 ^ k \<Longrightarrow> m < k" "b \<le> 5 ^ j \<Longrightarrow> n < j"
proof -
  have two: "2 ^ m \<le> c * 2 ^ m * 5 ^ n" and five: "5 ^ n \<le> c * 2 ^ m * 5 ^ n"
    using assms(1) by (simp_all add: mult.assoc)
  show "m < k" if "b \<le> 2 ^ k"
  proof -
    have "(2 :: nat) ^ m < 2 ^ k" using two assms(2) that by linarith
    then show ?thesis by (simp add: power_strict_increasing_iff)
  qed
  show "n < j" if "b \<le> 5 ^ j"
  proof -
    have "(5 :: nat) ^ n < 5 ^ j" using five assms(2) that by linarith
    then show ?thesis by (simp add: power_strict_increasing_iff)
  qed
qed

lemma canonical_finite_asserts:
  assumes "c < b" "b \<le> 2 ^ k" "b \<le> 5 ^ j"
    and "MIN_CANONICAL_EXPONENT_TWO \<le> e2" "e2 + int k \<le> MAX_CANONICAL_EXPONENT_TWO + 1"
    and "MIN_CANONICAL_EXPONENT_FIVE \<le> e5" "e5 + int j \<le> MAX_CANONICAL_EXPONENT_FIVE + 1"
  shows "assertions_hold (canonical_finite neg c e2 e5)"
proof -
  obtain f where f: "canonical_finite neg c e2 e5 = Finite f"
    "c = 0 \<or> (\<exists>m n. c = coefficient f * 2 ^ m * 5 ^ n \<and> exponent_two f = e2 + int m \<and> exponent_five f = e5 + int n
      \<and> 0 < coefficient f)"
    by (rule canonical_finite_spec [of neg c e2 e5])
  show ?thesis
  proof (cases "c = 0")
    case False
    then obtain m n where m: "c = coefficient f * 2 ^ m * 5 ^ n" "exponent_two f = e2 + int m"
      "exponent_five f = e5 + int n" "0 < coefficient f" using f(2) by blast
    have "m < k" "n < j" using factor_exponents(1) [of "coefficient f" m n b k] factor_exponents(2) [of "coefficient f" m n b j] m(1,4) assms(1-3)
      by simp_all
    then show ?thesis using assms m(2,3) f(1) by (simp add: assertions_hold_def)
  qed (simp add: canonical_finite_def assertions_hold_def)
qed

lemma bid_exponent_less:
  assumes "bid_field bid 125 2 \<noteq> 3"
  shows "bid_field bid 113 14 < 12288"
proof -
  define x where "x = le_nat bid div 2 ^ 113"
  have q: "le_nat bid div 2 ^ 125 = x div 2 ^ 12"
    unfolding x_def by (simp add: div_mult2_eq [symmetric])
  have "x mod 2 ^ 14 = 2 ^ 12 * (x div 2 ^ 12 mod 2 ^ 2) + x mod 2 ^ 12"
    using mod_mult2_eq [of x "2 ^ 12" "2 ^ 2"] by simp
  moreover have "x div 2 ^ 12 mod 2 ^ 2 < 3"
    using assms q mod_less_divisor [of 4 "x div 4096"] by (simp add: bid_field_def)
  moreover have "x mod 2 ^ 12 < 2 ^ 12" by simp
  ultimately have "x mod 2 ^ 14 < 12288" by simp
  then show ?thesis by (simp add: bid_field_def x_def)
qed

lemma from_decimal_asserts:
  assumes "length bid = 16"
  shows "assertions_hold (from_decimal_bid bid)"
proof -
  have z: "assertions_hold (canonical_finite n 0 0 0)" for n
    by (simp add: canonical_finite_def assertions_hold_def)
  have "assertions_hold (canonical_finite n (if c \<ge> 10 ^ 34 then 0 else c) (int e - 6176) (int e - 6176))"
    if "e < 12288" for n c e
    using that
    by (intro canonical_finite_asserts [of _ "10 ^ 34" 113 49])
       (simp_all add: MIN_CANONICAL_EXPONENT_TWO_def MAX_CANONICAL_EXPONENT_TWO_def
         MIN_CANONICAL_EXPONENT_FIVE_def MAX_CANONICAL_EXPONENT_FIVE_def)
  then show ?thesis
    unfolding from_decimal_bid_cases [OF assms] using bid_exponent_less [of bid] z
    by (auto simp: assertions_hold_def split: if_splits)
qed

lemma from_binary_asserts:
  "assertions_hold (from_i32 v)" "assertions_hold (from_i64 w)" "assertions_hold (from_f64 x)"
proof -
  have b: "MIN_CANONICAL_EXPONENT_TWO = - 6176" "MAX_CANONICAL_EXPONENT_TWO = 6223"
    "MIN_CANONICAL_EXPONENT_FIVE = - 6176" "MAX_CANONICAL_EXPONENT_FIVE = 6159"
    by (simp_all add: MIN_CANONICAL_EXPONENT_TWO_def MAX_CANONICAL_EXPONENT_TWO_def
        MIN_CANONICAL_EXPONENT_FIVE_def MAX_CANONICAL_EXPONENT_FIVE_def)
  have i: "assertions_hold (canonical_finite n c 0 0)" if "c < 2 ^ 64" for n c
    using that by (intro canonical_finite_asserts [of _ "2 ^ 64" 64 28]) (simp_all add: b)
  have "\<bar>sint v\<bar> < 2 ^ 64" "\<bar>sint w\<bar> < 2 ^ 64"
    using sint_lt [of v] sint_ge [of v] sint_lt [of w] sint_ge [of w] by simp_all
  then show "assertions_hold (from_i32 v)" "assertions_hold (from_i64 w)"
    unfolding from_i32_def from_i64_def by (auto intro!: i simp: nat_less_iff)
  have f: "assertions_hold (canonical_finite n c e 0)" if "c < 2 ^ 53" "- 1074 \<le> e" "e \<le> 1000" for n c e
    using that by (intro canonical_finite_asserts [of _ "2 ^ 53" 53 23]) (simp_all add: b)
  have c: "f64_fraction x < 2 ^ 53" "2 ^ 52 + f64_fraction x < 2 ^ 53" "f64_exponent x < 2048"
    using f64_fields_less [of x] by simp_all
  show "assertions_hold (from_f64 x)"
  proof (cases "f64_exponent x = 2047")
    case True
    then show ?thesis
      by (auto simp: from_f64_def f64_is_nan_def f64_is_infinite_def assertions_hold_def)
  next
    case False
    with c(3) have e: "f64_exponent x \<le> 2046" by simp
    show ?thesis
      using False e c f [of "f64_fraction x" "- 1074" "f64_sign x"] f [of 0 0 False]
        f [of "2 ^ 52 + f64_fraction x" "int (f64_exponent x) - 1075" "f64_sign x"]
      by (auto simp: from_f64_def f64_is_nan_def f64_is_infinite_def Let_def)
  qed
qed

end
