(* ===== verification/Bson_Value.thy ===== *)
theory Bson_Value
  imports Bson_Number
begin

text \<open>
  BSON values, \<^verbatim>\<open>document/value.rs\<close>: the value type with its representation equality,
  semantic equality, order and hash, documents with their lookups, and the small value types
  (ObjectId, DateTime, regular expressions, UUIDs).  Strings are their UTF-8 bytes.
\<close>

unbundle bit_operations_syntax

section \<open>Types\<close>

datatype BsonErrorKind =
    InvalidValue | InvalidUtf8 | UnsupportedType | DuplicateField | InvalidCanonicalKey | Truncated
  | Oversized | NestingLimit

datatype UuidRepresentation = Standard | PythonLegacy | JavaLegacy | CSharpLegacy

datatype BsonValue =
    Double f64
  | String bytes
  | Document "(bytes \<times> BsonValue) list"
  | Array "BsonValue list"
  | Binary byte bytes
  | Uuid bytes UuidRepresentation
  | ObjectId bytes
  | Boolean bool
  | DateTime i64
  | Null
  | RegularExpression bytes bytes
  | JavaScript bytes "(bytes \<times> BsonValue) list option"
  | Int32 i32
  | Timestamp u32 u32
  | Int64 i64
  | Decimal128 bytes
  | MinKey
  | MaxKey

type_synonym BsonDocument = "(bytes \<times> BsonValue) list"

section \<open>Documents\<close>

definition push :: "BsonDocument \<Rightarrow> bytes \<Rightarrow> BsonValue \<Rightarrow> BsonErrorKind + BsonDocument" where
  "push self name value = (if 0 \<in> set name then Inl InvalidValue else Inr (self @ [(name, value)]))"

fun push_all :: "BsonDocument \<Rightarrow> (bytes \<times> BsonValue) list \<Rightarrow> BsonErrorKind + BsonDocument" where
  "push_all document [] = Inr document"
| "push_all document ((name, value) # rest) = and_then (push document name value) (\<lambda>d. push_all d rest)"

definition from_entries :: "(bytes \<times> BsonValue) list \<Rightarrow> BsonErrorKind + BsonDocument" where
  "from_entries es = push_all [] es"

fun get_first :: "BsonDocument \<Rightarrow> bytes \<Rightarrow> BsonValue option" where
  "get_first [] name = None"
| "get_first ((candidate, value) # rest) name = (if candidate = name then Some value else get_first rest name)"

definition get_last :: "BsonDocument \<Rightarrow> bytes \<Rightarrow> BsonValue option" where
  "get_last self name = get_first (rev self) name"

definition get_all :: "BsonDocument \<Rightarrow> bytes \<Rightarrow> BsonValue list" where
  "get_all self name = map snd (filter (\<lambda>(candidate, _). candidate = name) self)"

fun get_unique_from :: "BsonDocument \<Rightarrow> bytes \<Rightarrow> BsonValue option \<Rightarrow> BsonErrorKind + BsonValue option" where
  "get_unique_from [] name found = Inr found"
| "get_unique_from ((candidate, value) # rest) name found =
    (if candidate = name then
       (if found \<noteq> None then Inl DuplicateField else get_unique_from rest name (Some value))
     else get_unique_from rest name found)"

definition get_unique :: "BsonDocument \<Rightarrow> bytes \<Rightarrow> BsonErrorKind + BsonValue option" where
  "get_unique self name = get_unique_from self name None"

fun validate_unique_from :: "bytes set \<Rightarrow> BsonDocument \<Rightarrow> BsonErrorKind + unit" where
  "validate_unique_from names [] = Inr ()"
| "validate_unique_from names ((name, _) # rest) =
    (if name \<in> names then Inl DuplicateField else validate_unique_from (insert name names) rest)"

definition validate_unique :: "BsonDocument \<Rightarrow> BsonErrorKind + unit" where
  "validate_unique self = validate_unique_from {} self"

section \<open>Small value types\<close>






text \<open>\<open>div_euclid\<close> with a positive divisor rounds down.\<close>

definition from_micros :: "i64 \<Rightarrow> i64" where
  "from_micros microseconds = word_of_int (sint microseconds div 1000)"

text \<open>The regular-expression flags \<^verbatim>\<open>ilmsux\<close>, in that order.\<close>

definition REGEX_FLAGS :: bytes where
  "REGEX_FLAGS = [105, 108, 109, 115, 117, 120]"

definition regex_new :: "bytes \<Rightarrow> bytes \<Rightarrow> BsonErrorKind + bytes \<times> bytes" where
  "regex_new pattern options =
    (if 0 \<in> set pattern then Inl InvalidValue
     else if \<not> list_all (\<lambda>b. b \<in> set REGEX_FLAGS) options then Inl InvalidValue
     else Inr (pattern, filter (\<lambda>b. b \<in> set options) REGEX_FLAGS))"

fun uuid_subtype :: "UuidRepresentation \<Rightarrow> byte" where
  "uuid_subtype Standard = 4"
| "uuid_subtype _ = 3"

fun uuid_transform :: "UuidRepresentation \<Rightarrow> bytes \<Rightarrow> bytes" where
  "uuid_transform JavaLegacy bs = rev (take 8 bs) @ rev (drop 8 bs)"
| "uuid_transform CSharpLegacy bs =
    rev (take 4 bs) @ rev (take 2 (drop 4 bs)) @ rev (take 2 (drop 6 bs)) @ drop 8 bs"
| "uuid_transform _ bs = bs"

definition encoded_parts :: "bytes \<Rightarrow> UuidRepresentation \<Rightarrow> byte \<times> bytes" where
  "encoded_parts bs r = (uuid_subtype r, uuid_transform r bs)"



section \<open>Equality, order and hash\<close>

fun type_rank :: "BsonValue \<Rightarrow> nat" where
  "type_rank MinKey = 0"
| "type_rank Null = 1"
| "type_rank (Double _) = 2"
| "type_rank (Int32 _) = 2"
| "type_rank (Int64 _) = 2"
| "type_rank (Decimal128 _) = 2"
| "type_rank (String _) = 3"
| "type_rank (Document _) = 4"
| "type_rank (Array _) = 5"
| "type_rank (Binary _ _) = 6"
| "type_rank (Uuid _ _) = 6"
| "type_rank (ObjectId _) = 7"
| "type_rank (Boolean _) = 8"
| "type_rank (DateTime _) = 9"
| "type_rank (Timestamp _ _) = 10"
| "type_rank (RegularExpression _ _) = 11"
| "type_rank (JavaScript _ None) = 12"
| "type_rank (JavaScript _ (Some _)) = 13"
| "type_rank MaxKey = 14"

fun canonical_number :: "BsonValue \<Rightarrow> CanonicalNumber option" where
  "canonical_number (Double v) = Some (from_f64 v)"
| "canonical_number (Int32 v) = Some (from_i32 v)"
| "canonical_number (Int64 v) = Some (from_i64 v)"
| "canonical_number (Decimal128 v) = Some (from_decimal_bid v)"
| "canonical_number _ = None"

fun binary_parts :: "BsonValue \<Rightarrow> (byte \<times> bytes) option" where
  "binary_parts (Binary subtype bs) = Some (subtype, bs)"
| "binary_parts (Uuid bs r) = Some (encoded_parts bs r)"
| "binary_parts _ = None"

text \<open>\<open>None\<close> is the panic of an unreachable branch; \<open>then_try\<close> is \<open>then_with\<close>.\<close>

fun then_try :: "Ordering option \<Rightarrow> (unit \<Rightarrow> Ordering option) \<Rightarrow> Ordering option" where
  "then_try (Some Equal) f = f ()"
| "then_try r f = r"

definition encoded_len :: "byte \<Rightarrow> bytes \<Rightarrow> nat" where
  "encoded_len subtype bs = length bs + (if subtype = 2 then 4 else 0)"

definition binary_cmp :: "byte \<times> bytes \<Rightarrow> byte \<times> bytes \<Rightarrow> Ordering" where
  "binary_cmp l r =
    then_with (cmp (encoded_len (fst l) (snd l)) (encoded_len (fst r) (snd r)))
      (\<lambda>_. then_with (cmp (fst l) (fst r)) (\<lambda>_. cmp (snd l) (snd r)))"

fun bson_cmp :: "BsonValue \<Rightarrow> BsonValue \<Rightarrow> Ordering option"
  and document_cmp :: "BsonDocument \<Rightarrow> BsonDocument \<Rightarrow> Ordering option"
  and array_cmp :: "BsonValue list \<Rightarrow> BsonValue list \<Rightarrow> Ordering option" where
  "bson_cmp a b =
    (let rank = cmp (type_rank a) (type_rank b) in
     if rank \<noteq> Equal then Some rank
     else if canonical_number a \<noteq> None \<and> canonical_number b \<noteq> None
     then Some (number_cmp (the (canonical_number a)) (the (canonical_number b)))
     else if binary_parts a \<noteq> None then
       (case binary_parts b of
          None \<Rightarrow> None
        | Some r \<Rightarrow> Some (binary_cmp (the (binary_parts a)) r))
     else
       case (a, b) of
         (String l, String r) \<Rightarrow> Some (cmp l r)
       | (Document l, Document r) \<Rightarrow> document_cmp l r
       | (Array l, Array r) \<Rightarrow> array_cmp l r
       | (ObjectId l, ObjectId r) \<Rightarrow> Some (cmp l r)
       | (Boolean l, Boolean r) \<Rightarrow> Some (cmp l r)
       | (DateTime l, DateTime r) \<Rightarrow> Some (cmp (sint l) (sint r))
       | (RegularExpression lp lo, RegularExpression rp ro) \<Rightarrow> Some (then_with (cmp lp rp) (\<lambda>_. cmp lo ro))
       | (JavaScript lc ls, JavaScript rc rs) \<Rightarrow>
           then_try (Some (cmp lc rc)) (\<lambda>_.
             case (ls, rs) of
               (None, None) \<Rightarrow> Some Equal
             | (None, Some _) \<Rightarrow> Some Less
             | (Some _, None) \<Rightarrow> Some Greater
             | (Some l, Some r) \<Rightarrow> document_cmp l r)
       | (Timestamp lt li, Timestamp rt ri) \<Rightarrow> Some (then_with (cmp lt rt) (\<lambda>_. cmp li ri))
       | (Null, Null) \<Rightarrow> Some Equal
       | (MinKey, MinKey) \<Rightarrow> Some Equal
       | (MaxKey, MaxKey) \<Rightarrow> Some Equal
       | _ \<Rightarrow> None)"
| "document_cmp ((lname, lv) # l) ((rname, rv) # r) =
    then_try (Some (then_with (cmp (type_rank lv) (type_rank rv)) (\<lambda>_. cmp lname rname)))
      (\<lambda>_. then_try (bson_cmp lv rv) (\<lambda>_. document_cmp l r))"
| "document_cmp (_ # _) [] = Some Greater"
| "document_cmp [] (_ # _) = Some Less"
| "document_cmp [] [] = Some Equal"
| "array_cmp (lv # l) (rv # r) = then_try (bson_cmp lv rv) (\<lambda>_. array_cmp l r)"
| "array_cmp (_ # _) [] = Some Greater"
| "array_cmp [] (_ # _) = Some Less"
| "array_cmp [] [] = Some Equal"

declare bson_cmp.simps [simp del]

fun bson_eq :: "BsonValue \<Rightarrow> BsonValue \<Rightarrow> bool"
  and document_eq :: "BsonDocument \<Rightarrow> BsonDocument \<Rightarrow> bool"
  and array_eq :: "BsonValue list \<Rightarrow> BsonValue list \<Rightarrow> bool" where
  "bson_eq a b =
    (if canonical_number a \<noteq> None \<and> canonical_number b \<noteq> None
     then the (canonical_number a) = the (canonical_number b)
     else if binary_parts a \<noteq> None then
       (case binary_parts b of None \<Rightarrow> False | Some r \<Rightarrow> the (binary_parts a) = r)
     else
       case (a, b) of
         (String l, String r) \<Rightarrow> l = r
       | (Document l, Document r) \<Rightarrow> document_eq l r
       | (Array l, Array r) \<Rightarrow> array_eq l r
       | (Null, Null) \<Rightarrow> True
       | (MinKey, MinKey) \<Rightarrow> True
       | (MaxKey, MaxKey) \<Rightarrow> True
       | (ObjectId l, ObjectId r) \<Rightarrow> l = r
       | (Boolean l, Boolean r) \<Rightarrow> l = r
       | (DateTime l, DateTime r) \<Rightarrow> l = r
       | (RegularExpression lp lo, RegularExpression rp ro) \<Rightarrow> lp = rp \<and> lo = ro
       | (JavaScript lc ls, JavaScript rc rs) \<Rightarrow> lc = rc \<and>
           (case (ls, rs) of
              (None, None) \<Rightarrow> True
            | (Some l, Some r) \<Rightarrow> document_eq l r
            | _ \<Rightarrow> False)
       | (Timestamp lt li, Timestamp rt ri) \<Rightarrow> lt = rt \<and> li = ri
       | _ \<Rightarrow> False)"
| "document_eq ((lname, lv) # l) ((rname, rv) # r) \<longleftrightarrow> lname = rname \<and> bson_eq lv rv \<and> document_eq l r"
| "document_eq [] [] \<longleftrightarrow> True"
| "document_eq _ _ \<longleftrightarrow> False"
| "array_eq (lv # l) (rv # r) \<longleftrightarrow> bson_eq lv rv \<and> array_eq l r"
| "array_eq [] [] \<longleftrightarrow> True"
| "array_eq _ _ \<longleftrightarrow> False"

declare bson_eq.simps [simp del]

text \<open>Equality of representations: doubles and decimals by their bits, UUIDs with their convention.\<close>

fun representation_eq :: "BsonValue \<Rightarrow> BsonValue \<Rightarrow> bool"
  and document_representation_eq :: "BsonDocument \<Rightarrow> BsonDocument \<Rightarrow> bool"
  and array_representation_eq :: "BsonValue list \<Rightarrow> BsonValue list \<Rightarrow> bool" where
  "representation_eq a b =
    (case (a, b) of
       (Double l, Double r) \<Rightarrow> l = r
     | (String l, String r) \<Rightarrow> l = r
     | (Document l, Document r) \<Rightarrow> document_representation_eq l r
     | (Array l, Array r) \<Rightarrow> array_representation_eq l r
     | (Binary ls l, Binary rs r) \<Rightarrow> ls = rs \<and> l = r
     | (Uuid l lr, Uuid r rr) \<Rightarrow> l = r \<and> lr = rr
     | (Null, Null) \<Rightarrow> True
     | (MinKey, MinKey) \<Rightarrow> True
     | (MaxKey, MaxKey) \<Rightarrow> True
     | (ObjectId l, ObjectId r) \<Rightarrow> l = r
     | (Boolean l, Boolean r) \<Rightarrow> l = r
     | (DateTime l, DateTime r) \<Rightarrow> l = r
     | (RegularExpression lp lo, RegularExpression rp ro) \<Rightarrow> lp = rp \<and> lo = ro
     | (JavaScript lc ls, JavaScript rc rs) \<Rightarrow> lc = rc \<and>
         (case (ls, rs) of
            (Some l, Some r) \<Rightarrow> document_representation_eq l r
          | (None, None) \<Rightarrow> True
          | _ \<Rightarrow> False)
     | (Int32 l, Int32 r) \<Rightarrow> l = r
     | (Timestamp lt li, Timestamp rt ri) \<Rightarrow> lt = rt \<and> li = ri
     | (Int64 l, Int64 r) \<Rightarrow> l = r
     | (Decimal128 l, Decimal128 r) \<Rightarrow> l = r
     | _ \<Rightarrow> False)"
| "document_representation_eq ((lname, lv) # l) ((rname, rv) # r) \<longleftrightarrow>
    lname = rname \<and> representation_eq lv rv \<and> document_representation_eq l r"
| "document_representation_eq [] [] \<longleftrightarrow> True"
| "document_representation_eq _ _ \<longleftrightarrow> False"
| "array_representation_eq (lv # l) (rv # r) \<longleftrightarrow> representation_eq lv rv \<and> array_representation_eq l r"
| "array_representation_eq [] [] \<longleftrightarrow> True"
| "array_representation_eq _ _ \<longleftrightarrow> False"

declare representation_eq.simps [simp del]

text \<open>What a value writes to a hasher, in order.\<close>

datatype HashWrite =
    HashU8 nat | HashLen nat | HashBytes bytes | HashStr bytes | HashInt int | HashNumber CanonicalNumber

fun hash_writes :: "BsonValue \<Rightarrow> HashWrite list"
  and entries_hash :: "BsonDocument \<Rightarrow> HashWrite list"
  and array_hash :: "BsonValue list \<Rightarrow> HashWrite list" where
  "hash_writes v =
    (case canonical_number v of
       Some n \<Rightarrow> [HashU8 2, HashNumber n]
     | None \<Rightarrow>
         case binary_parts v of
           Some (subtype, bs) \<Rightarrow> [HashU8 6, HashU8 (unat subtype), HashBytes bs]
         | None \<Rightarrow>
             HashU8 (type_rank v) #
             (case v of
                String s \<Rightarrow> [HashStr s]
              | Document d \<Rightarrow> HashLen (length d) # entries_hash d
              | Array vs \<Rightarrow> HashLen (length vs) # array_hash vs
              | ObjectId bs \<Rightarrow> [HashBytes bs]
              | Boolean b \<Rightarrow> [HashU8 (if b then 1 else 0)]
              | DateTime t \<Rightarrow> [HashInt (sint t)]
              | RegularExpression p opts \<Rightarrow> [HashStr p, HashStr opts]
              | JavaScript c scope \<Rightarrow>
                  HashStr c #
                  (case scope of None \<Rightarrow> [HashInt 0] | Some d \<Rightarrow> HashInt 1 # HashLen (length d) # entries_hash d)
              | Timestamp t i \<Rightarrow> [HashInt (uint t), HashInt (uint i)]
              | _ \<Rightarrow> []))"
| "entries_hash ((name, v) # d) = HashStr name # hash_writes v @ entries_hash d"
| "entries_hash [] = []"
| "array_hash (v # vs) = hash_writes v @ array_hash vs"
| "array_hash [] = []"

declare hash_writes.simps [simp del]

section \<open>Documents keep every entry, in order\<close>

lemma push_all_spec:
  "push_all d es = (if \<exists>(name, _)\<in>set es. 0 \<in> set name then Inl InvalidValue else Inr (d @ es))"
  by (induction es arbitrary: d) (auto simp: push_def)

lemma get_first_spec: "get_first d name = (case get_all d name of [] \<Rightarrow> None | v # _ \<Rightarrow> Some v)"
  by (induction d name rule: get_first.induct) (auto simp: get_all_def)

lemma get_last_spec: "get_last d name = (case rev (get_all d name) of [] \<Rightarrow> None | v # _ \<Rightarrow> Some v)"
  by (simp add: get_last_def get_first_spec get_all_def rev_map rev_filter)

lemma get_unique_from_spec:
  "get_unique_from d name found =
    (case (found, get_all d name) of
       (_, []) \<Rightarrow> Inr found
     | (None, [v]) \<Rightarrow> Inr (Some v)
     | _ \<Rightarrow> Inl DuplicateField)"
  by (induction d name found rule: get_unique_from.induct)
    (auto simp: get_all_def split: option.splits list.splits)

lemma validate_unique_from_spec:
  "validate_unique_from names d =
    (if distinct (map fst d) \<and> names \<inter> set (map fst d) = {} then Inr () else Inl DuplicateField)"
  by (induction names d rule: validate_unique_from.induct) auto

text \<open>C36: Building a document from entries keeps them all, in order, and fails exactly when a field
  name holds a NUL byte.  Of the values stored under a name, \<open>get_first\<close> and \<open>get_last\<close> return
  the first and the last, \<open>get_unique\<close> returns the only one and reports a duplicate otherwise, and
  \<open>validate_unique\<close> succeeds exactly on documents whose names are distinct.
\<close>

theorem document_lookups:
  "from_entries es = (if list_ex (\<lambda>(name, _). 0 \<in> set name) es then Inl InvalidValue else Inr es)
    \<and> get_first es n = (case get_all es n of [] \<Rightarrow> None | v # _ \<Rightarrow> Some v)
    \<and> get_last es n = (case rev (get_all es n) of [] \<Rightarrow> None | v # _ \<Rightarrow> Some v)
    \<and> get_unique es n = (case get_all es n of [] \<Rightarrow> Inr None | [v] \<Rightarrow> Inr (Some v) | _ \<Rightarrow> Inl DuplicateField)
    \<and> validate_unique es = (if distinct (map fst es) then Inr () else Inl DuplicateField)"
proof -
  have "from_entries es = (if list_ex (\<lambda>(name, _). 0 \<in> set name) es then Inl InvalidValue else Inr es)"
    by (force simp: from_entries_def push_all_spec list_ex_iff)
  then show ?thesis
    by (auto simp: get_first_spec get_last_spec get_unique_def get_unique_from_spec validate_unique_def
        validate_unique_from_spec split: list.splits)
qed

section \<open>Small value types\<close>








lemma regex_new_stable:
  assumes "regex_new p opts = Inr (q, flags)"
  shows "q = p \<and> set flags = set opts \<and> distinct flags \<and> regex_new q flags = Inr (q, flags)"
proof -
  have *: "0 \<notin> set p" "set opts \<subseteq> set REGEX_FLAGS" "q = p" "flags = filter (\<lambda>b. b \<in> set opts) REGEX_FLAGS"
    using assms by (auto simp: regex_new_def list_all_iff split: if_splits)
  have "distinct REGEX_FLAGS" by (simp add: REGEX_FLAGS_def)
  then have flags: "set flags = set opts" "distinct flags" using * by auto
  then have "regex_new q flags = Inr (q, filter (\<lambda>b. b \<in> set opts) REGEX_FLAGS)"
    using * by (auto simp: regex_new_def list_all_iff)
  then show ?thesis using flags * by simp
qed

end
