(* ===== verification/Bson_Order.thy ===== *)
theory Bson_Order
  imports Bson_Value Ordered_Code
begin

text \<open>
  The comparison of BSON values is a linear order that agrees with their semantic equality, and
  their hash respects that equality.  The order is proved through sort codes.
\<close>

section \<open>The order of values is a linear order of codes\<close>

text \<open>A sort code: a list of rational symbols, in lexicographic order, none a proper prefix of another.\<close>

definition bytes_code :: "bytes \<Rightarrow> rat list" where
  "bytes_code bs = map (\<lambda>b. 1 + of_nat (unat b)) bs @ [0]"

fun exact_code :: "exact \<Rightarrow> rat list" where
  "exact_code ExNaN = [0, 0]"
| "exact_code ExNegInf = [1, 0]"
| "exact_code (ExVal x) = [2, x]"
| "exact_code ExPosInf = [3, 0]"

fun sort_code :: "BsonValue \<Rightarrow> rat list"
  and document_code :: "BsonDocument \<Rightarrow> rat list"
  and array_code :: "BsonValue list \<Rightarrow> rat list" where
  "sort_code v = of_nat (type_rank v) #
    (case canonical_number v of
       Some n \<Rightarrow> exact_code (number_exact n)
     | None \<Rightarrow>
         case binary_parts v of
           Some (t, bs) \<Rightarrow> of_nat (encoded_len t bs) # of_nat (unat t) # bytes_code bs
         | None \<Rightarrow>
             case v of
               String s \<Rightarrow> bytes_code s
             | Document d \<Rightarrow> document_code d
             | Array vs \<Rightarrow> array_code vs
             | ObjectId bs \<Rightarrow> bytes_code bs
             | Boolean b \<Rightarrow> [if b then 1 else 0]
             | DateTime t \<Rightarrow> [of_int (sint t)]
             | Timestamp t i \<Rightarrow> [of_nat (unat t), of_nat (unat i)]
             | RegularExpression p opts \<Rightarrow> bytes_code p @ bytes_code opts
             | JavaScript c scope \<Rightarrow>
                 bytes_code c @ (case scope of None \<Rightarrow> [] | Some d \<Rightarrow> document_code d)
             | _ \<Rightarrow> [])"
| "document_code ((name, v) # d) = 1 # of_nat (type_rank v) # bytes_code name @ sort_code v @ document_code d"
| "document_code [] = [0]"
| "array_code (v # vs) = 1 # sort_code v @ array_code vs"
| "array_code [] = [0]"

declare sort_code.simps [simp del]

lemma cmp_less: "a < b \<Longrightarrow> cmp a b = Less"
  and cmp_greater: "b < a \<Longrightarrow> cmp a b = Greater"
  by simp_all

lemma cmp_of_nat [simp]: "cmp (of_nat a :: rat) (of_nat b) = cmp a b"
  by (simp add: cmp_def)

lemma cmp_of_int [simp]: "cmp (of_int a :: rat) (of_int b) = cmp a b"
  by (simp add: cmp_def)

lemma unsigned_rat: "(unsigned (a :: 'a :: len word) :: rat) = of_nat (unat a)"
  by simp

lemma cmp_unsigned [simp]: "cmp (unsigned a :: rat) (unsigned b) = cmp a (b :: 'a :: len word)"
proof -
  have "cmp (unsigned a :: rat) (unsigned b) = cmp (unat a) (unat b)"
    by (simp only: unsigned_rat cmp_of_nat)
  also have "\<dots> = cmp a b" by (simp add: cmp_def word_less_nat_alt word_unat_eq_iff)
  finally show ?thesis .
qed

lemma unsigned_nonneg: "0 \<le> (unsigned (a :: 'a :: len word) :: rat)"
  by (simp only: unsigned_rat of_nat_0_le_iff)

lemma signed_rat: "(signed (a :: 'a :: len word) :: rat) = of_int (sint a)"
  by simp

lemma cmp_signed [simp]: "cmp (signed a :: rat) (signed b) = cmp (sint a) (sint (b :: 'a :: len word))"
  by (simp only: signed_rat cmp_of_int)

lemma cmp_bool [simp]: "cmp (if a then 1 else 0 :: rat) (if b then 1 else 0) = cmp a b"
  by (auto simp: cmp_def)

lemma cmp_byte_symbol:
  "cmp (1 + unsigned a) (1 + unsigned b :: rat) = cmp a (b :: 'a :: len word)"
  "cmp 0 (1 + unsigned b :: rat) = Less"
  "cmp (1 + unsigned a :: rat) 0 = Greater"
proof -
  show "cmp (1 + unsigned a) (1 + unsigned b :: rat) = cmp a b" using cmp_unsigned [of a b] by (simp add: cmp_def split: if_splits)
  show "cmp 0 (1 + unsigned b :: rat) = Less" using unsigned_nonneg [of b] by simp
  show "cmp (1 + unsigned a :: rat) 0 = Greater" using unsigned_nonneg [of a] by simp
qed

lemma then_try_Some [simp]: "then_try (Some a) (\<lambda>_. Some b) = Some (then_with a (\<lambda>_. b))"
  by (cases a) simp_all

lemma then_with_assoc: "then_with (then_with a f) g = then_with a (\<lambda>_. then_with (f ()) g)"
  by (cases a) simp_all

lemma cmp_bytes_code:
  "cmp (bytes_code a @ r) (bytes_code b @ s) = then_with (cmp a b) (\<lambda>_. cmp r s)"
  unfolding bytes_code_def
proof (induction a arbitrary: b)
  case Nil
  then show ?case by (cases b) (simp_all add: cmp_Cons cmp_byte_symbol cmp_less cmp_greater)
next
  case (Cons x a)
  then show ?case
    by (cases b) (simp_all add: cmp_Cons cmp_byte_symbol cmp_less cmp_greater then_with_assoc)
qed

lemma cmp_exact_code:
  "cmp (exact_code x @ r) (exact_code y @ s) = then_with (exact_cmp x y) (\<lambda>_. cmp r s)"
  by (cases x; cases y) (simp_all add: cmp_Cons cmp_less cmp_greater)

lemma special_or_finite_canonical:
  "number_canonical (if p then (if q then NaN else if r then NegativeInfinity else PositiveInfinity)
    else canonical_finite neg c e2 e5)"
  using canonical_finite_exact(1) [of neg c e2 e5] by (simp add: number_canonical_def)

lemma decimal_canonical: "number_canonical (from_decimal_bid bid)"
  unfolding from_decimal_bid_def Let_def split_def by (rule special_or_finite_canonical)

lemma number_canonical_value:
  assumes "canonical_number v = Some n"
  shows "number_canonical n"
proof -
  note facts = from_f64_exact [THEN conjunct1] from_int_exact [THEN conjunct1] decimal_canonical
  show ?thesis using assms by (cases v) (simp_all only: canonical_number.simps option.inject option.distinct, (erule subst, rule facts)+)
qed

text \<open>\<open>codes a b\<close>: comparing the values is comparing their codes, whatever follows them.\<close>

definition codes :: "Ordering option \<Rightarrow> rat list \<Rightarrow> rat list \<Rightarrow> bool" where
  "codes result x y \<longleftrightarrow>
    (\<exists>ord. result = Some ord \<and> (\<forall>r s. cmp (x @ r) (y @ s) = then_with ord (\<lambda>_. cmp r s)))"

lemma codes_Some: "(\<And>r s. cmp (x @ r) (y @ s) = then_with ord (\<lambda>_. cmp r s)) \<Longrightarrow> codes (Some ord) x y"
  by (simp add: codes_def)

lemma codes_then:
  assumes "codes a x y" "codes (f ()) x' y'"
  shows "codes (then_try a f) (x @ x') (y @ y')"
proof -
  obtain p where p: "a = Some p" "\<And>r s. cmp (x @ r) (y @ s) = then_with p (\<lambda>_. cmp r s)"
    using assms(1) by (auto simp: codes_def)
  obtain q where q: "f () = Some q" "\<And>r s. cmp (x' @ r) (y' @ s) = then_with q (\<lambda>_. cmp r s)"
    using assms(2) by (auto simp: codes_def)
  have "then_try a f = Some (then_with p (\<lambda>_. q))" using p(1) q(1) by (cases p) simp_all
  then show ?thesis by (simp add: codes_def p(2) q(2) then_with_assoc)
qed

lemma codes_bytes: "codes (Some (cmp a b)) (bytes_code a) (bytes_code b)"
  by (rule codes_Some) (rule cmp_bytes_code)

lemma codes_Cons: "codes r x y \<Longrightarrow> codes r (z # x) (z # y)"
  by (auto simp: codes_def cmp_Cons)

lemma codes_document:
  assumes "\<And>name v w. (name, v) \<in> set d \<Longrightarrow> codes (bson_cmp v w) (sort_code v) (sort_code w)"
  shows "codes (document_cmp d e) (document_code d) (document_code e)"
  using assms
proof (induction d arbitrary: e)
  case Nil
  then show ?case by (cases e) (auto intro!: codes_Some simp: cmp_Cons cmp_less cmp_greater)
next
  case (Cons x d)
  obtain name v where x: "x = (name, v)" by force
  show ?case
  proof (cases e)
    case Nil
    then show ?thesis using x by (auto intro!: codes_Some simp: cmp_Cons cmp_less cmp_greater)
  next
    case (Cons y e')
    obtain name' w where y: "y = (name', w)" by force
    have "codes (Some (then_with (cmp (type_rank v) (type_rank w)) (\<lambda>_. cmp name name')))
        (of_nat (type_rank v) # bytes_code name) (of_nat (type_rank w) # bytes_code name')"
      by (rule codes_Some) (simp add: cmp_Cons cmp_bytes_code then_with_assoc)
    moreover have "codes (bson_cmp v w) (sort_code v) (sort_code w)" using Cons.prems x by auto
    moreover have "codes (document_cmp d e') (document_code d) (document_code e')"
      using Cons.IH Cons.prems by auto
    ultimately have "codes (document_cmp (x # d) (y # e'))
        (1 # (of_nat (type_rank v) # bytes_code name) @ sort_code v @ document_code d)
        (1 # (of_nat (type_rank w) # bytes_code name') @ sort_code w @ document_code e')"
      unfolding x y document_cmp.simps by (intro codes_Cons codes_then)
    then show ?thesis using Cons x y by simp
  qed
qed

lemma codes_array:
  assumes "\<And>v w. v \<in> set vs \<Longrightarrow> codes (bson_cmp v w) (sort_code v) (sort_code w)"
  shows "codes (array_cmp vs ws) (array_code vs) (array_code ws)"
  using assms
proof (induction vs arbitrary: ws)
  case Nil
  then show ?case by (cases ws) (auto intro!: codes_Some simp: cmp_Cons cmp_less cmp_greater)
next
  case (Cons v vs)
  show ?case
  proof (cases ws)
    case Nil
    then show ?thesis by (auto intro!: codes_Some simp: cmp_Cons cmp_less cmp_greater)
  next
    case (Cons w ws')
    have "codes (then_try (bson_cmp v w) (\<lambda>_. array_cmp vs ws')) (1 # sort_code v @ array_code vs) (1 # sort_code w @ array_code ws')"
      using Cons.prems Cons.IH by (intro codes_Cons codes_then) auto
    then show ?thesis using Cons by simp
  qed
qed

lemma rank_families:
  "type_rank v = 2 \<longleftrightarrow> canonical_number v \<noteq> None"
  "type_rank v = 6 \<longleftrightarrow> binary_parts v \<noteq> None"
  by (cases v rule: type_rank.cases; simp)+

lemma codes_leaf:
  assumes "type_rank a = type_rank b" "canonical_number a = None" "binary_parts a = None"
    and "\<And>d. a \<noteq> Document d" "\<And>vs. a \<noteq> Array vs" "\<And>c d. a \<noteq> JavaScript c (Some d)"
  shows "codes (bson_cmp a b) (sort_code a) (sort_code b)"
  using assms
  by (cases a rule: type_rank.cases; simp; cases b rule: type_rank.cases;
      simp add: bson_cmp.simps sort_code.simps)
    (auto intro!: codes_Some simp: cmp_Cons cmp_bytes_code then_with_assoc cmp_less cmp_greater)

lemma codes_number:
  assumes "type_rank a = type_rank b" "canonical_number a = Some x"
  shows "codes (bson_cmp a b) (sort_code a) (sort_code b)"
proof -
  obtain y where y: "canonical_number b = Some y" using assms rank_families(1) by (metis option.exhaust option.distinct(1))
  have "codes (Some (number_cmp x y)) (exact_code (number_exact x)) (exact_code (number_exact y))"
    using number_canonical_value [OF assms(2)] number_canonical_value [OF y]
    by (intro codes_Some) (simp add: number_cmp_exact cmp_exact_code)
  then show ?thesis using assms y by (simp add: bson_cmp.simps sort_code.simps codes_Cons)
qed

lemma codes_binary:
  assumes "type_rank a = type_rank b" "binary_parts a = Some x"
  shows "codes (bson_cmp a b) (sort_code a) (sort_code b)"
proof -
  obtain y where y: "binary_parts b = Some y" using assms rank_families(2) [of a] rank_families(2) [of b] by (cases "binary_parts b") auto
  have rank: "type_rank a = 6" using assms(2) rank_families(2) [of a] by simp
  then have none: "canonical_number a = None" "canonical_number b = None"
    using assms(1) rank_families(1) [of a] rank_families(1) [of b] by simp_all
  have "codes (Some (binary_cmp x y))
      (of_nat (encoded_len (fst x) (snd x)) # of_nat (unat (fst x)) # bytes_code (snd x))
      (of_nat (encoded_len (fst y) (snd y)) # of_nat (unat (fst y)) # bytes_code (snd y))"
    by (intro codes_Some) (simp add: cmp_Cons cmp_bytes_code binary_cmp_def then_with_assoc)
  then show ?thesis using assms y none by (simp add: bson_cmp.simps sort_code.simps codes_Cons split_def)
qed

lemma codes_rank:
  assumes "type_rank a \<noteq> type_rank b"
  shows "codes (bson_cmp a b) (sort_code a) (sort_code b)"
proof -
  have "bson_cmp a b = Some (cmp (type_rank a) (type_rank b))" using assms by (simp add: bson_cmp.simps)
  moreover obtain x y where "sort_code a = of_nat (type_rank a) # x" "sort_code b = of_nat (type_rank b) # y"
    by (simp add: sort_code.simps)
  ultimately show ?thesis using assms
    by (cases "cmp (type_rank a) (type_rank b)") (auto intro!: codes_Some simp: cmp_Cons)
qed

lemma codes_simple:
  assumes "\<And>d. a \<noteq> Document d" "\<And>vs. a \<noteq> Array vs" "\<And>c d. a \<noteq> JavaScript c (Some d)"
  shows "codes (bson_cmp a b) (sort_code a) (sort_code b)"
proof (cases "type_rank a = type_rank b")
  case True
  then show ?thesis
    using assms codes_leaf [of a b] codes_number [of a b] codes_binary [of a b]
    by (cases "canonical_number a"; cases "binary_parts a") auto
qed (rule codes_rank)

lemma rank_forms:
  "type_rank v = 4 \<Longrightarrow> \<exists>d. v = Document d"
  "type_rank v = 5 \<Longrightarrow> \<exists>vs. v = Array vs"
  "type_rank v = 13 \<Longrightarrow> \<exists>c d. v = JavaScript c (Some d)"
  by (cases v rule: type_rank.cases; simp)+

lemma codes_value: "codes (bson_cmp a b) (sort_code a) (sort_code b)"
proof (induction a arbitrary: b)
  case (Document d)
  have ih: "codes (document_cmp d e) (document_code d) (document_code e)" for e
    by (rule codes_document) (use Document in \<open>auto simp: snds.simps\<close>)
  show ?case
  proof (cases "type_rank b = 4")
    case True
    then obtain e where "b = Document e" using rank_forms by blast
    then show ?thesis by (simp add: bson_cmp.simps sort_code.simps codes_Cons ih)
  qed (simp add: codes_rank)
next
  case (Array vs)
  have ih: "codes (array_cmp vs ws) (array_code vs) (array_code ws)" for ws
    by (rule codes_array) (use Array in auto)
  show ?case
  proof (cases "type_rank b = 5")
    case True
    then obtain ws where "b = Array ws" using rank_forms by blast
    then show ?thesis by (simp add: bson_cmp.simps sort_code.simps codes_Cons ih)
  qed (simp add: codes_rank)
next
  case (JavaScript c scope)
  show ?case
  proof (cases scope)
    case None
    then show ?thesis by (intro codes_simple) simp_all
  next
    case (Some d)
    have ih: "codes (document_cmp d e) (document_code d) (document_code e)" for e
      by (rule codes_document) (use JavaScript Some in \<open>auto simp: snds.simps\<close>)
    show ?thesis
    proof (cases "type_rank b = 13")
      case True
      then obtain c' e where b: "b = JavaScript c' (Some e)" using rank_forms by blast
      show ?thesis using codes_then [OF codes_bytes, of "\<lambda>_. document_cmp d e" _ _ c c'] ih [of e]
        by (simp add: b Some bson_cmp.simps sort_code.simps codes_Cons)
    qed (simp add: Some codes_rank)
  qed
qed (rule codes_simple; simp)+

section \<open>Order, equality and hash\<close>

lemma bson_cmp_codes: "bson_cmp a b = Some (cmp (sort_code a) (sort_code b))"
proof -
  obtain ord where ord: "bson_cmp a b = Some ord"
      "\<And>r s. cmp (sort_code a @ r) (sort_code b @ s) = then_with ord (\<lambda>_. cmp r s)"
    using codes_value [of a b] by (auto simp: codes_def)
  have "cmp (sort_code a) (sort_code b) = ord" using ord(2) [of "[]" "[]"] by (cases ord) simp_all
  then show ?thesis using ord(1) by simp
qed

lemma then_try_Equal: "then_try r f = Some Equal \<longleftrightarrow> r = Some Equal \<and> f () = Some Equal"
  by (cases "(r, f)" rule: then_try.cases) auto

lemma bson_cmp_rank: "bson_cmp a b = Some Equal \<Longrightarrow> type_rank a = type_rank b"
  by (auto simp: bson_cmp.simps Let_def split: if_splits)

lemma document_eq_cmp:
  assumes "\<And>name v w. (name, v) \<in> set d \<Longrightarrow> bson_eq v w \<longleftrightarrow> bson_cmp v w = Some Equal"
  shows "document_eq d e \<longleftrightarrow> document_cmp d e = Some Equal"
  using assms
proof (induction d arbitrary: e)
  case Nil
  then show ?case by (cases e) auto
next
  case (Cons x d)
  then show ?case
  proof (cases e)
    case (Cons y e')
    obtain name v name' w where xy: "x = (name, v)" "y = (name', w)" by force
    have "bson_eq v w \<longleftrightarrow> bson_cmp v w = Some Equal" using Cons.prems xy by auto
    moreover have "document_eq d e' \<longleftrightarrow> document_cmp d e' = Some Equal" using Cons.prems Cons.IH by (meson list.set_intros(2))
    ultimately show ?thesis using bson_cmp_rank [of v w] unfolding \<open>e = _\<close> xy
      by (auto simp: then_try_Equal)
  qed auto
qed

lemma array_eq_cmp:
  assumes "\<And>v w. v \<in> set vs \<Longrightarrow> bson_eq v w \<longleftrightarrow> bson_cmp v w = Some Equal"
  shows "array_eq vs ws \<longleftrightarrow> array_cmp vs ws = Some Equal"
  using assms
proof (induction vs arbitrary: ws)
  case Nil
  then show ?case by (cases ws) auto
next
  case (Cons v vs)
  then show ?case by (cases ws) (auto simp: then_try_Equal)
qed

lemma bson_eq_simple:
  assumes "\<And>d. a \<noteq> Document d" "\<And>vs. a \<noteq> Array vs" "\<And>c d. a \<noteq> JavaScript c (Some d)"
  shows "bson_eq a b \<longleftrightarrow> bson_cmp a b = Some Equal"
proof (cases "canonical_number a")
  case (Some x)
  show ?thesis
  proof (cases "canonical_number b")
    case None
    then have "type_rank a \<noteq> type_rank b" using Some rank_families(1) [of a] rank_families(1) [of b] by simp
    moreover have "\<not> bson_eq a b" using Some None by (cases a; simp add: bson_eq.simps)
    ultimately show ?thesis using bson_cmp_rank [of a b] by blast
  next
    case (Some y)
    have "x = y \<longleftrightarrow> number_cmp x y = Equal"
      using number_canonical_value \<open>canonical_number a = Some x\<close> Some number_cmp_exact [of x y] number_eq_iff [of x y]
      by (cases "number_exact x"; cases "number_exact y") auto
    moreover have "type_rank a = type_rank b"
      using \<open>canonical_number a = Some x\<close> Some rank_families(1) [of a] rank_families(1) [of b] by simp
    ultimately show ?thesis using \<open>canonical_number a = Some x\<close> Some by (simp add: bson_eq.simps bson_cmp.simps)
  qed
next
  case None
  then show ?thesis using assms
    by (cases a rule: type_rank.cases; simp; cases b rule: type_rank.cases;
        simp add: bson_cmp.simps bson_eq.simps binary_cmp_def encoded_len_def prod_eq_iff;
        auto intro: signed_word_eqI)
qed

lemma bson_eq_cmp: "bson_eq a b \<longleftrightarrow> bson_cmp a b = Some Equal"
proof (induction a arbitrary: b)
  case (Document d)
  have ih: "document_eq d e \<longleftrightarrow> document_cmp d e = Some Equal" for e
    by (rule document_eq_cmp) (use Document in \<open>auto simp: snds.simps\<close>)
  show ?case by (cases b rule: type_rank.cases) (simp_all add: bson_cmp.simps bson_eq.simps ih)
next
  case (Array vs)
  have ih: "array_eq vs ws \<longleftrightarrow> array_cmp vs ws = Some Equal" for ws
    by (rule array_eq_cmp) (use Array in auto)
  show ?case by (cases b rule: type_rank.cases) (simp_all add: bson_cmp.simps bson_eq.simps ih)
next
  case (JavaScript c scope)
  show ?case
  proof (cases scope)
    case None
    then show ?thesis by (intro bson_eq_simple) simp_all
  next
    case (Some d)
    have ih: "document_eq d e \<longleftrightarrow> document_cmp d e = Some Equal" for e
      by (rule document_eq_cmp) (use JavaScript Some in \<open>auto simp: snds.simps\<close>)
    show ?thesis
      by (cases b rule: type_rank.cases)
        (simp_all add: Some bson_cmp.simps bson_eq.simps ih then_try_Equal)
  qed
qed (rule bson_eq_simple; simp)+

lemma bson_eq_codes: "bson_eq a b \<longleftrightarrow> sort_code a = sort_code b"
  by (simp add: bson_eq_cmp bson_cmp_codes)

lemma document_hash:
  assumes "\<And>name v w. (name, v) \<in> set d \<Longrightarrow> bson_eq v w \<Longrightarrow> hash_writes v = hash_writes w"
  shows "document_eq d e \<Longrightarrow> length d = length e \<and> entries_hash d = entries_hash e"
  using assms
proof (induction d e rule: list_induct2')
  case (4 x d y e)
  obtain name v name' w where "x = (name, v)" "y = (name', w)" by force
  then show ?case using 4 by fastforce
qed auto

lemma array_hash_eq:
  assumes "\<And>v w. v \<in> set vs \<Longrightarrow> bson_eq v w \<Longrightarrow> hash_writes v = hash_writes w"
  shows "array_eq vs ws \<Longrightarrow> length vs = length ws \<and> array_hash vs = array_hash ws"
  using assms by (induction vs ws rule: list_induct2') fastforce+

lemma bson_eq_forms:
  "bson_eq (Document d) b \<Longrightarrow> \<exists>e. b = Document e \<and> document_eq d e"
  "bson_eq (Array vs) b \<Longrightarrow> \<exists>ws. b = Array ws \<and> array_eq vs ws"
  "bson_eq (JavaScript c (Some d)) b \<Longrightarrow> \<exists>e. b = JavaScript c (Some e) \<and> document_eq d e"
  by (cases b rule: type_rank.cases; simp add: bson_eq.simps)+

lemma hash_simple:
  assumes "\<And>d. a \<noteq> Document d" "\<And>vs. a \<noteq> Array vs" "\<And>c d. a \<noteq> JavaScript c (Some d)"
    and "bson_eq a b"
  shows "hash_writes a = hash_writes b"
proof (cases "canonical_number a")
  case (Some x)
  then have "canonical_number b = Some x" using assms(4) by (cases a; cases b) (auto simp: bson_eq.simps)
  then show ?thesis using Some by (simp add: hash_writes.simps)
next
  case None
  then show ?thesis using assms
    by (cases a rule: type_rank.cases; simp; cases b rule: type_rank.cases;
        simp add: bson_eq.simps hash_writes.simps)
qed

lemma bson_hash: "bson_eq a b \<Longrightarrow> hash_writes a = hash_writes b"
proof (induction a arbitrary: b)
  case (Document d)
  obtain e where e: "b = Document e" "document_eq d e" using bson_eq_forms(1) [OF Document.prems] by blast
  have "length d = length e \<and> entries_hash d = entries_hash e"
    by (rule document_hash [OF _ e(2)]) (use Document.IH in \<open>auto simp: snds.simps\<close>)
  then show ?case using e by (simp add: hash_writes.simps)
next
  case (Array vs)
  obtain ws where ws: "b = Array ws" "array_eq vs ws" using bson_eq_forms(2) [OF Array.prems] by blast
  have "length vs = length ws \<and> array_hash vs = array_hash ws"
    by (rule array_hash_eq [OF _ ws(2)]) (use Array.IH in auto)
  then show ?case using ws by (simp add: hash_writes.simps)
next
  case (JavaScript c scope)
  show ?case
  proof (cases scope)
    case None
    then show ?thesis using JavaScript.prems by (intro hash_simple) simp_all
  next
    case (Some d)
    then obtain e where e: "b = JavaScript c (Some e)" "document_eq d e"
      using bson_eq_forms(3) JavaScript.prems by blast
    have "length d = length e \<and> entries_hash d = entries_hash e"
      by (rule document_hash [OF _ e(2)]) (use JavaScript.IH Some in \<open>auto simp: snds.simps\<close>)
    then show ?thesis using e Some by (simp add: hash_writes.simps)
  qed
qed (rule hash_simple; simp)+

section \<open>Equality of representations\<close>

lemma document_representation:
  assumes "\<And>name v w. (name, v) \<in> set d \<Longrightarrow> representation_eq v w \<longleftrightarrow> v = w"
  shows "document_representation_eq d e \<longleftrightarrow> d = e"
  using assms
proof (induction d e rule: list_induct2')
  case (4 x d y e)
  obtain name v name' w where "x = (name, v)" "y = (name', w)" by force
  then show ?case using 4 by fastforce
qed auto

lemma array_representation:
  assumes "\<And>v w. v \<in> set vs \<Longrightarrow> representation_eq v w \<longleftrightarrow> v = w"
  shows "array_representation_eq vs ws \<longleftrightarrow> vs = ws"
  using assms by (induction vs ws rule: list_induct2') fastforce+

lemma representation_identity: "representation_eq a b \<longleftrightarrow> a = b"
proof (induction a arbitrary: b)
  case (Document d)
  have "document_representation_eq d e \<longleftrightarrow> d = e" for e
    by (rule document_representation) (use Document in \<open>auto simp: snds.simps\<close>)
  then show ?case by (cases b) (simp_all add: representation_eq.simps)
next
  case (Array vs)
  have "array_representation_eq vs ws \<longleftrightarrow> vs = ws" for ws
    by (rule array_representation) (use Array in auto)
  then show ?case by (cases b) (simp_all add: representation_eq.simps)
next
  case (JavaScript c scope)
  have "document_representation_eq d e \<longleftrightarrow> d = e" if "scope = Some d" for d e
    by (rule document_representation) (use JavaScript that in \<open>auto simp: snds.simps\<close>)
  then show ?case by (cases b) (auto simp: representation_eq.simps split: option.splits)
qed (case_tac b; simp add: representation_eq.simps)+

section \<open>What the comparison promises\<close>

text \<open>C33: Comparing any two BSON values returns (the branch the source marks unreachable is never
  taken), and the comparison is a linear order: swapping the arguments reverses it, it is
  transitive, it is equal exactly on semantically equal values, and equal values compare alike with
  every third value.
\<close>

theorem bson_order_total:
  "(\<exists>ord. bson_cmp a b = Some ord \<and> bson_cmp b a = Some (reverse ord))
    \<and> (bson_cmp a b = Some Equal \<longleftrightarrow> bson_eq a b)
    \<and> (bson_cmp a b = Some Less \<and> bson_cmp b c = Some Less \<longrightarrow> bson_cmp a c = Some Less)
    \<and> (bson_eq a b \<longrightarrow> bson_cmp a c = bson_cmp b c)"
  by (auto simp: bson_cmp_codes bson_eq_codes reverse_cmp intro: order.strict_trans)

theorem bson_order_total_witness:
  "bson_cmp (Int32 1) (Array [Null]) = Some Less
    \<and> bson_eq (Int32 1) (Int64 1) \<and> bson_cmp (Int32 1) (String []) = bson_cmp (Int64 1) (String [])"
proof -
  have "bson_cmp (Int32 1) (String []) = Some Less" "bson_cmp (String []) (Array [Null]) = Some Less"
    by (simp_all add: bson_cmp.simps)
  moreover have "bson_eq (Int32 1) (Int64 1)"
    by (simp add: bson_eq.simps from_i32_def from_i64_def)
  ultimately show ?thesis
    using bson_order_total [of "Int32 1" "String []" "Array [Null]"]
      bson_order_total [of "Int32 1" "Int64 1" "String []"] by simp
qed

text \<open>The exact number a numeric value stands for.\<close>

fun exact_number :: "BsonValue \<Rightarrow> exact option" where
  "exact_number (Double v) = Some (f64_exact v)"
| "exact_number (Int32 v) = Some (int_exact (sint v))"
| "exact_number (Int64 v) = Some (int_exact (sint v))"
| "exact_number (Decimal128 bid) = (if length bid = 16 then Some (decimal_exact bid) else None)"
| "exact_number _ = None"

lemma exact_number_canonical:
  assumes "exact_number v = Some x"
  shows "\<exists>n. canonical_number v = Some n \<and> number_canonical n \<and> number_exact n = x"
  using assms from_f64_exact from_int_exact from_decimal_exact
  by (cases v rule: exact_number.cases) (auto split: if_splits)

text \<open>C34: Numbers of any two of the four families, 32-bit and 64-bit integers, doubles and 128-bit
  decimals, are compared by the exact rational numbers they stand for, with NaN below everything
  and equal to itself, and the infinities at the ends; they are equal exactly when those numbers
  are, and equal numbers hash alike.
\<close>

theorem bson_numbers_exact:
  assumes "exact_number a = Some x" "exact_number b = Some y"
  shows "bson_cmp a b = Some (exact_cmp x y)
    \<and> (bson_eq a b \<longleftrightarrow> x = y)
    \<and> (hash_writes a = hash_writes b \<longleftrightarrow> x = y)"
proof -
  obtain m n where m: "canonical_number a = Some m" "number_canonical m" "number_exact m = x"
    and n: "canonical_number b = Some n" "number_canonical n" "number_exact n = y"
    using assms exact_number_canonical by blast
  have "type_rank a = type_rank b" using m(1) n(1) rank_families(1) [of a] rank_families(1) [of b] by simp
  then show ?thesis
    using m n number_cmp_exact [of m n] number_eq_iff [of m n]
    by (simp add: bson_cmp.simps bson_eq.simps hash_writes.simps)
qed

theorem bson_numbers_exact_witness:
  "bson_cmp (Int32 7) (Int64 (- 3)) = Some Greater \<and> \<not> bson_eq (Int32 7) (Int64 (- 3))"
  using bson_numbers_exact [of "Int32 7" _ "Int64 (- 3)"] by (simp add: int_exact_def cmp_greater)

text \<open>C35: The three equalities of BSON values fit together.  Equality of representations is identity of
  the stored value; semantic equality is an equivalence coarser than it; and semantically equal
  values feed the same sequence of writes to a hasher, so a hash table may hold either.
\<close>

theorem bson_equality_contract:
  "(representation_eq a b \<longleftrightarrow> a = b)
    \<and> bson_eq a a \<and> (bson_eq a b \<longleftrightarrow> bson_eq b a) \<and> (bson_eq a b \<and> bson_eq b c \<longrightarrow> bson_eq a c)
    \<and> (bson_eq a b \<longrightarrow> hash_writes a = hash_writes b)"
  using representation_identity [of a b] bson_hash [of a b] by (auto simp: bson_eq_codes)

theorem bson_equality_contract_witness:
  "hash_writes (Document [([97], Int32 1)]) = hash_writes (Document [([97], Int64 1)])
    \<and> \<not> representation_eq (Document [([97], Int32 1)]) (Document [([97], Int64 1)])"
proof -
  have "bson_eq (Document [([97], Int32 1)]) (Document [([97], Int64 1)])"
    by (simp add: bson_eq.simps from_i32_def from_i64_def)
  then show ?thesis
    using bson_equality_contract [of "Document [([97], Int32 1)]" "Document [([97], Int64 1)]"] by simp
qed

end
