(* ===== verification/Bson_Key.thy ===== *)
theory Bson_Key
  imports Bson_Order
begin

text \<open>
  Canonical identity keys of BSON values, \<^verbatim>\<open>document/key.rs\<close>: the encoder, with its nesting and size
  limits, and the validator of stored keys.  Keys are equal exactly when the values are semantically
  equal, and the validator accepts every key the encoder makes.  Allocation is taken to succeed.
\<close>

section \<open>Constants and failures\<close>

text \<open>The type, number and sign tags are written as their values below.\<close>

definition BSON_KEY_ENCODING_VERSION :: nat where "BSON_KEY_ENCODING_VERSION = 1"
definition BSON_MAX_CANONICAL_KEY_BYTES :: nat where "BSON_MAX_CANONICAL_KEY_BYTES = 16 * 1024 * 1024"
definition KEY_MAGIC :: bytes where "KEY_MAGIC = [0x42, 0x42, 0x4B, 0x59]"
definition KEY_HEADER_LEN :: nat where "KEY_HEADER_LEN = length KEY_MAGIC + 4"
definition MAX_KEY_NESTING_DEPTH :: nat where "MAX_KEY_NESTING_DEPTH = 100"
definition MAX_CANONICAL_COEFFICIENT_BYTES :: nat where "MAX_CANONICAL_COEFFICIENT_BYTES = 15"

text \<open>A \<open>BsonError\<close> or the panic of an \<open>unreachable!\<close> or an \<open>expect\<close>.\<close>

datatype KeyFailure = KeyError BsonErrorKind | KeyPanic

section \<open>Encoding\<close>

definition ensure_key_growth :: "bytes \<Rightarrow> nat \<Rightarrow> KeyFailure + unit" where
  "ensure_key_growth output additional =
    check_that (length output + additional \<le> BSON_MAX_CANONICAL_KEY_BYTES) (KeyError Oversized)"

definition extend_key_bytes :: "bytes \<Rightarrow> bytes \<Rightarrow> KeyFailure + bytes" where
  "extend_key_bytes output value =
    and_then (ensure_key_growth output (length value)) (\<lambda>_. Inr (output @ value))"

definition push_key_byte :: "bytes \<Rightarrow> byte \<Rightarrow> KeyFailure + bytes" where
  "push_key_byte output value = and_then (ensure_key_growth output 1) (\<lambda>_. Inr (output @ [value]))"

definition push_len :: "bytes \<Rightarrow> nat \<Rightarrow> KeyFailure + bytes" where
  "push_len output n = (if n < 2 ^ 32 then extend_key_bytes output (be_bytes 4 n) else Inl (KeyError Oversized))"

definition push_bytes :: "bytes \<Rightarrow> bytes \<Rightarrow> KeyFailure + bytes" where
  "push_bytes output value = and_then (push_len output (length value)) (\<lambda>out. extend_key_bytes out value)"

definition push_string :: "bytes \<Rightarrow> bytes \<Rightarrow> KeyFailure + bytes" where
  "push_string output value = push_bytes output value"

definition ensure_key_depth :: "nat \<Rightarrow> KeyFailure + unit" where
  "ensure_key_depth depth = check_that (depth \<le> MAX_KEY_NESTING_DEPTH) (KeyError NestingLimit)"

text \<open>The two's complement of a 16-bit exponent, big endian.\<close>

definition i16_be_bytes :: "int \<Rightarrow> bytes" where
  "i16_be_bytes e = be_bytes 2 (nat (e mod 2 ^ 16))"

fun position :: "('a \<Rightarrow> bool) \<Rightarrow> 'a list \<Rightarrow> nat option" where
  "position p [] = None"
| "position p (x # xs) = (if p x then Some 0 else map_option Suc (position p xs))"

definition encode_finite :: "bytes \<Rightarrow> CanonicalFinite \<Rightarrow> KeyFailure + bytes" where
  "encode_finite output value =
    (let c = coefficient value in
     and_then (push_key_byte output (if c = 0 then 0 else if is_negative value then 2 else 1)) (\<lambda>out.
     and_then
       (if c = 0 then push_bytes out []
        else let bs = be_bytes 16 c in
          case position (\<lambda>b. b \<noteq> 0) bs of
            None \<Rightarrow> Inl KeyPanic
          | Some first_nonzero \<Rightarrow> push_bytes out (drop first_nonzero bs)) (\<lambda>out.
     and_then (extend_key_bytes out (i16_be_bytes (exponent_two value))) (\<lambda>out.
     extend_key_bytes out (i16_be_bytes (exponent_five value))))))"

fun encode_number :: "bytes \<Rightarrow> CanonicalNumber \<Rightarrow> KeyFailure + bytes" where
  "encode_number output NaN = push_key_byte output 0"
| "encode_number output NegativeInfinity = push_key_byte output 1"
| "encode_number output PositiveInfinity = push_key_byte output 3"
| "encode_number output (Finite value) =
    and_then (push_key_byte output 2) (\<lambda>out. encode_finite out value)"

fun encode_value :: "bytes \<Rightarrow> BsonValue \<Rightarrow> nat \<Rightarrow> KeyFailure + bytes"
  and encode_entries :: "bytes \<Rightarrow> BsonDocument \<Rightarrow> nat \<Rightarrow> KeyFailure + bytes"
  and encode_items :: "bytes \<Rightarrow> BsonValue list \<Rightarrow> nat \<Rightarrow> KeyFailure + bytes" where
  "encode_value output v depth =
    and_then (ensure_key_depth depth) (\<lambda>_.
    case canonical_number v of
      Some n \<Rightarrow> and_then (push_key_byte output 2) (\<lambda>out. encode_number out n)
    | None \<Rightarrow>
    case binary_parts v of
      Some (subtype, bs) \<Rightarrow>
        and_then (push_key_byte output 6) (\<lambda>out.
        and_then (push_key_byte out subtype) (\<lambda>out. push_bytes out bs))
    | None \<Rightarrow>
    case v of
      MinKey \<Rightarrow> push_key_byte output 0
    | Null \<Rightarrow> push_key_byte output 1
    | String s \<Rightarrow> and_then (push_key_byte output 3) (\<lambda>out. push_string out s)
    | Document d \<Rightarrow>
        and_then (push_key_byte output 4) (\<lambda>out.
        and_then (ensure_key_depth (depth + 1)) (\<lambda>_.
        and_then (push_len out (length d)) (\<lambda>out. encode_entries out d (depth + 1))))
    | Array vs \<Rightarrow>
        and_then (ensure_key_depth (depth + 1)) (\<lambda>_.
        and_then (push_key_byte output 5) (\<lambda>out.
        and_then (push_len out (length vs)) (\<lambda>out. encode_items out vs (depth + 1))))
    | ObjectId bs \<Rightarrow> and_then (push_key_byte output 7) (\<lambda>out. extend_key_bytes out bs)
    | Boolean b \<Rightarrow> and_then (push_key_byte output 8) (\<lambda>out. push_key_byte out (if b then 1 else 0))
    | DateTime t \<Rightarrow> and_then (push_key_byte output 9) (\<lambda>out. extend_key_bytes out (be_bytes 8 (unat t)))
    | Timestamp t i \<Rightarrow>
        and_then (push_key_byte output 10) (\<lambda>out.
        and_then (extend_key_bytes out (be_bytes 4 (unat t))) (\<lambda>out.
        extend_key_bytes out (be_bytes 4 (unat i))))
    | RegularExpression p opts \<Rightarrow>
        and_then (push_key_byte output 11) (\<lambda>out.
        and_then (push_string out p) (\<lambda>out. push_string out opts))
    | JavaScript c scope \<Rightarrow>
        (case scope of
           Some d \<Rightarrow>
             and_then (push_key_byte output 13) (\<lambda>out.
             and_then (push_string out c) (\<lambda>out.
             and_then (ensure_key_depth (depth + 1)) (\<lambda>_.
             and_then (push_len out (length d)) (\<lambda>out. encode_entries out d (depth + 1)))))
         | None \<Rightarrow> and_then (push_key_byte output 12) (\<lambda>out. push_string out c))
    | MaxKey \<Rightarrow> push_key_byte output 14
    | _ \<Rightarrow> Inl KeyPanic)"
| "encode_entries output [] depth = Inr output"
| "encode_entries output ((name, v) # rest) depth =
    and_then (push_string output name) (\<lambda>out.
    and_then (encode_value out v depth) (\<lambda>out. encode_entries out rest depth))"
| "encode_items output [] depth = Inr output"
| "encode_items output (v # rest) depth =
    and_then (encode_value output v depth) (\<lambda>out. encode_items out rest depth)"

declare encode_value.simps [simp del]

text \<open>\<open>encode_document\<close> is inlined above, where the recursion needs it; this is the function itself.\<close>

definition encode_document :: "bytes \<Rightarrow> BsonDocument \<Rightarrow> nat \<Rightarrow> KeyFailure + bytes" where
  "encode_document output document depth =
    and_then (ensure_key_depth depth) (\<lambda>_.
    and_then (push_len output (length document)) (\<lambda>out. encode_entries out document depth))"

definition key_encode :: "BsonValue \<Rightarrow> KeyFailure + bytes" where
  "key_encode v =
    and_then (extend_key_bytes [] KEY_MAGIC) (\<lambda>out.
    and_then (extend_key_bytes out (be_bytes 4 BSON_KEY_ENCODING_VERSION)) (\<lambda>out.
    encode_value out v 0))"

section \<open>Validation\<close>

text \<open>A cursor is the bytes not read yet; a reader returns what it read and the rest.\<close>

type_synonym cursor = bytes

definition key_take :: "cursor \<Rightarrow> nat \<Rightarrow> BsonErrorKind + bytes \<times> cursor" where
  "key_take c n = (if n \<le> length c then Inr (take n c, drop n c) else Inl InvalidCanonicalKey)"

definition key_read_u8 :: "cursor \<Rightarrow> BsonErrorKind + byte \<times> cursor" where
  "key_read_u8 c = and_then (key_take c 1) (\<lambda>(bs, c). Inr (bs ! 0, c))"

definition key_read_u32 :: "cursor \<Rightarrow> BsonErrorKind + nat \<times> cursor" where
  "key_read_u32 c = and_then (key_take c 4) (\<lambda>(bs, c). Inr (be_nat bs, c))"

definition key_read_i16 :: "cursor \<Rightarrow> BsonErrorKind + int \<times> cursor" where
  "key_read_i16 c =
    and_then (key_take c 2) (\<lambda>(bs, c). Inr (sint (word_of_nat (be_nat bs) :: 16 word), c))"

definition key_read_bytes :: "cursor \<Rightarrow> BsonErrorKind + bytes \<times> cursor" where
  "key_read_bytes c = and_then (key_read_u32 c) (\<lambda>(n, c). key_take c n)"

definition key_read_string :: "cursor \<Rightarrow> BsonErrorKind + bytes \<times> cursor" where
  "key_read_string c =
    and_then (key_read_bytes c) (\<lambda>(bs, c). if utf8_valid bs then Inr (bs, c) else Inl InvalidCanonicalKey)"

definition validate_magnitude :: "bytes \<Rightarrow> BsonErrorKind + unit" where
  "validate_magnitude bs = check_that (bs = [] \<or> hd bs \<noteq> 0) InvalidCanonicalKey"

text \<open>The fold over at most 15 bytes stays below \<open>2 ^ 120\<close>.\<close>

definition validate_number :: "cursor \<Rightarrow> BsonErrorKind + cursor" where
  "validate_number c =
    and_then (key_read_u8 c) (\<lambda>(tag, c).
    if tag = 0 \<or> tag = 1 \<or> tag = 3 then Inr c
    else if tag = 2 then
      and_then (key_read_u8 c) (\<lambda>(sign, c).
      and_then (key_read_bytes c) (\<lambda>(coefficient_bytes, c).
      and_then (validate_magnitude coefficient_bytes) (\<lambda>_.
      and_then (check_that (length coefficient_bytes \<le> MAX_CANONICAL_COEFFICIENT_BYTES) InvalidCanonicalKey) (\<lambda>_.
      let coefficient = foldl (\<lambda>value b. value * 256 + unat b) 0 coefficient_bytes in
      and_then (key_read_i16 c) (\<lambda>(exponent_two, c).
      and_then (key_read_i16 c) (\<lambda>(exponent_five, c).
      if sign = 0 \<and> coefficient_bytes = [] \<and> exponent_two = 0 \<and> exponent_five = 0 then Inr c
      else if (sign = 1 \<or> sign = 2) \<and> coefficient_bytes \<noteq> [] then
        (if coefficient > MAX_DECIMAL128_COEFFICIENT then Inl InvalidCanonicalKey
         else if coefficient mod 2 = 0 \<or> coefficient mod 5 = 0 then Inl InvalidCanonicalKey
         else if \<not> (MIN_CANONICAL_EXPONENT_TWO \<le> exponent_two \<and> exponent_two \<le> MAX_CANONICAL_EXPONENT_TWO)
           \<or> \<not> (MIN_CANONICAL_EXPONENT_FIVE \<le> exponent_five \<and> exponent_five \<le> MAX_CANONICAL_EXPONENT_FIVE)
         then Inl InvalidCanonicalKey
         else Inr c)
      else Inl InvalidCanonicalKey))))))
    else Inl InvalidCanonicalKey)"

definition validate_key_depth :: "nat \<Rightarrow> BsonErrorKind + unit" where
  "validate_key_depth depth = check_that (depth \<le> MAX_KEY_NESTING_DEPTH) InvalidCanonicalKey"

lemma validate_key_depth_ok [simp]: "depth \<le> MAX_KEY_NESTING_DEPTH \<Longrightarrow> validate_key_depth depth = Inr ()"
  by (simp add: validate_key_depth_def)

definition validate_regex :: "cursor \<Rightarrow> BsonErrorKind + cursor" where
  "validate_regex c =
    and_then (key_read_string c) (\<lambda>(p, c).
    and_then (key_read_string c) (\<lambda>(opts, c).
    case regex_new p opts of
      Inl _ \<Rightarrow> Inl InvalidCanonicalKey
    | Inr (_, canonical_opts) \<Rightarrow> if canonical_opts \<noteq> opts then Inl InvalidCanonicalKey else Inr c))"

text \<open>The loops count down; nesting is bounded by the depth, so validation ends.\<close>

function validate_value :: "cursor \<Rightarrow> nat \<Rightarrow> BsonErrorKind + cursor"
  and validate_document :: "cursor \<Rightarrow> nat \<Rightarrow> BsonErrorKind + cursor"
  and validate_entries :: "nat \<Rightarrow> cursor \<Rightarrow> nat \<Rightarrow> BsonErrorKind + cursor"
  and validate_values :: "nat \<Rightarrow> cursor \<Rightarrow> nat \<Rightarrow> BsonErrorKind + cursor" where
  "validate_value c depth =
    and_then (validate_key_depth depth) (\<lambda>_.
     and_then (key_read_u8 c) (\<lambda>(tag, c).
     if tag = 0 \<or> tag = 1 \<or> tag = 14 then Inr c
     else if tag = 2 then validate_number c
     else if tag = 3 then and_then (key_read_string c) (\<lambda>(_, c). Inr c)
     else if tag = 4 then validate_document c (depth + 1)
     else if tag = 5 then
       and_then (validate_key_depth (depth + 1)) (\<lambda>_.
        and_then (key_read_u32 c) (\<lambda>(count, c). validate_values count c (depth + 1)))
     else if tag = 6 then
       and_then (key_read_u8 c) (\<lambda>(_, c). and_then (key_read_bytes c) (\<lambda>(_, c). Inr c))
     else if tag = 7 then and_then (key_take c 12) (\<lambda>(_, c). Inr c)
     else if tag = 8 then
       and_then (key_read_u8 c) (\<lambda>(b, c). if b > 1 then Inl InvalidCanonicalKey else Inr c)
     else if tag = 9 then and_then (key_take c 8) (\<lambda>(_, c). Inr c)
     else if tag = 10 then and_then (key_take c 8) (\<lambda>(_, c). Inr c)
     else if tag = 11 then validate_regex c
     else if tag = 12 then and_then (key_read_string c) (\<lambda>(_, c). Inr c)
     else if tag = 13 then
       and_then (key_read_string c) (\<lambda>(_, c). validate_document c (depth + 1))
     else Inl InvalidCanonicalKey))"
| "validate_document c depth =
    and_then (validate_key_depth depth) (\<lambda>_.
     and_then (key_read_u32 c) (\<lambda>(count, c). validate_entries count c depth))"
| "validate_entries 0 c depth = Inr c"
| "validate_entries (Suc n) c depth =
    and_then (key_read_string c) (\<lambda>(name, c).
    if 0 \<in> set name then Inl InvalidCanonicalKey
    else and_then (validate_value c depth) (\<lambda>c. validate_entries n c depth))"
| "validate_values 0 c depth = Inr c"
| "validate_values (Suc n) c depth =
    and_then (validate_value c depth) (\<lambda>c. validate_values n c depth)"
  by pat_completeness auto
termination
  by (relation "measures [case_sum (case_sum (\<lambda>(c, d). 3 * (102 - d)) (\<lambda>(c, d). 3 * (102 - d) + 2))
      (case_sum (\<lambda>(n, c, d). 3 * (102 - d) + 1) (\<lambda>(n, c, d). 3 * (102 - d) + 1)),
      case_sum (\<lambda>_. 0) (case_sum (\<lambda>(n, c, d). n) (\<lambda>(n, c, d). n))]")
    (auto simp: validate_key_depth_def MAX_KEY_NESTING_DEPTH_def)

declare validate_value.simps [simp del] validate_document.simps [simp del]

definition key_from_bytes :: "bytes \<Rightarrow> BsonErrorKind + bytes" where
  "key_from_bytes bs =
    (if length bs > BSON_MAX_CANONICAL_KEY_BYTES then Inl Oversized
     else if length bs < KEY_HEADER_LEN then Inl InvalidCanonicalKey
     else if take (length KEY_MAGIC) bs \<noteq> KEY_MAGIC then Inl InvalidCanonicalKey
     else if be_nat (take 4 (drop (length KEY_MAGIC) bs)) \<noteq> BSON_KEY_ENCODING_VERSION then Inl InvalidCanonicalKey
     else
       and_then (validate_value (drop KEY_HEADER_LEN bs) 0) (\<lambda>c.
       if c \<noteq> [] then Inl InvalidCanonicalKey else Inr bs))"

section \<open>What the encoder writes\<close>

definition block_code :: "bytes \<Rightarrow> bytes" where
  "block_code bs = be_bytes 4 (length bs) @ bs"

definition magnitude_code :: "nat \<Rightarrow> bytes" where
  "magnitude_code c = (if c = 0 then [] else dropWhile (\<lambda>b. b = 0) (be_bytes 16 c))"

definition finite_code :: "CanonicalFinite \<Rightarrow> bytes" where
  "finite_code f =
    (if coefficient f = 0 then 0 else if is_negative f then 2 else 1) #
    block_code (magnitude_code (coefficient f)) @ i16_be_bytes (exponent_two f) @ i16_be_bytes (exponent_five f)"

fun number_code :: "CanonicalNumber \<Rightarrow> bytes" where
  "number_code NaN = [0]"
| "number_code NegativeInfinity = [1]"
| "number_code PositiveInfinity = [3]"
| "number_code (Finite f) = 2 # finite_code f"

fun key_code :: "BsonValue \<Rightarrow> bytes"
  and entries_code :: "BsonDocument \<Rightarrow> bytes"
  and values_code :: "BsonValue list \<Rightarrow> bytes" where
  "key_code v =
    (case canonical_number v of
       Some n \<Rightarrow> 2 # number_code n
     | None \<Rightarrow>
     case binary_parts v of
       Some (subtype, bs) \<Rightarrow> 6 # subtype # block_code bs
     | None \<Rightarrow>
     case v of
       MinKey \<Rightarrow> [0]
     | Null \<Rightarrow> [1]
     | String s \<Rightarrow> 3 # block_code s
     | Document d \<Rightarrow> 4 # be_bytes 4 (length d) @ entries_code d
     | Array vs \<Rightarrow> 5 # be_bytes 4 (length vs) @ values_code vs
     | ObjectId bs \<Rightarrow> 7 # bs
     | Boolean b \<Rightarrow> [8, if b then 1 else 0]
     | DateTime t \<Rightarrow> 9 # be_bytes 8 (unat t)
     | Timestamp t i \<Rightarrow> 10 # be_bytes 4 (unat t) @ be_bytes 4 (unat i)
     | RegularExpression p opts \<Rightarrow> 11 # block_code p @ block_code opts
     | JavaScript c scope \<Rightarrow>
         (case scope of
            Some d \<Rightarrow> 13 # block_code c @ be_bytes 4 (length d) @ entries_code d
          | None \<Rightarrow> 12 # block_code c)
     | _ \<Rightarrow> [14])"
| "entries_code [] = []"
| "entries_code ((name, v) # rest) = block_code name @ key_code v @ entries_code rest"
| "values_code [] = []"
| "values_code (v # rest) = key_code v @ values_code rest"

declare key_code.simps [simp del]

text \<open>How deep a value nests below its own depth.\<close>

fun nesting :: "BsonValue \<Rightarrow> nat"
  and entries_nesting :: "BsonDocument \<Rightarrow> nat"
  and values_nesting :: "BsonValue list \<Rightarrow> nat" where
  "nesting (Document d) = Suc (entries_nesting d)"
| "nesting (Array vs) = Suc (values_nesting vs)"
| "nesting (JavaScript c (Some d)) = Suc (entries_nesting d)"
| "nesting _ = 0"
| "entries_nesting [] = 0"
| "entries_nesting ((_, v) # rest) = max (nesting v) (entries_nesting rest)"
| "values_nesting [] = 0"
| "values_nesting (v # rest) = max (nesting v) (values_nesting rest)"

text \<open>
  \<open>emits out deep code r\<close>: a step that starts with an \<open>out\<close> within the limit appends \<open>code\<close>, or fails with the limit
  that it exceeds; it never panics.
\<close>

definition emits :: "bytes \<Rightarrow> bool \<Rightarrow> bytes \<Rightarrow> KeyFailure + bytes \<Rightarrow> bool" where
  "emits out deep code r \<longleftrightarrow> length out \<le> BSON_MAX_CANONICAL_KEY_BYTES \<longrightarrow>
    (if \<not> deep \<and> length out + length code \<le> BSON_MAX_CANONICAL_KEY_BYTES then r = Inr (out @ code)
     else deep \<and> r = Inl (KeyError NestingLimit)
       \<or> length out + length code > BSON_MAX_CANONICAL_KEY_BYTES \<and> r = Inl (KeyError Oversized))"

lemma emits_then:
  assumes r: "emits out p c r" and f: "\<And>x. emits x q d (f x)"
  shows "emits out (p \<or> q) (c @ d) (and_then r f)"
proof (cases "\<not> p \<and> length out + length c \<le> BSON_MAX_CANONICAL_KEY_BYTES")
  case True
  then have "r = Inr (out @ c)" using r by (simp add: emits_def)
  then show ?thesis using True f [of "out @ c"] by (auto simp: emits_def add.assoc)
next
  case False
  then show ?thesis using r by (auto simp: emits_def split: if_splits)
qed

lemma emits_extend: "emits out False bs (extend_key_bytes out bs)"
  by (auto simp: emits_def extend_key_bytes_def ensure_key_growth_def check_that_def)

lemma emits_byte: "emits out False [b] (push_key_byte out b)"
  by (auto simp: emits_def push_key_byte_def ensure_key_growth_def check_that_def)

lemma emits_len: "n < 2 ^ 32 \<Longrightarrow> emits out False (be_bytes 4 n) (push_len out n)"
  by (simp add: push_len_def emits_extend)

text \<open>A length that needs more than 32 bits exceeds the limit when what follows is that long.\<close>

lemma emits_counted:
  assumes "\<And>x. emits x q c (f x)" "n \<le> length c"
  shows "emits out q (be_bytes 4 n @ c) (and_then (push_len out n) f)"
proof (cases "n < 2 ^ 32")
  case True
  then show ?thesis using emits_then [OF emits_len assms(1)] by simp
next
  case False
  then have "BSON_MAX_CANONICAL_KEY_BYTES < length out + length (be_bytes 4 n @ c)"
    using assms(2) by (simp add: BSON_MAX_CANONICAL_KEY_BYTES_def)
  then show ?thesis using False by (auto simp: emits_def push_len_def)
qed

lemma emits_bytes: "emits out False (block_code bs) (push_bytes out bs)"
  unfolding block_code_def push_bytes_def by (rule emits_counted) (rule emits_extend, simp)

lemma emits_string: "emits out False (block_code bs) (push_string out bs)"
  by (simp add: push_string_def emits_bytes)

lemma emits_check:
  assumes "\<not> deep \<Longrightarrow> emits out q c r"
  shows "emits out (deep \<or> q) c (and_then (check_that (\<not> deep) (KeyError NestingLimit)) (\<lambda>_. r))"
  using assms by (cases deep) (auto simp: emits_def)

lemma position_drop:
  "position p xs = (if \<exists>x \<in> set xs. p x then Some (length (takeWhile (\<lambda>x. \<not> p x) xs)) else None)"
  by (induction xs) auto

lemma drop_takeWhile: "drop (length (takeWhile p xs)) xs = dropWhile p xs"
  by (metis append_eq_conv_conj takeWhile_dropWhile_id)

lemma be_nat_zeros: "\<forall>b \<in> set bs. b = 0 \<Longrightarrow> be_nat bs = 0"
proof -
  have "\<forall>b \<in> set bs. b = 0 \<Longrightarrow> le_nat bs = 0" for bs by (induction bs) simp_all
  from this [of "rev bs"] show "\<forall>b \<in> set bs. b = 0 \<Longrightarrow> be_nat bs = 0" by (simp add: be_nat_def)
qed

lemma emits_trimmed:
  assumes "be_nat bs \<noteq> 0"
  shows "emits out False (block_code (dropWhile (\<lambda>b. b = 0) bs))
    (case position (\<lambda>b. b \<noteq> 0) bs of
       None \<Rightarrow> Inl KeyPanic
     | Some first_nonzero \<Rightarrow> push_bytes out (drop first_nonzero bs))"
proof -
  have "\<exists>b \<in> set bs. b \<noteq> 0" using assms be_nat_zeros [of bs] by (rule_tac ccontr) simp
  then show ?thesis using emits_bytes by (simp add: position_drop drop_takeWhile)
qed

lemma u128_nonzero: "0 < c \<Longrightarrow> c < 2 ^ 128 \<Longrightarrow> be_nat (be_bytes 16 c) \<noteq> 0"
  unfolding be_nat_be_bytes by (simp add: mod_less)

lemma emits_magnitude:
  assumes "c < 2 ^ 128"
  shows "emits out False (block_code (magnitude_code c))
    (if c = 0 then push_bytes out []
     else let bs = be_bytes 16 c in
       case position (\<lambda>b. b \<noteq> 0) bs of
         None \<Rightarrow> Inl KeyPanic
       | Some first_nonzero \<Rightarrow> push_bytes out (drop first_nonzero bs))"
proof (cases "c = 0")
  case True
  then show ?thesis using emits_bytes [of out "[]"] by (simp add: magnitude_code_def)
next
  case False
  then have "be_nat (be_bytes 16 c) \<noteq> 0" using u128_nonzero assms by blast
  from emits_trimmed [OF this] show ?thesis unfolding Let_def magnitude_code_def if_not_P [OF False] .
qed

lemma emits_finite:
  assumes "coefficient f < 2 ^ 128"
  shows "emits out False (finite_code f) (encode_finite out f)"
  using emits_then [OF emits_byte [of out] emits_then [OF emits_magnitude [OF assms]
      emits_then [OF emits_extend [of _ "i16_be_bytes (exponent_two f)"] emits_extend [of _ "i16_be_bytes (exponent_five f)"]]]]
  unfolding encode_finite_def finite_code_def Let_def by (simp only: append_Cons append_Nil simp_thms)

lemma emits_number:
  assumes "\<And>f. n = Finite f \<Longrightarrow> coefficient f < 2 ^ 128"
  shows "emits out False (number_code n) (encode_number out n)"
proof (cases n)
  case (Finite f)
  then show ?thesis using emits_then [OF emits_byte emits_finite [of f]] assms by simp
qed (simp_all add: emits_byte)

lemma canonical_finite_coefficient:
  assumes "canonical_finite neg c e2 e5 = Finite f"
  shows "coefficient f \<le> c"
proof -
  obtain g where g: "canonical_finite neg c e2 e5 = Finite g"
    "c = 0 \<or> (\<exists>m n. c = coefficient g * 2 ^ m * 5 ^ n \<and> exponent_two g = e2 + int m \<and> exponent_five g = e5 + int n
      \<and> 0 < coefficient g)"
    by (rule canonical_finite_spec [of neg c e2 e5])
  show ?thesis
  proof (cases "c = 0")
    case True
    then show ?thesis using assms by (auto simp: canonical_finite_def)
  next
    case False
    then obtain m n where "c = coefficient g * (2 ^ m * 5 ^ n)" using g(2) by (auto simp: mult.assoc)
    moreover have "0 < (2 ^ m * 5 ^ n :: nat)" by simp
    ultimately show ?thesis using g(1) assms by (cases "2 ^ m * 5 ^ n :: nat") auto
  qed
qed

lemma special_or_finite_coefficient:
  "(if p then (if q then NaN else if r then NegativeInfinity else PositiveInfinity)
    else canonical_finite neg c e2 e5) = Finite f \<Longrightarrow> coefficient f \<le> c"
  using canonical_finite_coefficient by (auto split: if_splits)

lemma coefficient_bound:
  assumes "canonical_number v = Some (Finite f)"
  shows "coefficient f \<le> MAX_DECIMAL128_COEFFICIENT"
proof -
  have int: "coefficient f \<le> MAX_DECIMAL128_COEFFICIENT" if "canonical_finite n c e2 e5 = Finite f" "c \<le> 2 ^ 64" for n c e2 e5
    using canonical_finite_coefficient [OF that(1)] that(2) by (simp add: MAX_DECIMAL128_COEFFICIENT_def)
  show ?thesis
  proof (cases v)
    case (Double x)
    have "f64_fraction x < 2 ^ 52" using f64_fields_less [of x] by simp
    then show ?thesis using assms Double int
      by (auto simp: from_f64_def Let_def split: if_splits)
  next
    case (Int32 x)
    have "\<bar>sint x\<bar> \<le> 2 ^ 64" using sint_lt [of x] sint_ge [of x] by simp
    then show ?thesis using assms Int32 int by (auto simp: from_i32_def)
  next
    case (Int64 x)
    have "\<bar>sint x\<bar> \<le> 2 ^ 64" using sint_lt [of x] sint_ge [of x] by simp
    then show ?thesis using assms Int64 int by (auto simp: from_i64_def)
  next
    case (Decimal128 bid)
    then have "from_decimal_bid bid = Finite f" using assms by simp
    then obtain c where "coefficient f \<le> (if c > MAX_DECIMAL128_COEFFICIENT then 0 else c)"
      unfolding from_decimal_bid_def Let_def split_def using special_or_finite_coefficient by blast
    then show ?thesis by (auto split: if_splits)
  qed (use assms in simp_all)
qed

lemma u128_bound: "c \<le> MAX_DECIMAL128_COEFFICIENT \<Longrightarrow> c < 2 ^ 128"
  by (simp add: MAX_DECIMAL128_COEFFICIENT_def)

lemma key_code_nonempty: "key_code v \<noteq> []"
  by (cases v rule: type_rank.cases) (simp_all add: key_code.simps split: prod.split)

lemma length_codes: "length d \<le> length (entries_code d)" "length vs \<le> length (values_code vs)"
proof -
  show "length d \<le> length (entries_code d)" 
  proof (induction d)
    case (Cons x d)
    have "0 < length (key_code (snd x))" using key_code_nonempty [of "snd x"] by simp
    then show ?case using Cons by (cases x) (simp del: length_greater_0_conv)
  qed simp
  show "length vs \<le> length (values_code vs)"
  proof (induction vs)
    case (Cons v vs)
    have "0 < length (key_code v)" using key_code_nonempty [of v] by simp
    then show ?case using Cons by (simp del: length_greater_0_conv)
  qed simp
qed

lemma emits_entries:
  assumes "\<And>name v out. (name, v) \<in> set d \<Longrightarrow>
      emits out (depth + nesting v > MAX_KEY_NESTING_DEPTH) (key_code v) (encode_value out v depth)"
    and "depth \<le> MAX_KEY_NESTING_DEPTH"
  shows "emits out (depth + entries_nesting d > MAX_KEY_NESTING_DEPTH) (entries_code d) (encode_entries out d depth)"
  using assms
proof (induction d arbitrary: out)
  case Nil
  then show ?case by (auto simp: emits_def)
next
  case (Cons x d)
  obtain name v where x: "x = (name, v)" by force
  have deep: "depth + entries_nesting (x # d) > MAX_KEY_NESTING_DEPTH
      \<longleftrightarrow> False \<or> depth + nesting v > MAX_KEY_NESTING_DEPTH \<or> depth + entries_nesting d > MAX_KEY_NESTING_DEPTH"
    using x by auto
  have v: "emits out (depth + nesting v > MAX_KEY_NESTING_DEPTH) (key_code v) (encode_value out v depth)" for out
    using Cons.prems(1) [of name v] x by simp
  have d: "emits out (depth + entries_nesting d > MAX_KEY_NESTING_DEPTH) (entries_code d) (encode_entries out d depth)" for out
    using Cons.IH Cons.prems by (meson list.set_intros(2))
  show ?case unfolding deep using emits_then [OF emits_string emits_then [OF v d]] x by simp
qed

lemma emits_values:
  assumes "\<And>v out. v \<in> set vs \<Longrightarrow>
      emits out (depth + nesting v > MAX_KEY_NESTING_DEPTH) (key_code v) (encode_value out v depth)"
    and "depth \<le> MAX_KEY_NESTING_DEPTH"
  shows "emits out (depth + values_nesting vs > MAX_KEY_NESTING_DEPTH) (values_code vs) (encode_items out vs depth)"
  using assms
proof (induction vs arbitrary: out)
  case Nil
  then show ?case by (auto simp: emits_def)
next
  case (Cons v vs)
  have deep: "depth + values_nesting (v # vs) > MAX_KEY_NESTING_DEPTH
      \<longleftrightarrow> depth + nesting v > MAX_KEY_NESTING_DEPTH \<or> depth + values_nesting vs > MAX_KEY_NESTING_DEPTH"
    by auto
  have v: "emits out (depth + nesting v > MAX_KEY_NESTING_DEPTH) (key_code v) (encode_value out v depth)" for out
    using Cons.prems(1) by simp
  have d: "emits out (depth + values_nesting vs > MAX_KEY_NESTING_DEPTH) (values_code vs) (encode_items out vs depth)" for out
    using Cons.IH Cons.prems by (meson list.set_intros(2))
  show ?case unfolding deep using emits_then [OF v d] by simp
qed

lemma emits_seq:
  "emits out False c r \<Longrightarrow> (\<And>x. emits x q d (f x)) \<Longrightarrow> emits out q (c @ d) (and_then r f)"
  using emits_then [of out False c r q d f] by simp

lemma emits_tag: "(\<And>x. emits x q d (f x)) \<Longrightarrow> emits out q (b # d) (and_then (push_key_byte out b) f)"
  using emits_seq [OF emits_byte, of q d f out b] by simp

lemmas emits_rules =
  emits_tag emits_byte emits_extend emits_bytes emits_string emits_seq

lemma emits_depth:
  assumes "depth \<le> MAX_KEY_NESTING_DEPTH \<Longrightarrow> emits out (depth + n > MAX_KEY_NESTING_DEPTH) c r"
  shows "emits out (depth + n > MAX_KEY_NESTING_DEPTH) c (and_then (ensure_key_depth depth) (\<lambda>_. r))"
  using assms by (cases "depth \<le> MAX_KEY_NESTING_DEPTH") (auto simp: ensure_key_depth_def emits_def)

lemma emits_flat:
  "emits out False c r \<Longrightarrow> emits out (depth > MAX_KEY_NESTING_DEPTH) c (and_then (ensure_key_depth depth) (\<lambda>_. r))"
  using emits_depth [of depth out 0 c r] by (auto simp: emits_def)

lemma emits_simple:
  assumes "\<And>d. v \<noteq> Document d" "\<And>vs. v \<noteq> Array vs" "\<And>c d. v \<noteq> JavaScript c (Some d)"
  shows "emits out (depth + nesting v > MAX_KEY_NESTING_DEPTH) (key_code v) (encode_value out v depth)"
proof -
  have flat: "nesting v = 0" using assms by (cases v rule: nesting.cases) auto
  show ?thesis
  proof (cases "canonical_number v")
    case (Some n)
    have n: "emits x False (number_code n) (encode_number x n)" for x
      by (rule emits_number) (use Some coefficient_bound u128_bound in blast)
    show ?thesis by (simp add: flat Some encode_value.simps key_code.simps) (intro emits_flat emits_tag n)
  next
    case None
    show ?thesis
    proof (cases "binary_parts v")
      case (Some p)
      then show ?thesis using None flat
        by (cases p) (simp add: encode_value.simps key_code.simps, intro emits_flat emits_rules)
    next
      case bin: None
      show ?thesis using assms None bin
        by (cases v rule: type_rank.cases; simp add: encode_value.simps key_code.simps; intro conjI impI emits_flat emits_rules)
    qed
  qed
qed

lemma emits_document:
  assumes "\<And>v out depth. v \<in> snd ` set d \<Longrightarrow>
      emits out (depth + nesting v > MAX_KEY_NESTING_DEPTH) (key_code v) (encode_value out v depth)"
  shows "emits out (depth + entries_nesting d > MAX_KEY_NESTING_DEPTH) (be_bytes 4 (length d) @ entries_code d)
    (encode_document out d depth)"
  unfolding encode_document_def
proof (intro emits_depth emits_counted length_codes)
  fix x assume "depth \<le> MAX_KEY_NESTING_DEPTH"
  then show "emits x (MAX_KEY_NESTING_DEPTH < depth + entries_nesting d) (entries_code d) (encode_entries x d depth)"
  proof (rule emits_entries [rotated])
    fix name v out assume "(name, v) \<in> set d"
    then have "v \<in> snd ` set d" by force
    then show "emits out (MAX_KEY_NESTING_DEPTH < depth + nesting v) (key_code v) (encode_value out v depth)"
      by (rule assms)
  qed
qed

lemma encode_value_document:
  "encode_value out (Document d) depth =
    and_then (ensure_key_depth depth) (\<lambda>_. and_then (push_key_byte out 4) (\<lambda>out. encode_document out d (Suc depth)))"
  "encode_value out (JavaScript c (Some d)) depth =
    and_then (ensure_key_depth depth) (\<lambda>_. and_then (push_key_byte out 13) (\<lambda>out.
      and_then (push_string out c) (\<lambda>out. encode_document out d (Suc depth))))"
  "encode_value out (Array vs) depth =
    and_then (ensure_key_depth depth) (\<lambda>_. and_then (ensure_key_depth (Suc depth)) (\<lambda>_.
      and_then (push_key_byte out 5) (\<lambda>out.
      and_then (push_len out (length vs)) (\<lambda>out. encode_items out vs (Suc depth)))))"
  by (simp_all add: encode_value.simps encode_document_def)

lemma emits_value: "emits out (depth + nesting v > MAX_KEY_NESTING_DEPTH) (key_code v) (encode_value out v depth)"
proof (induction v arbitrary: out depth)
  case (Document d)
  have doc: "emits x (MAX_KEY_NESTING_DEPTH < Suc depth + entries_nesting d) (be_bytes 4 (length d) @ entries_code d)
      (encode_document x d (Suc depth))" for x
    by (rule emits_document) (use Document in \<open>auto simp: snds.simps\<close>)
  have "emits out (MAX_KEY_NESTING_DEPTH < depth + Suc (entries_nesting d)) (4 # be_bytes 4 (length d) @ entries_code d)
      (encode_value out (Document d) depth)"
    unfolding encode_value_document using doc by (intro emits_depth emits_tag) simp
  then show ?case by (simp add: key_code.simps)
next
  case (Array vs)
  have "emits x (MAX_KEY_NESTING_DEPTH < Suc depth + values_nesting vs) (values_code vs) (encode_items x vs (Suc depth))"
    if "Suc depth \<le> MAX_KEY_NESTING_DEPTH" for x
    by (rule emits_values [OF Array that])
  then have "emits out (MAX_KEY_NESTING_DEPTH < Suc depth + values_nesting vs) (5 # be_bytes 4 (length vs) @ values_code vs)
      (and_then (ensure_key_depth (Suc depth)) (\<lambda>_. and_then (push_key_byte out 5) (\<lambda>out.
        and_then (push_len out (length vs)) (\<lambda>out. encode_items out vs (Suc depth)))))"
    by (intro emits_depth emits_tag emits_counted length_codes) simp
  then have "emits out (MAX_KEY_NESTING_DEPTH < depth + Suc (values_nesting vs)) (5 # be_bytes 4 (length vs) @ values_code vs)
      (encode_value out (Array vs) depth)"
    unfolding encode_value_document by (intro emits_depth) simp
  then show ?case by (simp add: key_code.simps)
next
  case (JavaScript c scope)
  show ?case
  proof (cases scope)
    case None
    then show ?thesis by (intro emits_simple) simp_all
  next
    case (Some d)
    have doc: "emits x (MAX_KEY_NESTING_DEPTH < Suc depth + entries_nesting d) (be_bytes 4 (length d) @ entries_code d)
        (encode_document x d (Suc depth))" for x
      by (rule emits_document) (use JavaScript Some in \<open>auto simp: snds.simps\<close>)
    have "emits out (MAX_KEY_NESTING_DEPTH < depth + Suc (entries_nesting d))
        (13 # block_code c @ be_bytes 4 (length d) @ entries_code d) (encode_value out (JavaScript c (Some d)) depth)"
      unfolding encode_value_document using doc by (intro emits_depth emits_tag emits_seq emits_string) simp
    then show ?thesis by (simp add: key_code.simps Some)
  qed
qed (rule emits_simple; simp)+

definition key_header :: bytes where
  "key_header = KEY_MAGIC @ be_bytes 4 BSON_KEY_ENCODING_VERSION"

lemma length_key_header: "length key_header = KEY_HEADER_LEN"
  by (simp add: key_header_def KEY_HEADER_LEN_def)

lemma key_encode_emits: "emits [] (nesting v > MAX_KEY_NESTING_DEPTH) (key_header @ key_code v) (key_encode v)"
  unfolding key_encode_def key_header_def append_assoc
  using emits_value [of _ 0 v] by (intro emits_seq emits_extend) simp_all

end
