(* ===== verification/Bson_Key_Identity.thy ===== *)
theory Bson_Key_Identity
  imports Bson_Key
begin

text \<open>
  What canonical keys promise: they identify values up to semantic equality, encoding fails only at
  its limits, and the validator of stored keys accepts every key the encoder makes.
\<close>

section \<open>Type invariants of values\<close>

text \<open>What the Rust types of a value guarantee: UTF-8 strings, fixed widths, names without NUL, canonical flags.\<close>

fun value_ok :: "BsonValue \<Rightarrow> bool"
  and document_ok :: "BsonDocument \<Rightarrow> bool"
  and array_ok :: "BsonValue list \<Rightarrow> bool" where
  "value_ok (String s) \<longleftrightarrow> utf8_valid s"
| "value_ok (Document d) \<longleftrightarrow> document_ok d"
| "value_ok (Array vs) \<longleftrightarrow> array_ok vs"
| "value_ok (Uuid bs _) \<longleftrightarrow> length bs = 16"
| "value_ok (ObjectId bs) \<longleftrightarrow> length bs = 12"
| "value_ok (RegularExpression p opts) \<longleftrightarrow> utf8_valid p \<and> utf8_valid opts \<and> regex_new p opts = Inr (p, opts)"
| "value_ok (JavaScript c None) \<longleftrightarrow> utf8_valid c"
| "value_ok (JavaScript c (Some d)) \<longleftrightarrow> utf8_valid c \<and> document_ok d"
| "value_ok (Decimal128 bid) \<longleftrightarrow> length bid = 16"
| "value_ok _ \<longleftrightarrow> True"
| "document_ok [] \<longleftrightarrow> True"
| "document_ok ((name, v) # d) \<longleftrightarrow> utf8_valid name \<and> 0 \<notin> set name \<and> value_ok v \<and> document_ok d"
| "array_ok [] \<longleftrightarrow> True"
| "array_ok (v # vs) \<longleftrightarrow> value_ok v \<and> array_ok vs"

section \<open>Keys identify values\<close>

lemma be_bytes_append: "be_bytes k m @ r = be_bytes k n @ s \<longleftrightarrow> be_bytes k m = be_bytes k n \<and> r = s"
  by simp

lemma block_code_append:
  assumes "length a < 2 ^ 32" "length b < 2 ^ 32"
  shows "block_code a @ r = block_code b @ s \<longleftrightarrow> a = b \<and> r = s"
proof -
  have "be_bytes 4 (length a) = be_bytes 4 (length b) \<longleftrightarrow> length a = length b"
    using assms by (intro be_bytes_inject) simp_all
  then show ?thesis by (auto simp: block_code_def)
qed

lemma length_block_code: "length (block_code bs) = 4 + length bs"
  by (simp add: block_code_def)

lemma be_nat_append_zero: "be_nat (0 # bs) = be_nat bs"
proof -
  have "le_nat (xs @ [0]) = le_nat xs" for xs by (induction xs) simp_all
  then show ?thesis by (simp add: be_nat_def)
qed

lemma be_nat_dropWhile: "be_nat (dropWhile (\<lambda>b. b = 0) bs) = be_nat bs"
  by (induction bs) (simp_all add: be_nat_append_zero)

lemma be_nat_magnitude: "c < 2 ^ 128 \<Longrightarrow> be_nat (magnitude_code c) = c"
  unfolding magnitude_code_def
  by (cases "c = 0") (simp_all add: be_nat_dropWhile be_nat_be_bytes be_nat_def [of "[]"])

lemma length_magnitude: "length (magnitude_code c) \<le> 16"
  using length_dropWhile_le [of "\<lambda>b. b = 0" "be_bytes 16 c"] by (simp add: magnitude_code_def)

lemma i16_inject:
  assumes "- 32768 \<le> a" "a < 32768" "- 32768 \<le> b" "b < 32768"
  shows "i16_be_bytes a = i16_be_bytes b \<longleftrightarrow> a = b"
proof -
  have "i16_be_bytes a = i16_be_bytes b \<longleftrightarrow> nat (a mod 2 ^ 16) = nat (b mod 2 ^ 16)"
    unfolding i16_be_bytes_def by (rule be_bytes_inject) (simp_all add: nat_less_iff)
  also have "\<dots> \<longleftrightarrow> a mod 65536 = b mod 65536" by (simp add: eq_nat_nat_iff)
  also have "\<dots> \<longleftrightarrow> a = b"
  proof
    assume "a mod 65536 = b mod 65536"
    then obtain k where "a - b = 65536 * k" by (auto simp: mod_eq_dvd_iff dvd_def)
    moreover have "\<bar>a - b\<bar> < 65536" using assms by linarith
    ultimately have "- 1 < k" "k < 1" by linarith+
    then show "a = b" using \<open>a - b = 65536 * k\<close> by simp
  qed simp
  finally show ?thesis .
qed

text \<open>The finite numbers that values have.\<close>

definition finite_ok :: "CanonicalFinite \<Rightarrow> bool" where
  "finite_ok f \<longleftrightarrow> canonical f \<and> coefficient f \<le> MAX_DECIMAL128_COEFFICIENT
    \<and> MIN_CANONICAL_EXPONENT_TWO \<le> exponent_two f \<and> exponent_two f \<le> MAX_CANONICAL_EXPONENT_TWO
    \<and> MIN_CANONICAL_EXPONENT_FIVE \<le> exponent_five f \<and> exponent_five f \<le> MAX_CANONICAL_EXPONENT_FIVE"

lemmas exponent_limits =
  MIN_CANONICAL_EXPONENT_TWO_def MAX_CANONICAL_EXPONENT_TWO_def
  MIN_CANONICAL_EXPONENT_FIVE_def MAX_CANONICAL_EXPONENT_FIVE_def

lemma value_finite_ok:
  assumes "value_ok v" "canonical_number v = Some (Finite f)"
  shows "finite_ok f"
proof -
  have "assertions_hold (Finite f)"
    using assms from_decimal_asserts from_binary_asserts by (cases v) (auto, metis+)
  moreover have "canonical f" using number_canonical_value [OF assms(2)] by (simp add: number_canonical_def)
  ultimately show ?thesis using coefficient_bound [OF assms(2)]
    by (auto simp: finite_ok_def assertions_hold_def canonical_def exponent_limits split: if_splits)
qed

lemma finite_code_append:
  assumes "finite_ok f" "finite_ok g"
  shows "finite_code f @ r = finite_code g @ s \<longleftrightarrow> f = g \<and> r = s"
proof -
  have c: "coefficient f < 2 ^ 128" "coefficient g < 2 ^ 128"
    using assms u128_bound by (auto simp: finite_ok_def)
  have m: "magnitude_code (coefficient f) = magnitude_code (coefficient g) \<longleftrightarrow> coefficient f = coefficient g"
    using be_nat_magnitude c by metis
  have small: "length (magnitude_code x) < 2 ^ 32" for x
    using length_magnitude [of x] by simp
  have e: "i16_be_bytes (exponent_two f) = i16_be_bytes (exponent_two g) \<longleftrightarrow> exponent_two f = exponent_two g"
      "i16_be_bytes (exponent_five f) = i16_be_bytes (exponent_five g) \<longleftrightarrow> exponent_five f = exponent_five g"
    using assms by (simp_all add: finite_ok_def exponent_limits i16_inject)
  have l: "i16_be_bytes x @ a = i16_be_bytes y @ b \<longleftrightarrow> i16_be_bytes x = i16_be_bytes y \<and> a = b" for x y a b
    by (simp add: i16_be_bytes_def)
  have fields: "f = g \<longleftrightarrow> is_negative f = is_negative g \<and> coefficient f = coefficient g
      \<and> exponent_two f = exponent_two g \<and> exponent_five f = exponent_five g"
    by (cases f; cases g) auto
  have sign: "coefficient f = 0 \<Longrightarrow> \<not> is_negative f" "coefficient g = 0 \<Longrightarrow> \<not> is_negative g"
    using assms by (auto simp: finite_ok_def canonical_def)
  show ?thesis
    unfolding finite_code_def append_Cons append_assoc list.inject block_code_append [OF small small] l e m fields
    using sign by auto
qed

lemma number_code_append:
  assumes "\<And>f. m = Finite f \<Longrightarrow> finite_ok f" "\<And>f. n = Finite f \<Longrightarrow> finite_ok f"
  shows "number_code m @ r = number_code n @ s \<longleftrightarrow> m = n \<and> r = s"
  using assms by (cases m; cases n) (auto simp: finite_code_append)

definition same_code :: "BsonValue \<Rightarrow> BsonValue \<Rightarrow> bool" where
  "same_code a b \<longleftrightarrow> (\<forall>r s. length (key_code a) < 2 ^ 32 \<and> length (key_code b) < 2 ^ 32
    \<longrightarrow> (key_code a @ r = key_code b @ s \<longleftrightarrow> bson_eq a b \<and> r = s))"

lemma key_code_tag: "\<exists>body. key_code v = of_nat (type_rank v) # body"
  by (cases v rule: type_rank.cases) (simp_all add: key_code.simps split: prod.split)

lemma type_rank_less: "type_rank v < 15"
  by (cases v rule: type_rank.cases) simp_all

lemma same_code_rank:
  assumes "type_rank a \<noteq> type_rank b"
  shows "same_code a b"
proof -
  have "(of_nat (type_rank a) :: byte) \<noteq> of_nat (type_rank b)"
  proof
    assume "(of_nat (type_rank a) :: byte) = of_nat (type_rank b)"
    then have "type_rank a mod 256 = type_rank b mod 256"
      using word_of_nat_eq_iff [where 'a = 8, of "type_rank a" "type_rank b"] by (simp add: take_bit_eq_mod)
    then show False using assms type_rank_less [of a] type_rank_less [of b] by simp
  qed
  moreover have "\<not> bson_eq a b" using assms bson_cmp_rank by (auto simp: bson_eq_cmp)
  ultimately show ?thesis
    using key_code_tag [of a] key_code_tag [of b] by (auto simp: same_code_def)
qed

lemma same_code_document:
  assumes "\<And>name v w. (name, v) \<in> set d \<Longrightarrow> value_ok w \<Longrightarrow> same_code v w" "document_ok e"
    and "length (entries_code d) < 2 ^ 32" "length (entries_code e) < 2 ^ 32"
  shows "be_bytes 4 (length d) @ entries_code d @ r = be_bytes 4 (length e) @ entries_code e @ s
    \<longleftrightarrow> document_eq d e \<and> r = s"
proof -
  have eqs: "entries_code d @ r = entries_code e @ s \<longleftrightarrow> document_eq d e \<and> r = s" if "length d = length e"
    using that assms
  proof (induction d e rule: list_induct2)
    case (Cons x d y e)
    obtain name v name' w where xy: "x = (name, v)" "y = (name', w)" by force
    have len: "length name < 2 ^ 32" "length name' < 2 ^ 32"
        "length (key_code v) < 2 ^ 32" "length (key_code w) < 2 ^ 32"
        "length (entries_code d) < 2 ^ 32" "length (entries_code e) < 2 ^ 32"
      using Cons.prems(3,4) xy by (auto simp: block_code_def)
    have v: "same_code v w" using Cons.prems(1) [of name v w] Cons.prems(2) xy by simp
    have ih: "entries_code d @ r = entries_code e @ s \<longleftrightarrow> document_eq d e \<and> r = s"
      by (rule Cons.IH) (use Cons.prems len xy in auto)
    have "entries_code (x # d) @ r = entries_code (y # e) @ s \<longleftrightarrow>
        block_code name @ key_code v @ entries_code d @ r = block_code name' @ key_code w @ entries_code e @ s"
      using xy by simp
    also have "\<dots> \<longleftrightarrow> name = name' \<and> bson_eq v w \<and> entries_code d @ r = entries_code e @ s"
      using v len by (simp add: block_code_append same_code_def)
    finally show ?case using ih xy by auto
  qed simp
  have "length d < 2 ^ 32" "length e < 2 ^ 32"
    using assms(3,4) length_codes(1) [of d] length_codes(1) [of e] by linarith+
  then have "be_bytes 4 (length d) = be_bytes 4 (length e) \<longleftrightarrow> length d = length e"
    by (intro be_bytes_inject) simp_all
  moreover have "document_eq d e \<Longrightarrow> length d = length e" by (induction d e rule: list_induct2') auto
  ultimately show ?thesis using eqs by auto
qed

lemma same_code_array:
  assumes "\<And>v w. v \<in> set vs \<Longrightarrow> value_ok w \<Longrightarrow> same_code v w" "array_ok ws"
    and "length (values_code vs) < 2 ^ 32" "length (values_code ws) < 2 ^ 32"
  shows "be_bytes 4 (length vs) @ values_code vs @ r = be_bytes 4 (length ws) @ values_code ws @ s
    \<longleftrightarrow> array_eq vs ws \<and> r = s"
proof -
  have eqs: "values_code vs @ r = values_code ws @ s \<longleftrightarrow> array_eq vs ws \<and> r = s" if "length vs = length ws"
    using that assms
  proof (induction vs ws rule: list_induct2)
    case (Cons v vs w ws)
    have len: "length (key_code v) < 2 ^ 32" "length (key_code w) < 2 ^ 32"
        "length (values_code vs) < 2 ^ 32" "length (values_code ws) < 2 ^ 32"
      using Cons.prems(3,4) by auto
    have v: "same_code v w" using Cons.prems(1,2) by simp
    have ih: "values_code vs @ r = values_code ws @ s \<longleftrightarrow> array_eq vs ws \<and> r = s"
      by (rule Cons.IH) (use Cons.prems len in auto)
    show ?case using ih v len by (simp add: same_code_def)
  qed simp
  have "length vs < 2 ^ 32" "length ws < 2 ^ 32"
    using assms(3,4) length_codes(2) [of vs] length_codes(2) [of ws] by linarith+
  then have "be_bytes 4 (length vs) = be_bytes 4 (length ws) \<longleftrightarrow> length vs = length ws"
    by (intro be_bytes_inject) simp_all
  moreover have "array_eq vs ws \<Longrightarrow> length vs = length ws" by (induction vs ws rule: list_induct2') auto
  ultimately show ?thesis using eqs by auto
qed

lemma same_code_number:
  assumes "type_rank a = type_rank b" "canonical_number a = Some m" "value_ok a" "value_ok b"
  shows "same_code a b"
proof -
  obtain n where n: "canonical_number b = Some n"
    using assms(1,2) rank_families(1) [of a] rank_families(1) [of b] by auto
  have "number_code m @ r = number_code n @ s \<longleftrightarrow> m = n \<and> r = s" for r s
    by (rule number_code_append) (use value_finite_ok assms n in auto)
  then show ?thesis using assms(2) n by (simp add: same_code_def key_code.simps bson_eq.simps)
qed

lemma same_code_binary:
  assumes "type_rank a = type_rank b" "binary_parts a = Some x"
  shows "same_code a b"
proof -
  obtain y where y: "binary_parts b = Some y"
    using assms rank_families(2) [of a] rank_families(2) [of b] by (cases "binary_parts b") auto
  have none: "canonical_number a = None" "canonical_number b = None"
    using assms rank_families [of a] rank_families [of b] by auto
  have "block_code (snd x) @ r = block_code (snd y) @ s \<longleftrightarrow> snd x = snd y \<and> r = s"
    if "length (key_code a) < 2 ^ 32" "length (key_code b) < 2 ^ 32" for r s
    by (rule block_code_append) (use that assms(2) y none in \<open>simp_all add: key_code.simps split_def block_code_def\<close>)
  then show ?thesis using assms(2) y none
    by (auto simp: same_code_def key_code.simps bson_eq.simps split_def prod_eq_iff)
qed

lemma unat_be_bytes_inject:
  "be_bytes 8 (unat (a :: u64)) = be_bytes 8 (unat b) \<longleftrightarrow> a = b"
  "be_bytes 4 (unat (c :: u32)) = be_bytes 4 (unat d) \<longleftrightarrow> c = d"
  using be_bytes_inject [of "unat a" 8 "unat b"] be_bytes_inject [of "unat c" 4 "unat d"]
    unsigned_less [of a] unsigned_less [of b] unsigned_less [of c] unsigned_less [of d]
  by (simp_all add: word_unat_eq_iff)

lemma same_code_leaf:
  assumes "type_rank a = type_rank b" "canonical_number a = None" "binary_parts a = None"
    and "value_ok a" "value_ok b"
    and "\<And>d. a \<noteq> Document d" "\<And>vs. a \<noteq> Array vs" "\<And>c d. a \<noteq> JavaScript c (Some d)"
  shows "same_code a b"
  using assms
  by (cases a rule: type_rank.cases; simp; cases b rule: type_rank.cases;
      simp add: same_code_def key_code.simps bson_eq.simps)
    (auto simp: block_code_append unat_be_bytes_inject length_block_code)

lemma same_code_simple:
  assumes "value_ok a" "value_ok b"
    and "\<And>d. a \<noteq> Document d" "\<And>vs. a \<noteq> Array vs" "\<And>c d. a \<noteq> JavaScript c (Some d)"
  shows "same_code a b"
proof (cases "type_rank a = type_rank b")
  case True
  then show ?thesis
    using assms same_code_leaf [of a b] same_code_number [of a b] same_code_binary [of a b]
    by (cases "canonical_number a"; cases "binary_parts a") auto
qed (rule same_code_rank)

lemma document_ok_iff: "document_ok d \<longleftrightarrow> (\<forall>(name, v) \<in> set d. utf8_valid name \<and> 0 \<notin> set name \<and> value_ok v)"
  by (induction d) auto

lemma array_ok_iff: "array_ok vs \<longleftrightarrow> (\<forall>v \<in> set vs. value_ok v)"
  by (induction vs) auto

lemma same_code_value: "value_ok a \<Longrightarrow> value_ok b \<Longrightarrow> same_code a b"
proof (induction a arbitrary: b)
  case (Document d)
  have ih: "same_code v w" if "(name, v) \<in> set d" "value_ok w" for name v w
    using Document.IH [of "(name, v)" v w] Document.prems(1) that by (auto simp: document_ok_iff)
  show ?case
  proof (cases "type_rank b = 4")
    case True
    then obtain e where b: "b = Document e" using rank_forms by blast
    show ?thesis
      unfolding same_code_def b
      using same_code_document [of d e, OF ih] Document.prems(2) b
      by (auto simp: key_code.simps bson_eq.simps)
  qed (simp add: same_code_rank)
next
  case (Array vs)
  have ih: "same_code v w" if "v \<in> set vs" "value_ok w" for v w
    using Array.IH [of v w] Array.prems(1) that by (auto simp: array_ok_iff)
  show ?case
  proof (cases "type_rank b = 5")
    case True
    then obtain ws where b: "b = Array ws" using rank_forms by blast
    show ?thesis
      unfolding same_code_def b
      using same_code_array [of vs ws, OF ih] Array.prems(2) b
      by (auto simp: key_code.simps bson_eq.simps)
  qed (simp add: same_code_rank)
next
  case (JavaScript c scope)
  show ?case
  proof (cases scope)
    case None
    then show ?thesis using JavaScript.prems by (intro same_code_simple) simp_all
  next
    case (Some d)
    have ih: "same_code v w" if "(name, v) \<in> set d" "value_ok w" for name v w
      using JavaScript.IH [of d "(name, v)" v w] JavaScript.prems(1) Some that by (auto simp: document_ok_iff)
    show ?thesis
    proof (cases "type_rank b = 13")
      case True
      then obtain c' e where b: "b = JavaScript c' (Some e)" using rank_forms by blast
      show ?thesis
        unfolding same_code_def b Some
        using same_code_document [of d e, OF ih] JavaScript.prems(2) b block_code_append [of c c']
        by (auto simp: key_code.simps bson_eq.simps length_block_code)
    qed (simp add: Some same_code_rank)
  qed
qed (rule same_code_simple; simp)+

section \<open>The validator accepts every key\<close>

lemma key_take_append: "length bs = n \<Longrightarrow> key_take (bs @ r) n = Inr (bs, r)"
  by (simp add: key_take_def)

lemma key_read_u8_Cons [simp]: "key_read_u8 (b # r) = Inr (b, r)"
  by (simp add: key_read_u8_def key_take_def)

lemma key_read_u32_append: "n < 2 ^ 32 \<Longrightarrow> key_read_u32 (be_bytes 4 n @ r) = Inr (n, r)"
  by (simp add: key_read_u32_def key_take_append be_nat_be_bytes)

lemma key_read_bytes_block: "length bs < 2 ^ 32 \<Longrightarrow> key_read_bytes (block_code bs @ r) = Inr (bs, r)"
  by (simp add: key_read_bytes_def block_code_def key_read_u32_append key_take_append)

lemma key_read_string_block:
  "length bs < 2 ^ 32 \<Longrightarrow> utf8_valid bs \<Longrightarrow> key_read_string (block_code bs @ r) = Inr (bs, r)"
  by (simp add: key_read_string_def key_read_bytes_block)

lemma key_read_i16_append:
  assumes "- 32768 \<le> e" "e < 32768"
  shows "key_read_i16 (i16_be_bytes e @ r) = Inr (e, r)"
proof -
  have "be_nat (i16_be_bytes e) = nat (e mod 65536)"
    by (simp add: i16_be_bytes_def be_nat_be_bytes nat_less_iff)
  then have "(word_of_nat (be_nat (i16_be_bytes e)) :: 16 word) = word_of_int (e mod 2 ^ 16)"
    by simp
  also have "\<dots> = word_of_int e" by (simp add: word_of_int_eq_iff take_bit_eq_mod)
  finally show ?thesis
    using assms by (simp add: key_read_i16_def key_take_append i16_be_bytes_def sint_sbintrunc' signed_take_bit_int_eq_self)
qed

lemma le_nat_snoc: "le_nat (bs @ [b]) = le_nat bs + unat b * 256 ^ length bs"
  by (induction bs) simp_all

lemma be_nat_Cons: "be_nat (b # bs) = unat b * 256 ^ length bs + be_nat bs"
  by (simp add: be_nat_def le_nat_snoc)

lemma foldl_be_nat: "foldl (\<lambda>value b. value * 256 + unat b) a bs = a * 256 ^ length bs + be_nat bs"
  by (induction bs arbitrary: a) (simp_all add: be_nat_def [of "[]"] be_nat_Cons algebra_simps)

lemma magnitude_hd: "magnitude_code c = [] \<or> hd (magnitude_code c) \<noteq> 0"
  using hd_dropWhile [of "\<lambda>b. b = 0" "be_bytes 16 c"] by (auto simp: magnitude_code_def)

lemma magnitude_length:
  assumes "c \<le> MAX_DECIMAL128_COEFFICIENT"
  shows "length (magnitude_code c) \<le> 15"
proof (cases "magnitude_code c")
  case (Cons b bs)
  then have "b \<noteq> 0" using magnitude_hd [of c] by simp
  then have "1 \<le> unat b" by (simp add: Suc_le_eq unat_gt_0)
  then have "256 ^ length bs \<le> unat b * 256 ^ length bs" by simp
  also have "\<dots> \<le> be_nat (magnitude_code c)" using Cons by (simp add: be_nat_Cons)
  also have "\<dots> = c" using be_nat_magnitude u128_bound assms by blast
  also have "\<dots> < 256 ^ 15" using assms by (simp add: MAX_DECIMAL128_COEFFICIENT_def)
  finally have "length bs < 15" using power_less_imp_less_exp [of 256 "length bs" 15] by simp
  then show ?thesis using Cons by simp
qed simp

lemma magnitude_empty: "c < 2 ^ 128 \<Longrightarrow> magnitude_code c = [] \<longleftrightarrow> c = 0"
  using be_nat_magnitude [of c] by (metis be_nat_zeros empty_iff empty_set magnitude_code_def)

lemma validate_number_code:
  assumes "\<And>f. n = Finite f \<Longrightarrow> finite_ok f"
  shows "validate_number (number_code n @ r) = Inr r"
proof (cases n)
  case (Finite f)
  then have f: "finite_ok f" using assms by simp
  define c where "c = coefficient f"
  have c: "c \<le> MAX_DECIMAL128_COEFFICIENT" "c < 2 ^ 128" using f u128_bound by (auto simp: finite_ok_def c_def)
  have m: "validate_magnitude (magnitude_code c) = Inr ()" using magnitude_hd [of c] by (simp add: validate_magnitude_def)
  have l: "length (magnitude_code c) \<le> MAX_CANONICAL_COEFFICIENT_BYTES" "length (magnitude_code c) < 2 ^ 32"
    using magnitude_length [OF c(1)] by (simp_all add: MAX_CANONICAL_COEFFICIENT_BYTES_def)
  have e: "- 32768 \<le> exponent_two f" "exponent_two f < 32768" "- 32768 \<le> exponent_five f" "exponent_five f < 32768"
    using f by (simp_all add: finite_ok_def exponent_limits)
  have v: "foldl (\<lambda>value b. value * 256 + unat b) 0 (magnitude_code c) = c"
    using be_nat_magnitude [OF c(2)] by (simp add: foldl_be_nat)
  have fac: "c \<noteq> 0 \<Longrightarrow> c mod 2 \<noteq> 0 \<and> c mod 5 \<noteq> 0"
    using f by (simp add: finite_ok_def canonical_def c_def dvd_eq_mod_eq_0)
  show ?thesis
    using f c magnitude_empty [OF c(2)] fac
    by (simp add: Finite validate_number_def finite_code_def c_def [symmetric] key_read_bytes_block [OF l(2)] m l(1) v
        key_read_i16_append [OF e(1,2)] key_read_i16_append [OF e(3,4)] finite_ok_def canonical_def Let_def)
qed (simp_all add: validate_number_def)

lemma validate_entries_code:
  assumes "\<And>name v r. (name, v) \<in> set d \<Longrightarrow> length (key_code v) < 2 ^ 32 \<Longrightarrow> depth + nesting v \<le> MAX_KEY_NESTING_DEPTH
      \<Longrightarrow> validate_value (key_code v @ r) depth = Inr r"
    and "document_ok d" "length (entries_code d) < 2 ^ 32" "depth + entries_nesting d \<le> MAX_KEY_NESTING_DEPTH"
  shows "validate_entries (length d) (entries_code d @ r) depth = Inr r"
  using assms
proof (induction d)
  case (Cons x d)
  obtain name v where x: "x = (name, v)" by force
  have "validate_value (key_code v @ r) depth = Inr r" for r
    using Cons.prems(1) [of name v] Cons.prems(3,4) x by (simp add: length_block_code)
  moreover have "validate_entries (length d) (entries_code d @ r) depth = Inr r"
    by (rule Cons.IH) (use Cons.prems x in auto)
  ultimately show ?case
    using Cons.prems(2,3) x by (simp add: key_read_string_block length_block_code)
qed simp

lemma validate_values_code:
  assumes "\<And>v r. v \<in> set vs \<Longrightarrow> length (key_code v) < 2 ^ 32 \<Longrightarrow> depth + nesting v \<le> MAX_KEY_NESTING_DEPTH
      \<Longrightarrow> validate_value (key_code v @ r) depth = Inr r"
    and "length (values_code vs) < 2 ^ 32" "depth + values_nesting vs \<le> MAX_KEY_NESTING_DEPTH"
  shows "validate_values (length vs) (values_code vs @ r) depth = Inr r"
  using assms
proof (induction vs)
  case (Cons v vs)
  have "validate_value (key_code v @ r) depth = Inr r" for r
    using Cons.prems(1) [of v] Cons.prems(2,3) by simp
  moreover have "validate_values (length vs) (values_code vs @ r) depth = Inr r"
    by (rule Cons.IH) (use Cons.prems in auto)
  ultimately show ?case by simp
qed simp

lemma validate_document_code:
  assumes "\<And>name v r. (name, v) \<in> set d \<Longrightarrow> length (key_code v) < 2 ^ 32 \<Longrightarrow> depth + nesting v \<le> MAX_KEY_NESTING_DEPTH
      \<Longrightarrow> validate_value (key_code v @ r) depth = Inr r"
    and "document_ok d" "length (entries_code d) < 2 ^ 32" "depth + entries_nesting d \<le> MAX_KEY_NESTING_DEPTH"
  shows "validate_document (be_bytes 4 (length d) @ entries_code d @ r) depth = Inr r"
proof -
  have "length d < 2 ^ 32" using length_codes(1) [of d] assms(3) by linarith
  then show ?thesis
    using assms(4) validate_entries_code [OF assms] by (simp add: validate_document.simps key_read_u32_append)
qed

definition accepted :: "BsonValue \<Rightarrow> nat \<Rightarrow> bool" where
  "accepted v depth \<longleftrightarrow> (\<forall>r. validate_value (key_code v @ r) depth = Inr r)"

lemma accepted_simple:
  assumes "value_ok v" "length (key_code v) < 2 ^ 32" "depth \<le> MAX_KEY_NESTING_DEPTH"
    and "\<And>d. v \<noteq> Document d" "\<And>vs. v \<noteq> Array vs" "\<And>c d. v \<noteq> JavaScript c (Some d)"
  shows "accepted v depth"
proof (cases "canonical_number v")
  case (Some n)
  have "validate_number (number_code n @ r) = Inr r" for r
    by (rule validate_number_code) (use value_finite_ok assms(1) Some in auto)
  then show ?thesis using assms(3) Some by (simp add: accepted_def validate_value.simps key_code.simps)
next
  case None
  show ?thesis
  proof (cases "binary_parts v")
    case (Some p)
    then show ?thesis using assms(2,3) None
      by (cases p) (simp add: accepted_def validate_value.simps key_code.simps key_read_bytes_block length_block_code)
  next
    case bin: None
    show ?thesis using assms None bin
      by (cases v rule: type_rank.cases; simp add: accepted_def validate_value.simps key_code.simps)
        (auto simp: key_read_string_block length_block_code key_take_def validate_regex_def)
  qed
qed

lemma accepted_value:
  "value_ok v \<Longrightarrow> length (key_code v) < 2 ^ 32 \<Longrightarrow> depth + nesting v \<le> MAX_KEY_NESTING_DEPTH \<Longrightarrow> accepted v depth"
proof (induction v arbitrary: depth)
  case (Document d)
  have "validate_document (be_bytes 4 (length d) @ entries_code d @ r) (Suc depth) = Inr r" for r
  proof (rule validate_document_code)
    fix name v r
    assume v: "(name, v) \<in> set d" "length (key_code v) < 2 ^ 32" "Suc depth + nesting v \<le> MAX_KEY_NESTING_DEPTH"
    then show "validate_value (key_code v @ r) (Suc depth) = Inr r"
      using Document.IH [of "(name, v)" v "Suc depth"] Document.prems(1) by (auto simp: document_ok_iff accepted_def)
  qed (use Document.prems in \<open>auto simp: key_code.simps\<close>)
  then show ?case using Document.prems(3) by (simp add: accepted_def key_code.simps validate_value.simps)
next
  case (Array vs)
  have "length vs < 2 ^ 32" using Array.prems(2) length_codes(2) [of vs] by (simp add: key_code.simps)
  moreover have "validate_values (length vs) (values_code vs @ r) (Suc depth) = Inr r" for r
  proof (rule validate_values_code)
    fix v r
    assume "v \<in> set vs" "length (key_code v) < 2 ^ 32" "Suc depth + nesting v \<le> MAX_KEY_NESTING_DEPTH"
    then show "validate_value (key_code v @ r) (Suc depth) = Inr r"
      using Array.IH [of v "Suc depth"] Array.prems(1) by (auto simp: array_ok_iff accepted_def)
  qed (use Array.prems in \<open>auto simp: key_code.simps\<close>)
  ultimately show ?case using Array.prems(3)
    by (simp add: accepted_def key_code.simps validate_value.simps key_read_u32_append)
next
  case (JavaScript c scope)
  show ?case
  proof (cases scope)
    case None
    then show ?thesis using JavaScript.prems by (intro accepted_simple) simp_all
  next
    case (Some d)
    have "validate_document (be_bytes 4 (length d) @ entries_code d @ r) (Suc depth) = Inr r" for r
    proof (rule validate_document_code)
      fix name v r
      assume v: "(name, v) \<in> set d" "length (key_code v) < 2 ^ 32" "Suc depth + nesting v \<le> MAX_KEY_NESTING_DEPTH"
      then show "validate_value (key_code v @ r) (Suc depth) = Inr r"
        using JavaScript.IH [of d "(name, v)" v "Suc depth"] JavaScript.prems(1) Some
        by (auto simp: document_ok_iff accepted_def)
    qed (use JavaScript.prems Some in \<open>auto simp: key_code.simps\<close>)
    then show ?thesis using JavaScript.prems Some
      by (simp add: accepted_def key_code.simps validate_value.simps key_read_string_block length_block_code)
  qed
qed (rule accepted_simple; simp)+

section \<open>Properties\<close>

definition key_fits :: "BsonValue \<Rightarrow> bool" where
  "key_fits v \<longleftrightarrow> nesting v \<le> MAX_KEY_NESTING_DEPTH \<and> KEY_HEADER_LEN + length (key_code v) \<le> BSON_MAX_CANONICAL_KEY_BYTES"

lemma key_encode_cases:
  "key_fits v \<Longrightarrow> key_encode v = Inr (key_header @ key_code v)"
  "\<not> key_fits v \<Longrightarrow> key_encode v = Inl (KeyError NestingLimit) \<and> nesting v > MAX_KEY_NESTING_DEPTH
    \<or> key_encode v = Inl (KeyError Oversized) \<and> KEY_HEADER_LEN + length (key_code v) > BSON_MAX_CANONICAL_KEY_BYTES"
  using key_encode_emits [of v] by (auto simp: emits_def key_fits_def length_key_header split: if_splits)

lemma key_encode_Inr: "key_encode v = Inr k \<Longrightarrow> key_fits v \<and> k = key_header @ key_code v"
  using key_encode_cases [of v] by (cases "key_fits v") auto

lemma key_fits_length: "key_fits v \<Longrightarrow> length (key_code v) < 2 ^ 32"
  by (simp add: key_fits_def BSON_MAX_CANONICAL_KEY_BYTES_def)

text \<open>C6: Canonical keys identify values: whenever two values have keys, the keys are the same bytes exactly
  when the values are semantically equal, numbers of different families and UUIDs included.\<close>

theorem bson_key_identity:
  assumes "value_ok a" "value_ok b" "key_encode a = Inr x" "key_encode b = Inr y"
  shows "x = y \<longleftrightarrow> bson_eq a b"
proof -
  have "same_code a b" using same_code_value assms by blast
  moreover have "key_fits a" "key_fits b" "x = key_header @ key_code a" "y = key_header @ key_code b"
    using key_encode_Inr assms(3,4) by blast+
  ultimately show ?thesis using key_fits_length unfolding same_code_def
    by (metis append_Nil2 same_append_eq)
qed

lemmas key_limits = MAX_KEY_NESTING_DEPTH_def BSON_MAX_CANONICAL_KEY_BYTES_def KEY_HEADER_LEN_def KEY_MAGIC_def

lemma sample_keys:
  "key_encode (Uuid (replicate 16 0) Standard) = Inr (key_header @ key_code (Uuid (replicate 16 0) Standard))"
  "key_encode (Binary 4 (replicate 16 0)) = Inr (key_header @ key_code (Binary 4 (replicate 16 0)))"
  "key_encode (Array [String [97], Null]) = Inr (key_header @ key_code (Array [String [97], Null]))"
  by (rule key_encode_cases; simp add: key_fits_def key_limits key_code.simps length_block_code encoded_parts_def)+

theorem bson_key_identity_witness:
  "key_encode (Uuid (replicate 16 0) Standard) = key_encode (Binary 4 (replicate 16 0))
    \<and> key_encode (Uuid (replicate 16 0) Standard) \<noteq> key_encode (Array [String [97], Null])"
  using sample_keys
    bson_key_identity [OF _ _ sample_keys(1,2)] bson_key_identity [OF _ _ sample_keys(1,3)]
  by (simp add: bson_eq.simps encoded_parts_def)

text \<open>C39: Encoding a key never panics.  It succeeds exactly for values that nest at most 100 levels deep and
  whose key fits 16 MiB; otherwise it reports the limit that is exceeded.\<close>

theorem bson_key_encode_outcome:
  "(case key_encode v of
      Inr k \<Rightarrow> nesting v \<le> MAX_KEY_NESTING_DEPTH \<and> length k \<le> BSON_MAX_CANONICAL_KEY_BYTES
    | Inl (KeyError e) \<Rightarrow>
        e = NestingLimit \<and> nesting v > MAX_KEY_NESTING_DEPTH
        \<or> e = Oversized \<and> length key_header + length (key_code v) > BSON_MAX_CANONICAL_KEY_BYTES
    | Inl KeyPanic \<Rightarrow> False)"
  using key_encode_cases [of v] by (cases "key_fits v") (auto simp: key_fits_def length_key_header)

text \<open>C38: The validator of stored keys accepts every key the encoder makes and returns it unchanged, and it
  reports a key with anything appended as invalid.\<close>

theorem bson_key_stored_roundtrip:
  assumes "value_ok v" "key_encode v = Inr k"
  shows "key_from_bytes k = Inr k
    \<and> (tail \<noteq> [] \<and> length (k @ tail) \<le> BSON_MAX_CANONICAL_KEY_BYTES \<longrightarrow> key_from_bytes (k @ tail) = Inl InvalidCanonicalKey)"
proof -
  have k: "key_fits v" "k = key_header @ key_code v" using key_encode_Inr assms(2) by blast+
  have v: "accepted v 0" using accepted_value assms(1) key_fits_length [OF k(1)] k(1) by (simp add: key_fits_def)
  have "be_nat (be_bytes 4 BSON_KEY_ENCODING_VERSION) = BSON_KEY_ENCODING_VERSION"
    by (simp add: be_nat_be_bytes BSON_KEY_ENCODING_VERSION_def)
  then have "key_from_bytes (k @ t) = (if t \<noteq> [] then Inl InvalidCanonicalKey else Inr (k @ t))"
    if "length (k @ t) \<le> BSON_MAX_CANONICAL_KEY_BYTES" for t
    using that k(2) v
    by (simp add: key_from_bytes_def key_header_def KEY_HEADER_LEN_def accepted_def)
  from this [of "[]"] this [of tail] show ?thesis using k by (simp add: key_fits_def length_key_header)
qed

theorem bson_key_stored_roundtrip_witness:
  "\<exists>k. key_encode (Array [String [97], Null]) = Inr k \<and> key_from_bytes k = Inr k
    \<and> key_from_bytes (k @ [0]) = Inl InvalidCanonicalKey"
  using bson_key_stored_roundtrip [OF _ sample_keys(3), of "[0]"] sample_keys(3)
  by (simp add: key_limits key_code.simps length_block_code key_header_def)

end
