(* ===== verification/Bson_Matcher.thy ===== *)
theory Bson_Matcher
  imports Bson_Order
begin

text \<open>
  Document queries, \<^verbatim>\<open>document/matcher.rs\<close>: the compiled form of a query, its evaluation with a
  bounded amount of work, and the conditions a query hands to the index planner.  The regular
  expression engine, an external crate, is a parameter, and so is the request check, a closure that
  may refuse at any of its calls: it is a function of the number of calls made before.
\<close>

section \<open>Compiled queries\<close>

definition ascii :: "string \<Rightarrow> bytes" where
  "ascii s = map of_char s"

definition MAX_QUERY_BYTES :: nat where "MAX_QUERY_BYTES = 1024 * 1024"
definition MAX_QUERY_NODES :: nat where "MAX_QUERY_NODES = 4096"
definition MAX_QUERY_DEPTH :: nat where "MAX_QUERY_DEPTH = 100"
definition MAX_PATH_CANDIDATES :: nat where "MAX_PATH_CANDIDATES = 16384"
definition MAX_MATCH_STEPS :: nat where "MAX_MATCH_STEPS = 1000000"
definition MAX_REGEX_COUNT :: nat where "MAX_REGEX_COUNT = 32"
definition MAX_REGEX_BYTES :: nat where "MAX_REGEX_BYTES = 4096"

text \<open>Errors: a query error with its code, a resource limit, a refusal of the request check, a panic.\<close>

datatype MatchError = QueryError int | MatchLimit | Refused EngineErrorKind | MatchPanic

fun error_kind :: "MatchError \<Rightarrow> EngineErrorKind option" where
  "error_kind (QueryError code) =
    Some (if code = 115 then Unsupported else if code = 14 then TypeMismatch else InvalidQuery)"
| "error_kind MatchLimit = Some LimitExceeded"
| "error_kind (Refused e) = Some e"
| "error_kind MatchPanic = None"

datatype 're CompiledRegex = CompiledRegex (identity: "bytes \<times> bytes") (expression: "'re option")

datatype Logical = LogicalAnd | LogicalOr | LogicalNor

datatype 're DocumentMatcher = DocumentMatcher (clauses: "'re Clause list") (retained_bytes: nat)
  and 're Clause =
    Field "bytes list" bool "'re Predicate list"
  | LogicalClause Logical "'re DocumentMatcher list"
  and 're Predicate =
    PEqual BsonValue
  | PNotEqual BsonValue
  | PRange BsonValue bool bool
  | PExists bool
  | PIn "'re Member list" bool
  | PAll "'re Member list"
  | PElement "'re Element"
  | PNot "'re Predicate list"
  | PRegex "'re CompiledRegex"
  | PSize nat
  | PTypes "bytes list"
  | PMod int int
  and 're Member =
    MLiteral BsonValue
  | MRegex "'re CompiledRegex"
  | MElement "'re Element"
  and 're Element =
    EFields "'re Predicate list"
  | EDocument "'re DocumentMatcher"

text \<open>The external regular-expression engine.  It parses patterns into trees, of which \<^verbatim>\<open>regex_compat.rs\<close>
  reads the constructors below; those it does not read carry an opaque value.  \<open>build\<close> is the bounded builder
  of a whole pattern, \<open>build_atom\<close> the case-insensitive one of a single character class.\<close>

datatype Assertion =
    StartText | EndText | EndTextIgnoreTrailingNewlines bool | StartLine bool | EndLine bool
  | WordBoundary | NotWordBoundary | OtherAssertion nat

datatype LookAround = LookAhead | LookAheadNeg | LookBehind | LookBehindNeg

datatype Expr =
    EmptyExpr
  | AnyExpr nat
  | LiteralExpr bytes bool
  | AssertionExpr Assertion
  | Concat "Expr list"
  | Alt "Expr list"
  | GroupExpr Expr
  | LookAroundExpr Expr LookAround
  | Repeat Expr nat nat bool
  | Delegate bytes bool
  | Backref nat bool
  | AtomicGroup Expr
  | Conditional Expr Expr Expr
  | BackrefExistsCondition nat "nat option"
  | OtherExpr nat

record 're RegexEngine =
  parse_tree :: "bytes \<Rightarrow> Expr option"
  to_str :: "Expr \<Rightarrow> bytes"
  build :: "bytes \<Rightarrow> 're option"
  build_atom :: "bytes \<Rightarrow> 're option"
  is_match :: "'re \<Rightarrow> bytes \<Rightarrow> bool option"

text \<open>The request check and the two bounds of an evaluation.\<close>

record control =
  request_check :: "nat \<Rightarrow> EngineErrorKind option"
  max_steps :: nat
  max_candidates :: nat

section \<open>Numbers and types of operands\<close>

text \<open>A finite double rounded towards zero.\<close>

definition f64_trunc :: "f64 \<Rightarrow> int" where
  "f64_trunc v = (if f64_scaled v < 0 then - (- f64_scaled v div 2 ^ 1074) else f64_scaled v div 2 ^ 1074)"

definition finite_integer :: "CanonicalFinite \<Rightarrow> bool \<Rightarrow> int option" where
  "finite_integer value trunc =
    (let numerator = coefficient value
           * (if exponent_two value \<ge> 0 then 2 ^ nat (exponent_two value) else 1)
           * (if exponent_five value \<ge> 0 then 5 ^ nat (exponent_five value) else 1);
         denominator = (if exponent_two value \<ge> 0 then 1 else 2 ^ nat (- exponent_two value))
           * (if exponent_five value \<ge> 0 then 1 else 5 ^ nat (- exponent_five value));
         magnitude = numerator div denominator;
         result = (if is_negative value then - int magnitude else int magnitude)
     in if \<not> trunc \<and> numerator mod denominator \<noteq> 0 then None
        else if magnitude \<ge> 2 ^ 64 then None
        else if - (2 ^ 63) \<le> result \<and> result < 2 ^ 63 then Some result else None)"

fun integer :: "BsonValue \<Rightarrow> bool \<Rightarrow> int option" where
  "integer (Int32 v) trunc = Some (sint v)"
| "integer (Int64 v) trunc = Some (sint v)"
| "integer (Double v) trunc =
    (let i = f64_trunc v in
     if \<not> f64_is_nan v \<and> \<not> f64_is_infinite v \<and> (trunc \<or> i * 2 ^ 1074 = f64_scaled v)
       \<and> - (2 ^ 63) \<le> i \<and> i < 2 ^ 63
     then Some i else None)"
| "integer v trunc =
    (case canonical_number v of Some (Finite f) \<Rightarrow> finite_integer f trunc | _ \<Rightarrow> None)"

fun truthy :: "BsonValue \<Rightarrow> bool" where
  "truthy Null = False"
| "truthy (Boolean b) = b"
| "truthy (Int32 v) = (v \<noteq> 0)"
| "truthy (Int64 v) = (v \<noteq> 0)"
| "truthy (Double v) = (\<not> f64_is_zero v)"
| "truthy (String s) = (s \<noteq> [])"
| "truthy (Array vs) = (vs \<noteq> [])"
| "truthy (Document d) = (d \<noteq> [])"
| "truthy (Binary _ bs) = (bs \<noteq> [])"
| "truthy (JavaScript c _) = (c \<noteq> [])"
| "truthy _ = True"

definition TYPE_NAMES :: "(int \<times> bytes) list" where
  "TYPE_NAMES = map (\<lambda>(n, s). (n, ascii s))
    [(- 1, ''minKey''), (1, ''double''), (2, ''string''), (3, ''object''), (4, ''array''), (5, ''binData''),
     (6, ''undefined''), (7, ''objectId''), (8, ''bool''), (9, ''date''), (10, ''null''), (11, ''regex''),
     (12, ''dbPointer''), (13, ''javascript''), (14, ''symbol''), (15, ''javascriptWithScope''), (16, ''int''),
     (17, ''timestamp''), (18, ''long''), (19, ''decimal''), (127, ''maxKey'')]"

fun type_name :: "BsonValue \<Rightarrow> string" where
  "type_name MinKey = ''minKey''"
| "type_name MaxKey = ''maxKey''"
| "type_name Null = ''null''"
| "type_name (Double _) = ''double''"
| "type_name (Int32 _) = ''int''"
| "type_name (Int64 v) = (if - (2 ^ 31) \<le> sint v \<and> sint v < 2 ^ 31 then ''int'' else ''long'')"
| "type_name (Decimal128 _) = ''decimal''"
| "type_name (String _) = ''string''"
| "type_name (Document _) = ''object''"
| "type_name (Array _) = ''array''"
| "type_name (Binary _ _) = ''binData''"
| "type_name (Uuid _ _) = ''binData''"
| "type_name (ObjectId _) = ''objectId''"
| "type_name (Boolean _) = ''bool''"
| "type_name (DateTime _) = ''date''"
| "type_name (Timestamp _ _) = ''timestamp''"
| "type_name (RegularExpression _ _) = ''regex''"
| "type_name (JavaScript _ (Some _)) = ''javascriptWithScope''"
| "type_name (JavaScript _ None) = ''javascript''"

definition type_matches :: "BsonValue \<Rightarrow> bytes \<Rightarrow> bool" where
  "type_matches v name =
    (if name = ascii ''number'' then canonical_number v \<noteq> None else ascii (type_name v) = name)"

section \<open>Evaluation\<close>

record Work =
  steps :: nat
  calls :: nat

definition work_check :: "control \<Rightarrow> Work \<Rightarrow> MatchError + Work" where
  "work_check C w =
    (case request_check C (calls w) of Some e \<Rightarrow> Inl (Refused e) | None \<Rightarrow> Inr (w\<lparr>calls := calls w + 1\<rparr>))"

definition work_step :: "control \<Rightarrow> Work \<Rightarrow> MatchError + Work" where
  "work_step C w =
    and_then (work_check C w) (\<lambda>w.
    if steps w + 1 > max_steps C then Inl MatchLimit else Inr (w\<lparr>steps := steps w + 1\<rparr>))"

datatype Root = RootDocument BsonDocument | RootValue BsonValue

type_synonym Candidate = "BsonValue option \<times> bool"

definition is_digit :: "byte \<Rightarrow> bool" where
  "is_digit b \<longleftrightarrow> 48 \<le> b \<and> b \<le> 57"

definition parse_usize :: "bytes \<Rightarrow> nat option" where
  "parse_usize part =
    (let n = foldl (\<lambda>n b. 10 * n + (unat b - 48)) 0 part in if n < 2 ^ 64 then Some n else None)"

definition array_index :: "bytes \<Rightarrow> nat option" where
  "array_index part =
    (if part = ascii ''0'' \<or> (part \<noteq> [] \<and> 49 \<le> hd part \<and> hd part \<le> 57 \<and> list_all is_digit part)
     then parse_usize part else None)"

definition candidate :: "control \<Rightarrow> Candidate list \<Rightarrow> BsonValue option \<Rightarrow> bool \<Rightarrow> Work \<Rightarrow> MatchError + Candidate list \<times> Work" where
  "candidate C output value indexed w =
    (if length output = max_candidates C then Inl MatchLimit else Inr (output @ [(value, indexed)], w))"

text \<open>The first field of a name, checking the request before each field.\<close>

fun find_field :: "control \<Rightarrow> BsonDocument \<Rightarrow> bytes \<Rightarrow> Work \<Rightarrow> MatchError + BsonValue option \<times> Work" where
  "find_field C [] part w = Inr (None, w)"
| "find_field C ((name, value) # rest) part w =
    and_then (work_step C w) (\<lambda>w.
    if name = part then Inr (Some value, w) else find_field C rest part w)"

text \<open>A loop over a list that threads what it has built, and stops at the first error.\<close>

fun fold_try :: "('a \<Rightarrow> 's \<Rightarrow> 'e + 's) \<Rightarrow> 'a list \<Rightarrow> 's \<Rightarrow> 'e + 's" where
  "fold_try f [] s = Inr s"
| "fold_try f (x # xs) s = and_then (f x s) (fold_try f xs)"

lemma fold_try_cong [fundef_cong]:
  assumes "xs = ys" "s = t" "\<And>x s. x \<in> set ys \<Longrightarrow> f x s = g x s"
  shows "fold_try f xs s = fold_try g ys t"
proof -
  have "(\<And>x s. x \<in> set ys \<Longrightarrow> f x s = g x s) \<Longrightarrow> fold_try f ys t = fold_try g ys t" for t
  proof (induction ys arbitrary: t)
    case (Cons y ys)
    then have "fold_try f ys = fold_try g ys" by (intro ext) simp
    with Cons.prems show ?case by simp
  qed simp
  with assms show ?thesis by simp
qed

function resolve :: "control \<Rightarrow> Root \<Rightarrow> bytes list \<Rightarrow> Candidate list \<Rightarrow> Work \<Rightarrow> MatchError + Candidate list \<times> Work" where
  "resolve C node parts output w =
    and_then (work_step C w) (\<lambda>w.
    case parts of
      [] \<Rightarrow> (case node of RootValue v \<Rightarrow> candidate C output (Some v) False w | _ \<Rightarrow> Inl (QueryError 2))
    | part # remaining \<Rightarrow>
        (case (case node of RootDocument d \<Rightarrow> Document d | RootValue v \<Rightarrow> v) of
           Document d \<Rightarrow>
             and_then (find_field C d part w) (\<lambda>(found, w).
             case found of
               Some v \<Rightarrow> resolve C (RootValue v) remaining output w
             | None \<Rightarrow> candidate C output None False w)
         | Array values \<Rightarrow>
             and_then
               (case array_index part of
                  Some index \<Rightarrow>
                    (if index < length values then
                       let v = values ! index in
                       if remaining = [] then candidate C output (Some v) True w
                       else (case v of
                           Document _ \<Rightarrow> resolve C (RootValue v) remaining output w
                         | Array _ \<Rightarrow> resolve C (RootValue v) remaining output w
                         | _ \<Rightarrow> Inr (output, w))
                     else Inr (output, w))
                | None \<Rightarrow> Inr (output, w)) (\<lambda>(output, w).
             fold_try (\<lambda>v (output, w).
               and_then (work_step C w) (\<lambda>w.
               case v of
                 Document d \<Rightarrow> resolve C (RootDocument d) parts output w
               | _ \<Rightarrow> Inr (output, w))) values (output, w))
         | _ \<Rightarrow> candidate C output None False w))"
  by pat_completeness auto
termination
  by (relation "measures [\<lambda>(C, node, parts, output, w). length parts,
      \<lambda>(C, node, parts, output, w). case node of RootValue (Array _) \<Rightarrow> 1 | _ \<Rightarrow> 0]")
    (auto split: Root.splits BsonValue.splits)

declare resolve.simps [simp del]

text \<open>A loop that ends at the first element with the answer \<open>stop\<close>.\<close>

fun search :: "bool \<Rightarrow> ('a \<Rightarrow> 'w \<Rightarrow> 'e + bool \<times> 'w) \<Rightarrow> 'a list \<Rightarrow> 'w \<Rightarrow> 'e + bool \<times> 'w" where
  "search stop f [] w = Inr (\<not> stop, w)"
| "search stop f (x # xs) w =
    and_then (f x w) (\<lambda>(b, w). if b = stop then Inr (stop, w) else search stop f xs w)"

definition equal_value :: "control \<Rightarrow> BsonValue option \<Rightarrow> BsonValue \<Rightarrow> bool \<Rightarrow> Work \<Rightarrow> MatchError + bool \<times> Work" where
  "equal_value C actual expected exact w =
    and_then (work_step C w) (\<lambda>w.
    case actual of
      None \<Rightarrow> Inr (expected = Null, w)
    | Some a \<Rightarrow>
        and_then (work_check C w) (\<lambda>w.
        if bson_eq a expected then Inr (True, w)
        else if \<not> exact then
          (case a of
             Array values \<Rightarrow>
               search True (\<lambda>v w.
                 and_then (work_step C w) (\<lambda>w.
                 and_then (work_check C w) (\<lambda>w. Inr (bson_eq v expected, w)))) values w
           | _ \<Rightarrow> Inr (False, w))
        else Inr (False, w)))"

definition scalar_or_members ::
    "control \<Rightarrow> BsonValue option \<Rightarrow> bool \<Rightarrow> bool \<Rightarrow> (BsonValue option \<Rightarrow> Work \<Rightarrow> MatchError + bool \<times> Work)
      \<Rightarrow> Work \<Rightarrow> MatchError + bool \<times> Work" where
  "scalar_or_members C actual exact include_array predicate w =
    (case actual of
       Some (Array values) \<Rightarrow>
         if \<not> exact then
           and_then (if include_array then predicate actual w else Inr (False, w)) (\<lambda>(b, w).
           if b then Inr (True, w)
           else search True (\<lambda>v w. and_then (work_step C w) (\<lambda>w. predicate (Some v) w)) values w)
         else predicate actual w
     | _ \<Rightarrow> predicate actual w)"

definition range_predicate ::
    "control \<Rightarrow> BsonValue \<Rightarrow> bool \<Rightarrow> bool \<Rightarrow> BsonValue option \<Rightarrow> Work \<Rightarrow> MatchError + bool \<times> Work" where
  "range_predicate C operand upward inclusive value w =
    and_then (work_step C w) (\<lambda>w.
    let v = (case value of None \<Rightarrow> Null | Some v \<Rightarrow> v);
        crosses_types = (operand = MinKey \<or> operand = MaxKey)
    in if \<not> crosses_types \<and> type_rank v \<noteq> type_rank operand then Inr (False, w)
       else if canonical_number v \<noteq> None \<and> canonical_number operand \<noteq> None
         \<and> (canonical_number v = Some NaN) \<noteq> (canonical_number operand = Some NaN) then Inr (False, w)
       else
         case bson_cmp v operand of
           None \<Rightarrow> Inl MatchPanic
         | Some comparison \<Rightarrow>
             and_then (work_check C w) (\<lambda>w.
             Inr (if comparison = Equal then inclusive
                  else if upward then comparison = Greater
                  else comparison = Less, w)))"

definition regex_predicate ::
    "control \<Rightarrow> 're RegexEngine \<Rightarrow> 're CompiledRegex \<Rightarrow> BsonValue option \<Rightarrow> Work \<Rightarrow> MatchError + bool \<times> Work" where
  "regex_predicate C E regex value w =
    and_then (work_step C w) (\<lambda>w.
    let result =
      (case value of
         Some (RegularExpression p opts) \<Rightarrow> Inr ((p, opts) = identity regex)
       | Some (String s) \<Rightarrow>
           (case expression regex of
              Some e \<Rightarrow> (case is_match E e s of Some b \<Rightarrow> Inr b | None \<Rightarrow> Inl MatchLimit)
            | None \<Rightarrow> Inr False)
       | _ \<Rightarrow> Inr False)
    in and_then (work_check C w) (\<lambda>w. and_then result (\<lambda>b. Inr (b, w))))"

definition regex_evaluate ::
    "control \<Rightarrow> 're RegexEngine \<Rightarrow> 're CompiledRegex \<Rightarrow> BsonValue option \<Rightarrow> bool \<Rightarrow> Work
      \<Rightarrow> MatchError + bool \<times> Work" where
  "regex_evaluate C E regex actual exact w =
    scalar_or_members C actual exact False (regex_predicate C E regex) w"

fun negative :: "'re Predicate \<Rightarrow> bool" where
  "negative (PNotEqual _) = True"
| "negative (PIn _ neg) = neg"
| "negative (PNot _) = True"
| "negative (PExists b) = (\<not> b)"
| "negative _ = False"

definition types_predicate :: "bytes list \<Rightarrow> BsonValue option \<Rightarrow> Work \<Rightarrow> MatchError + bool \<times> Work" where
  "types_predicate names value w =
    Inr (case value of None \<Rightarrow> False | Some v \<Rightarrow> list_ex (type_matches v) names, w)"

text \<open>\<open>checked_rem\<close> is \<open>None\<close> on a zero divisor and on the overflow of \<open>i64::MIN % -1\<close>; the remainder of
  the others has the sign of the dividend.\<close>

definition checked_rem :: "int \<Rightarrow> int \<Rightarrow> int option" where
  "checked_rem a b =
    (if b = 0 \<or> (a = - (2 ^ 63) \<and> b = - 1) then None
     else Some (if a < 0 then - (- a mod \<bar>b\<bar>) else a mod \<bar>b\<bar>))"

definition mod_predicate :: "int \<Rightarrow> int \<Rightarrow> BsonValue option \<Rightarrow> Work \<Rightarrow> MatchError + bool \<times> Work" where
  "mod_predicate divisor remainder value w =
    Inr (case value of
        None \<Rightarrow> False
      | Some v \<Rightarrow>
          (case integer v True of
             None \<Rightarrow> False
           | Some i \<Rightarrow> (case checked_rem i divisor of None \<Rightarrow> 0 | Some r \<Rightarrow> r) = remainder), w)"

definition node_value :: "Root \<Rightarrow> BsonValue" where
  "node_value node = (case node of RootDocument d \<Rightarrow> Document d | RootValue v \<Rightarrow> v)"

definition is_value_array :: "Root \<Rightarrow> bool" where
  "is_value_array node = (case node of RootValue (Array _) \<Rightarrow> True | _ \<Rightarrow> False)"

text \<open>The candidates of a field clause; indexing the first part of an empty path is a panic.\<close>

definition field_candidates ::
    "control \<Rightarrow> Root \<Rightarrow> bool \<Rightarrow> bytes list \<Rightarrow> Work \<Rightarrow> MatchError + Candidate list \<times> Work" where
  "field_candidates C node array_document path w =
    (if array_document \<and> is_value_array node then
       (case path of
          [] \<Rightarrow> Inl MatchPanic
        | part # _ \<Rightarrow>
            if array_index part = None then candidate C [] None False w else resolve C node path [] w)
     else resolve C node path [] w)"

text \<open>Some element of an array value passes.\<close>

definition any_element ::
    "control \<Rightarrow> (BsonValue \<Rightarrow> Work \<Rightarrow> MatchError + bool \<times> Work) \<Rightarrow> BsonValue option \<Rightarrow> Work \<Rightarrow> MatchError + bool \<times> Work" where
  "any_element C f actual w =
    (case actual of
       Some (Array values) \<Rightarrow> search True (\<lambda>v w. and_then (work_step C w) (f v)) values w
     | _ \<Rightarrow> Inr (False, w))"

definition negate :: "MatchError + bool \<times> Work \<Rightarrow> MatchError + bool \<times> Work" where
  "negate r = and_then r (\<lambda>(b, w). Inr (\<not> b, w))"

text \<open>The loops run over the evaluators of the parts; a part that the loop inspects goes with its evaluator.\<close>

primrec matcher_evaluate :: "control \<Rightarrow> 're RegexEngine \<Rightarrow> 're DocumentMatcher \<Rightarrow> Root \<Rightarrow> bool \<Rightarrow> bool \<Rightarrow> Work
      \<Rightarrow> MatchError + bool \<times> Work"
  and clause_evaluate :: "control \<Rightarrow> 're RegexEngine \<Rightarrow> 're Clause \<Rightarrow> Root \<Rightarrow> bool \<Rightarrow> bool \<Rightarrow> Work
      \<Rightarrow> MatchError + bool \<times> Work"
  and predicate_evaluate :: "control \<Rightarrow> 're RegexEngine \<Rightarrow> 're Predicate \<Rightarrow> BsonValue option \<Rightarrow> bool \<Rightarrow> Work
      \<Rightarrow> MatchError + bool \<times> Work"
  and member_evaluate :: "control \<Rightarrow> 're RegexEngine \<Rightarrow> 're Member \<Rightarrow> BsonValue option \<Rightarrow> bool \<Rightarrow> Work
      \<Rightarrow> MatchError + bool \<times> Work"
  and element_evaluate :: "control \<Rightarrow> 're RegexEngine \<Rightarrow> 're Element \<Rightarrow> BsonValue option \<Rightarrow> Work
      \<Rightarrow> MatchError + bool \<times> Work" where
  "matcher_evaluate C E (DocumentMatcher cs rb) = (\<lambda>node exact_id array_document w.
    and_then (work_step C w)
      (search False (\<lambda>c w. and_then (work_step C w) (c node exact_id array_document))
        (map (clause_evaluate C E) cs)))"
| "clause_evaluate C E (LogicalClause kind children) = (\<lambda>node exact_id array_document w.
    let found = search (kind \<noteq> LogicalAnd) (\<lambda>m. m node exact_id array_document)
      (map (matcher_evaluate C E) children) w
    in if kind = LogicalNor then negate found else found)"
| "clause_evaluate C E (Field path field_id predicates) = (\<lambda>node exact_id array_document w.
    and_then (field_candidates C node array_document path w) (\<lambda>(candidates, w).
    search False (\<lambda>(p, evaluate).
      search (\<not> negative p) (\<lambda>(value, indexed). evaluate value (exact_id \<and> field_id \<or> indexed)) candidates)
      (map (\<lambda>p. (p, predicate_evaluate C E p)) predicates) w))"
| "predicate_evaluate C E (PEqual v) = (\<lambda>actual exact w.
    and_then (work_step C w) (equal_value C actual v exact))"
| "predicate_evaluate C E (PNotEqual v) = (\<lambda>actual exact w.
    and_then (work_step C w) (\<lambda>w. negate (equal_value C actual v exact w)))"
| "predicate_evaluate C E (PExists b) = (\<lambda>actual exact w.
    and_then (work_step C w) (\<lambda>w. Inr ((actual \<noteq> None) = b, w)))"
| "predicate_evaluate C E (PRange operand upward inclusive) = (\<lambda>actual exact w.
    and_then (work_step C w)
      (scalar_or_members C actual exact True (range_predicate C operand upward inclusive)))"
| "predicate_evaluate C E (PIn members neg) = (\<lambda>actual exact w.
    and_then (work_step C w) (\<lambda>w.
    let found = search True (\<lambda>m. m actual exact) (map (member_evaluate C E) members) w
    in if neg then negate found else found))"
| "predicate_evaluate C E (PAll members) = (\<lambda>actual exact w.
    and_then (work_step C w) (\<lambda>w.
    if members = [] then Inr (False, w)
    else search False (\<lambda>(m, evaluate).
      scalar_or_members C actual exact False (\<lambda>value.
        case m of
          MElement _ \<Rightarrow> evaluate actual exact
        | MRegex _ \<Rightarrow> evaluate value exact
        | MLiteral _ \<Rightarrow> evaluate value True))
      (map (\<lambda>m. (m, member_evaluate C E m)) members) w))"
| "predicate_evaluate C E (PElement e) = (\<lambda>actual exact w.
    and_then (work_step C w) (element_evaluate C E e actual))"
| "predicate_evaluate C E (PNot predicates) = (\<lambda>actual exact w.
    and_then (work_step C w) (\<lambda>w.
    negate (search False (\<lambda>q. q actual exact) (map (predicate_evaluate C E) predicates) w)))"
| "predicate_evaluate C E (PRegex regex) = (\<lambda>actual exact w.
    and_then (work_step C w) (regex_evaluate C E regex actual exact))"
| "predicate_evaluate C E (PSize n) = (\<lambda>actual exact w.
    and_then (work_step C w) (\<lambda>w.
    Inr (case actual of Some (Array values) \<Rightarrow> length values = n | _ \<Rightarrow> False, w)))"
| "predicate_evaluate C E (PTypes names) = (\<lambda>actual exact w.
    and_then (work_step C w) (scalar_or_members C actual exact True (types_predicate names)))"
| "predicate_evaluate C E (PMod divisor remainder) = (\<lambda>actual exact w.
    and_then (work_step C w) (scalar_or_members C actual exact False (mod_predicate divisor remainder)))"
| "member_evaluate C E (MLiteral v) = (\<lambda>actual exact. equal_value C actual v exact)"
| "member_evaluate C E (MRegex regex) = (\<lambda>actual exact. regex_evaluate C E regex actual exact)"
| "member_evaluate C E (MElement e) = (\<lambda>actual exact. element_evaluate C E e actual)"
| "element_evaluate C E (EFields predicates) =
    any_element C (\<lambda>v. search False (\<lambda>q. q (Some v) True) (map (predicate_evaluate C E) predicates))"
| "element_evaluate C E (EDocument m) =
    any_element C (\<lambda>v w.
      case v of
        Document d \<Rightarrow> matcher_evaluate C E m (RootDocument d) False False w
      | Array _ \<Rightarrow> matcher_evaluate C E m (RootValue v) False True w
      | _ \<Rightarrow> Inr (False, w))"

definition matches_with_check :: "(nat \<Rightarrow> EngineErrorKind option) \<Rightarrow> 're RegexEngine \<Rightarrow> 're DocumentMatcher \<Rightarrow> BsonDocument
    \<Rightarrow> MatchError + bool" where
  "matches_with_check check E m document =
    and_then
      (matcher_evaluate
        \<lparr>request_check = check, max_steps = MAX_MATCH_STEPS, max_candidates = MAX_PATH_CANDIDATES\<rparr> E m
        (RootDocument document) True False \<lparr>steps = 0, calls = 0\<rparr>)
      (\<lambda>(b, _). Inr b)"

definition is_unconditional :: "'re DocumentMatcher \<Rightarrow> bool" where
  "is_unconditional m \<longleftrightarrow> clauses m = []"

section \<open>Conditions for the index planner\<close>

text \<open>The planner's functions thread the number of calls of the request check.\<close>

definition call :: "(nat \<Rightarrow> EngineErrorKind option) \<Rightarrow> nat \<Rightarrow> MatchError + nat" where
  "call check n = (case check n of Some e \<Rightarrow> Inl (Refused e) | None \<Rightarrow> Inr (n + 1))"

fun first_some :: "('a \<Rightarrow> nat \<Rightarrow> MatchError + 'b option \<times> nat) \<Rightarrow> 'a list \<Rightarrow> nat \<Rightarrow> MatchError + 'b option \<times> nat" where
  "first_some f [] n = Inr (None, n)"
| "first_some f (x # xs) n =
    and_then (f x n) (\<lambda>(r, n). case r of Some y \<Rightarrow> Inr (Some y, n) | None \<Rightarrow> first_some f xs n)"

text \<open>The first condition that a necessary clause gives, where \<open>probe\<close> reads one predicate of the requested
  path and \<open>finish\<close> is the check at the end of a document: the common shape of the four functions below.\<close>

primrec necessary :: "(nat \<Rightarrow> EngineErrorKind option) \<Rightarrow> (nat \<Rightarrow> MatchError + nat)
      \<Rightarrow> ('re Predicate \<Rightarrow> nat \<Rightarrow> MatchError + 'b option \<times> nat) \<Rightarrow> bytes list
      \<Rightarrow> 're DocumentMatcher \<Rightarrow> nat \<Rightarrow> MatchError + 'b option \<times> nat"
  and necessary_clause :: "(nat \<Rightarrow> EngineErrorKind option) \<Rightarrow> (nat \<Rightarrow> MatchError + nat)
      \<Rightarrow> ('re Predicate \<Rightarrow> nat \<Rightarrow> MatchError + 'b option \<times> nat) \<Rightarrow> bytes list
      \<Rightarrow> 're Clause \<Rightarrow> nat \<Rightarrow> MatchError + 'b option \<times> nat" where
  "necessary check finish probe requested (DocumentMatcher cs rb) = (\<lambda>n.
    and_then (first_some (\<lambda>c n. and_then (call check n) c) (map (necessary_clause check finish probe requested) cs) n)
      (\<lambda>(r, n). case r of Some y \<Rightarrow> Inr (Some y, n) | None \<Rightarrow> and_then (finish n) (\<lambda>n. Inr (None, n))))"
| "necessary_clause check finish probe requested (Field path field_id predicates) = (\<lambda>n.
    if path = requested then first_some (\<lambda>p n. and_then (call check n) (probe p)) predicates n
    else Inr (None, n))"
| "necessary_clause check finish probe requested (LogicalClause kind children) = (\<lambda>n.
    if kind = LogicalAnd then first_some (\<lambda>m. m) (map (necessary check finish probe requested) children) n
    else Inr (None, n))"

definition equality_for_index_path ::
    "(nat \<Rightarrow> EngineErrorKind option) \<Rightarrow> bytes list \<Rightarrow> 're DocumentMatcher \<Rightarrow> nat \<Rightarrow> MatchError + BsonValue option \<times> nat" where
  "equality_for_index_path check requested =
    necessary check (call check) (\<lambda>p n. Inr (case p of PEqual v \<Rightarrow> Some v | _ \<Rightarrow> None, n)) requested"

text \<open>The literals of a membership list, none of its members a regular expression or an element query.\<close>

fun literals :: "(nat \<Rightarrow> EngineErrorKind option) \<Rightarrow> 're Member list \<Rightarrow> BsonValue list \<Rightarrow> nat
    \<Rightarrow> MatchError + BsonValue list \<times> nat" where
  "literals check [] values n = Inr (values, n)"
| "literals check (m # rest) values n =
    and_then (call check n) (\<lambda>n.
    case m of MLiteral v \<Rightarrow> literals check rest (values @ [v]) n | _ \<Rightarrow> Inr ([], n))"

definition membership_probe ::
    "(nat \<Rightarrow> EngineErrorKind option) \<Rightarrow> nat \<Rightarrow> 're Predicate \<Rightarrow> nat \<Rightarrow> MatchError + BsonValue list option \<times> nat" where
  "membership_probe check max_values p n =
    (case p of
       PIn members False \<Rightarrow>
         if members = [] \<or> length members > max_values then Inr (None, n)
         else and_then (literals check members [] n) (\<lambda>(values, n).
           Inr (if values \<noteq> [] then Some values else None, n))
     | _ \<Rightarrow> Inr (None, n))"

definition membership_for_index_path ::
    "(nat \<Rightarrow> EngineErrorKind option) \<Rightarrow> bytes list \<Rightarrow> nat \<Rightarrow> 're DocumentMatcher \<Rightarrow> nat
      \<Rightarrow> MatchError + BsonValue list option \<times> nat" where
  "membership_for_index_path check requested max_values = necessary check (call check) (membership_probe check max_values) requested"

definition requires_index_path_existence ::
    "(nat \<Rightarrow> EngineErrorKind option) \<Rightarrow> bytes list \<Rightarrow> bool \<Rightarrow> 're DocumentMatcher \<Rightarrow> nat \<Rightarrow> MatchError + bool \<times> nat" where
  "requires_index_path_existence check requested expected m n =
    and_then (necessary check (call check) (\<lambda>p n. Inr (if p = PExists expected then Some () else None, n)) requested m n)
      (\<lambda>(r, n). Inr (r \<noteq> None, n))"

text \<open>One necessary range of strings, \<^verbatim>\<open>matcher/index_range.rs\<close>.\<close>

definition string_range_probe :: "'re Predicate \<Rightarrow> (BsonValue \<times> bool \<times> bool) option" where
  "string_range_probe p = (case p of PRange (String s) gt incl \<Rightarrow> Some (String s, gt, incl) | _ \<Rightarrow> None)"

definition string_range_for_index_path ::
    "(nat \<Rightarrow> EngineErrorKind option) \<Rightarrow> bytes list \<Rightarrow> 're DocumentMatcher \<Rightarrow> nat
      \<Rightarrow> MatchError + (BsonValue \<times> bool \<times> bool) option \<times> nat" where
  "string_range_for_index_path check requested =
    necessary check Inr (\<lambda>p n. Inr (string_range_probe p, n)) requested"

end
