(* ===== verification/Bson_Match_Semantics.thy ===== *)
theory Bson_Match_Semantics
  imports Bson_Matcher
begin

text \<open>
  What a compiled query means, without loops, work or limits, and that evaluation decides it: an
  evaluation that answers gives this meaning, it fails only at a limit or when the request check
  refuses, and with limits large enough for the query and the document it answers.
\<close>

section \<open>Meaning\<close>

definition equal_meaning :: "BsonValue option \<Rightarrow> BsonValue \<Rightarrow> bool \<Rightarrow> bool" where
  "equal_meaning actual expected exact =
    (case actual of
       None \<Rightarrow> expected = Null
     | Some a \<Rightarrow> bson_eq a expected
         \<or> \<not> exact \<and> (case a of Array values \<Rightarrow> list_ex (\<lambda>v. bson_eq v expected) values | _ \<Rightarrow> False))"

definition members_meaning :: "BsonValue option \<Rightarrow> bool \<Rightarrow> bool \<Rightarrow> (BsonValue option \<Rightarrow> bool) \<Rightarrow> bool" where
  "members_meaning actual exact include_array P =
    (case actual of
       Some (Array values) \<Rightarrow>
         if exact then P actual else include_array \<and> P actual \<or> list_ex (\<lambda>v. P (Some v)) values
     | _ \<Rightarrow> P actual)"

definition range_meaning :: "BsonValue \<Rightarrow> bool \<Rightarrow> bool \<Rightarrow> BsonValue option \<Rightarrow> bool" where
  "range_meaning operand upward inclusive value =
    (let v = (case value of None \<Rightarrow> Null | Some v \<Rightarrow> v) in
     (operand = MinKey \<or> operand = MaxKey \<or> type_rank v = type_rank operand)
     \<and> (canonical_number v = None \<or> canonical_number operand = None
        \<or> (canonical_number v = Some NaN) = (canonical_number operand = Some NaN))
     \<and> (inclusive \<and> bson_eq v operand \<or> bson_cmp v operand = Some (if upward then Greater else Less)))"

definition regex_meaning :: "'re RegexEngine \<Rightarrow> 're CompiledRegex \<Rightarrow> BsonValue option \<Rightarrow> bool" where
  "regex_meaning E regex value =
    (case value of
       Some (RegularExpression p opts) \<Rightarrow> (p, opts) = identity regex
     | Some (String s) \<Rightarrow> (case expression regex of None \<Rightarrow> False | Some e \<Rightarrow> is_match E e s = Some True)
     | _ \<Rightarrow> False)"

definition types_meaning :: "bytes list \<Rightarrow> BsonValue option \<Rightarrow> bool" where
  "types_meaning names value = (case value of None \<Rightarrow> False | Some v \<Rightarrow> list_ex (type_matches v) names)"

definition mod_meaning :: "int \<Rightarrow> int \<Rightarrow> BsonValue option \<Rightarrow> bool" where
  "mod_meaning divisor remainder value =
    (case value of
       None \<Rightarrow> False
     | Some v \<Rightarrow>
         (case integer v True of
            None \<Rightarrow> False
          | Some i \<Rightarrow> (case checked_rem i divisor of None \<Rightarrow> 0 | Some r \<Rightarrow> r) = remainder))"

text \<open>The values a path reaches: through fields, through array positions, and through the fields of the
  documents in an array.\<close>

definition is_container :: "BsonValue \<Rightarrow> bool" where
  "is_container v = (case v of Document _ \<Rightarrow> True | Array _ \<Rightarrow> True | _ \<Rightarrow> False)"

primrec reached :: "bytes list \<Rightarrow> BsonValue \<Rightarrow> Candidate list" where
  "reached [] v = [(Some v, False)]"
| "reached (part # remaining) v =
    (let through = (\<lambda>d. case get_first d part of Some v \<Rightarrow> reached remaining v | None \<Rightarrow> [(None, False)])
     in case v of
       Document d \<Rightarrow> through d
     | Array values \<Rightarrow>
         (case array_index part of
            Some i \<Rightarrow>
              if i < length values then
                (if remaining = [] then [(Some (values ! i), True)]
                 else if is_container (values ! i) then reached remaining (values ! i) else [])
              else []
          | None \<Rightarrow> [])
         @ concat (map (\<lambda>v. case v of Document d \<Rightarrow> through d | _ \<Rightarrow> []) values)
     | _ \<Rightarrow> [(None, False)])"

definition field_reached :: "Root \<Rightarrow> bool \<Rightarrow> bytes list \<Rightarrow> Candidate list" where
  "field_reached node array_document path =
    (if array_document \<and> is_value_array node \<and> array_index (hd path) = None then [(None, False)]
     else reached path (node_value node))"

definition any_element_meaning :: "(BsonValue \<Rightarrow> bool) \<Rightarrow> BsonValue option \<Rightarrow> bool" where
  "any_element_meaning P actual = (case actual of Some (Array values) \<Rightarrow> list_ex P values | _ \<Rightarrow> False)"

text \<open>A negative predicate holds of all candidates, a positive one of some.\<close>

definition quantified :: "bool \<Rightarrow> ('a \<Rightarrow> bool) \<Rightarrow> 'a list \<Rightarrow> bool" where
  "quantified universal P xs = (if universal then list_all P xs else list_ex P xs)"

primrec matcher_holds :: "'re RegexEngine \<Rightarrow> 're DocumentMatcher \<Rightarrow> Root \<Rightarrow> bool \<Rightarrow> bool \<Rightarrow> bool"
  and clause_holds :: "'re RegexEngine \<Rightarrow> 're Clause \<Rightarrow> Root \<Rightarrow> bool \<Rightarrow> bool \<Rightarrow> bool"
  and predicate_holds :: "'re RegexEngine \<Rightarrow> 're Predicate \<Rightarrow> BsonValue option \<Rightarrow> bool \<Rightarrow> bool"
  and member_holds :: "'re RegexEngine \<Rightarrow> 're Member \<Rightarrow> BsonValue option \<Rightarrow> bool \<Rightarrow> bool"
  and element_holds :: "'re RegexEngine \<Rightarrow> 're Element \<Rightarrow> BsonValue option \<Rightarrow> bool" where
  "matcher_holds E (DocumentMatcher cs rb) = (\<lambda>node exact_id array_document.
    list_all (\<lambda>c. c node exact_id array_document) (map (clause_holds E) cs))"
| "clause_holds E (LogicalClause kind children) = (\<lambda>node exact_id array_document.
    let hs = map (\<lambda>m. m node exact_id array_document) (map (matcher_holds E) children) in
    case kind of
      LogicalAnd \<Rightarrow> list_all id hs
    | LogicalOr \<Rightarrow> list_ex id hs
    | LogicalNor \<Rightarrow> \<not> list_ex id hs)"
| "clause_holds E (Field path field_id predicates) = (\<lambda>node exact_id array_document.
    list_all (\<lambda>(p, holds).
      quantified (negative p) (\<lambda>(value, indexed). holds value (exact_id \<and> field_id \<or> indexed))
        (field_reached node array_document path))
      (map (\<lambda>p. (p, predicate_holds E p)) predicates))"
| "predicate_holds E (PEqual v) = (\<lambda>actual exact. equal_meaning actual v exact)"
| "predicate_holds E (PNotEqual v) = (\<lambda>actual exact. \<not> equal_meaning actual v exact)"
| "predicate_holds E (PExists b) = (\<lambda>actual exact. (actual \<noteq> None) = b)"
| "predicate_holds E (PRange operand upward inclusive) = (\<lambda>actual exact.
    members_meaning actual exact True (range_meaning operand upward inclusive))"
| "predicate_holds E (PIn members neg) = (\<lambda>actual exact.
    list_ex (\<lambda>m. m actual exact) (map (member_holds E) members) \<noteq> neg)"
| "predicate_holds E (PAll members) = (\<lambda>actual exact. members \<noteq> [] \<and>
    list_all (\<lambda>(m, holds). members_meaning actual exact False (\<lambda>value.
      case m of
        MElement _ \<Rightarrow> holds actual exact
      | MRegex _ \<Rightarrow> holds value exact
      | MLiteral _ \<Rightarrow> holds value True))
      (map (\<lambda>m. (m, member_holds E m)) members))"
| "predicate_holds E (PElement e) = (\<lambda>actual exact. element_holds E e actual)"
| "predicate_holds E (PNot predicates) = (\<lambda>actual exact.
    \<not> list_all (\<lambda>q. q actual exact) (map (predicate_holds E) predicates))"
| "predicate_holds E (PRegex regex) = (\<lambda>actual exact. members_meaning actual exact False (regex_meaning E regex))"
| "predicate_holds E (PSize n) = (\<lambda>actual exact.
    case actual of Some (Array values) \<Rightarrow> length values = n | _ \<Rightarrow> False)"
| "predicate_holds E (PTypes names) = (\<lambda>actual exact. members_meaning actual exact True (types_meaning names))"
| "predicate_holds E (PMod divisor remainder) = (\<lambda>actual exact.
    members_meaning actual exact False (mod_meaning divisor remainder))"
| "member_holds E (MLiteral v) = (\<lambda>actual exact. equal_meaning actual v exact)"
| "member_holds E (MRegex regex) = (\<lambda>actual exact. members_meaning actual exact False (regex_meaning E regex))"
| "member_holds E (MElement e) = (\<lambda>actual exact. element_holds E e actual)"
| "element_holds E (EFields predicates) =
    any_element_meaning (\<lambda>v. list_all (\<lambda>q. q (Some v) True) (map (predicate_holds E) predicates))"
| "element_holds E (EDocument m) =
    any_element_meaning (\<lambda>v.
      case v of
        Document d \<Rightarrow> matcher_holds E m (RootDocument d) False False
      | Array _ \<Rightarrow> matcher_holds E m (RootValue v) False True
      | _ \<Rightarrow> False)"

text \<open>Compiled paths are not empty.\<close>

primrec matcher_ok :: "'re DocumentMatcher \<Rightarrow> bool"
  and clause_ok :: "'re Clause \<Rightarrow> bool"
  and predicate_ok :: "'re Predicate \<Rightarrow> bool"
  and member_ok :: "'re Member \<Rightarrow> bool"
  and element_ok :: "'re Element \<Rightarrow> bool" where
  "matcher_ok (DocumentMatcher cs rb) = list_all id (map clause_ok cs)"
| "clause_ok (LogicalClause kind children) = list_all id (map matcher_ok children)"
| "clause_ok (Field path field_id predicates) = (path \<noteq> [] \<and> list_all id (map predicate_ok predicates))"
| "predicate_ok (PEqual v) = True"
| "predicate_ok (PNotEqual v) = True"
| "predicate_ok (PExists b) = True"
| "predicate_ok (PRange operand upward inclusive) = True"
| "predicate_ok (PIn members neg) = list_all id (map member_ok members)"
| "predicate_ok (PAll members) = list_all id (map member_ok members)"
| "predicate_ok (PElement e) = element_ok e"
| "predicate_ok (PNot predicates) = list_all id (map predicate_ok predicates)"
| "predicate_ok (PRegex regex) = True"
| "predicate_ok (PSize n) = True"
| "predicate_ok (PTypes names) = True"
| "predicate_ok (PMod divisor remainder) = (divisor \<noteq> 0)"
| "member_ok (MLiteral v) = True"
| "member_ok (MRegex regex) = True"
| "member_ok (MElement e) = element_ok e"
| "element_ok (EFields predicates) = list_all id (map predicate_ok predicates)"
| "element_ok (EDocument m) = matcher_ok m"

section \<open>Decisions\<close>

definition free :: "control \<Rightarrow> bool" where
  "free C \<longleftrightarrow> (\<forall>n. request_check C n = None)"

definition engine_total :: "'re RegexEngine \<Rightarrow> bool" where
  "engine_total E \<longleftrightarrow> (\<forall>e s. is_match E e s \<noteq> None)"

definition stopped :: "control \<Rightarrow> MatchError \<Rightarrow> bool" where
  "stopped C e \<longleftrightarrow> e = MatchLimit \<or> (\<exists>n k. request_check C n = Some k \<and> e = Refused k)"

text \<open>\<open>decides E f x\<close>: a computation under a control gives \<open>x\<close> or is stopped; and, where the engine is total and
  the request check never refuses, there is an amount of work that is always enough.\<close>

definition decides :: "'re RegexEngine \<Rightarrow> (control \<Rightarrow> Work \<Rightarrow> MatchError + 'a \<times> Work) \<Rightarrow> 'a \<Rightarrow> bool" where
  "decides E f x \<longleftrightarrow>
    (\<forall>C w. case f C w of Inr (y, _) \<Rightarrow> y = x | Inl e \<Rightarrow> stopped C e)
    \<and> (engine_total E \<longrightarrow> (\<exists>n. \<forall>C w. free C \<and> steps w + n \<le> max_steps C \<and> n \<le> max_candidates C \<longrightarrow>
        (\<exists>v. f C w = Inr (x, v) \<and> steps v \<le> steps w + n)))"

lemma decides_return: "decides E (\<lambda>C w. Inr (x, w)) x"
  by (auto simp: decides_def intro: exI [of _ 0])

lemma decides_ext: "(\<And>C w. f C w = g C w) \<Longrightarrow> decides E g x \<Longrightarrow> decides E f x"
  by (simp add: decides_def)

lemma decides_bind:
  assumes f: "decides E f x" and g: "decides E (g x) y"
  shows "decides E (\<lambda>C w. and_then (f C w) (\<lambda>(a, w). g a C w)) y"
proof -
  have safe: "case and_then (f C w) (\<lambda>(a, w). g a C w) of Inr (z, _) \<Rightarrow> z = y | Inl e \<Rightarrow> stopped C e" for C w
  proof (cases "f C w")
    case (Inr p)
    obtain a v where p: "p = (a, v)" by force
    have "case f C w of Inr (z, _) \<Rightarrow> z = x | Inl e \<Rightarrow> stopped C e" using f by (simp add: decides_def)
    then have "a = x" using Inr p by simp
    then show ?thesis using g Inr p by (simp add: decides_def)
  next
    case (Inl e)
    have "case f C w of Inr (z, _) \<Rightarrow> z = x | Inl e \<Rightarrow> stopped C e" using f by (simp add: decides_def)
    then show ?thesis using Inl by simp
  qed
  have "\<exists>n. \<forall>(C :: control) (w :: Work). free C \<and> steps w + n \<le> max_steps C \<and> n \<le> max_candidates C \<longrightarrow>
      (\<exists>v. and_then (f C w) (\<lambda>(a, w). g a C w) = Inr (y, v) \<and> steps v \<le> steps w + n)" if total: "engine_total E"
  proof -
    obtain m where m: "\<And>(C :: control) (w :: Work). free C \<Longrightarrow> steps w + m \<le> max_steps C \<Longrightarrow> m \<le> max_candidates C \<Longrightarrow>
        \<exists>v. f C w = Inr (x, v) \<and> steps v \<le> steps w + m"
      using f total unfolding decides_def by blast
    obtain n where n: "\<And>(C :: control) (w :: Work). free C \<Longrightarrow> steps w + n \<le> max_steps C \<Longrightarrow> n \<le> max_candidates C \<Longrightarrow>
        \<exists>v. g x C w = Inr (y, v) \<and> steps v \<le> steps w + n"
      using g total unfolding decides_def by blast
    show ?thesis
    proof (intro exI [of _ "m + n"] allI impI)
      fix C :: control and w :: Work
      assume *: "free C \<and> steps w + (m + n) \<le> max_steps C \<and> m + n \<le> max_candidates C"
      obtain v where v: "f C w = Inr (x, v)" "steps v \<le> steps w + m" using m [of C w] * by auto
      obtain u where u: "g x C v = Inr (y, u)" "steps u \<le> steps v + n" using n [of C v] * v(2) by auto
      show "\<exists>v. and_then (f C w) (\<lambda>(a, w). g a C w) = Inr (y, v) \<and> steps v \<le> steps w + (m + n)"
        using u v by simp
    qed
  qed
  with safe show ?thesis unfolding decides_def by blast
qed

lemma decides_step: "decides E (\<lambda>C w. and_then (work_step C w) (\<lambda>w. Inr ((), w))) ()"
proof -
  have "\<exists>v. work_step C w = Inr v \<and> steps v = steps w + 1" if "free C" "steps w + 1 \<le> max_steps C" for C :: control and w :: Work
    using that by (simp add: work_step_def work_check_def free_def)
  then have "\<exists>v. and_then (work_step C w) (\<lambda>w. Inr ((), w)) = Inr ((), v) \<and> steps v \<le> steps w + 1"
    if "free C \<and> steps w + 1 \<le> max_steps C \<and> 1 \<le> max_candidates C" for C :: control and w :: Work
    using that by fastforce
  moreover have "case and_then (work_step C w) (\<lambda>w. Inr ((), w)) of Inr (y, _) \<Rightarrow> y = () | Inl e \<Rightarrow> stopped C e" for C :: control and w
    by (auto simp: work_step_def work_check_def stopped_def split: option.split)
  ultimately show ?thesis unfolding decides_def by blast
qed

lemma decides_check: "decides E (\<lambda>C w. and_then (work_check C w) (\<lambda>w. Inr ((), w))) ()"
proof -
  have "\<exists>v. and_then (work_check C w) (\<lambda>w. Inr ((), w)) = Inr ((), v) \<and> steps v \<le> steps w + 0"
    if "free C \<and> steps w + 0 \<le> max_steps C \<and> 0 \<le> max_candidates C" for C :: control and w :: Work
    using that by (simp add: work_check_def free_def)
  moreover have "case and_then (work_check C w) (\<lambda>w. Inr ((), w)) of Inr (y, _) \<Rightarrow> y = () | Inl e \<Rightarrow> stopped C e" for C :: control and w
    by (auto simp: work_check_def stopped_def split: option.split)
  ultimately show ?thesis unfolding decides_def by blast
qed

lemma and_then_unit: "and_then (and_then r (\<lambda>w. Inr ((), w))) (\<lambda>(u, w). f w) = and_then r f"
  by (cases r) simp_all

lemma decides_after_step: "decides E f x \<Longrightarrow> decides E (\<lambda>C w. and_then (work_step C w) (f C)) x"
  using decides_bind [OF decides_step, of E "\<lambda>_. f" x] by (simp add: and_then_unit)

lemma decides_after_check: "decides E f x \<Longrightarrow> decides E (\<lambda>C w. and_then (work_check C w) (f C)) x"
  using decides_bind [OF decides_check, of E "\<lambda>_. f" x] by (simp add: and_then_unit)

lemma decides_negate: "decides E f b \<Longrightarrow> decides E (\<lambda>C w. negate (f C w)) (\<not> b)"
  using decides_bind [of E f b "\<lambda>b C w. Inr (\<not> b, w)" "\<not> b"] decides_return [of E "\<not> b"] by (simp add: negate_def)

lemma decides_search:
  assumes "\<And>x. x \<in> set xs \<Longrightarrow> decides E (\<lambda>C. f C x) (P x)"
  shows "decides E (\<lambda>C. search stop (f C) xs) (if stop then list_ex P xs else list_all P xs)"
  using assms
proof (induction xs)
  case Nil
  show ?case using decides_return [of E "\<not> stop"] by (cases stop) simp_all
next
  case (Cons x xs)
  let ?r = "if stop then list_ex P xs else list_all P xs"
  have "decides E (\<lambda>C w. and_then (f C x w) (\<lambda>(b, w). if b = stop then Inr (stop, w) else search stop (f C) xs w))
      (if P x = stop then stop else ?r)"
  proof (rule decides_bind [where x = "P x" and g = "\<lambda>b C w. if b = stop then Inr (stop, w) else search stop (f C) xs w"])
    show "decides E (\<lambda>C. f C x) (P x)" using Cons.prems by simp
    show "decides E (\<lambda>C w. if P x = stop then Inr (stop, w) else search stop (f C) xs w) (if P x = stop then stop else ?r)"
      using Cons decides_return [of E stop] by (cases "P x = stop") simp_all
  qed
  moreover have "(if P x = stop then stop else ?r) = (if stop then list_ex P (x # xs) else list_all P (x # xs))"
    by (cases stop; cases "P x") simp_all
  ultimately show ?case by simp
qed

lemma decides_members:
  assumes "\<And>v. decides E (\<lambda>C. p C v) (P v)"
  shows "decides E (\<lambda>C. scalar_or_members C actual exact include_array (p C)) (members_meaning actual exact include_array P)"
proof (cases "\<exists>vs. actual = Some (Array vs) \<and> \<not> exact")
  case True
  then obtain vs where vs: "actual = Some (Array vs)" "\<not> exact" by blast
  have first: "decides E (\<lambda>C w. if include_array then p C actual w else Inr (False, w)) (include_array \<and> P actual)"
    using assms [of actual] decides_return [of E False] by (cases include_array) simp_all
  have rest: "decides E (\<lambda>C. search True (\<lambda>v w. and_then (work_step C w) (\<lambda>w. p C (Some v) w)) vs)
      (list_ex (\<lambda>v. P (Some v)) vs)"
    using decides_search [of vs E "\<lambda>C v w. and_then (work_step C w) (\<lambda>w. p C (Some v) w)" "\<lambda>v. P (Some v)" True]
      decides_after_step [OF assms] by simp
  have "decides E (\<lambda>C w. and_then (if include_array then p C actual w else Inr (False, w)) (\<lambda>(b, w).
      if b then Inr (True, w) else search True (\<lambda>v w. and_then (work_step C w) (\<lambda>w. p C (Some v) w)) vs w))
      (include_array \<and> P actual \<or> list_ex (\<lambda>v. P (Some v)) vs)"
  proof (rule decides_bind [OF first, where g = "\<lambda>b C w. if b then Inr (True, w)
        else search True (\<lambda>v w. and_then (work_step C w) (\<lambda>w. p C (Some v) w)) vs w"])
    have "decides E (\<lambda>C w. if b then Inr (True, w)
        else search True (\<lambda>v w. and_then (work_step C w) (\<lambda>w. p C (Some v) w)) vs w)
        (b \<or> list_ex (\<lambda>v. P (Some v)) vs)" for b
      using rest decides_return [of E True] by (cases b) simp_all
    then show "decides E (\<lambda>C w. if include_array \<and> P actual then Inr (True, w)
        else search True (\<lambda>v w. and_then (work_step C w) (\<lambda>w. p C (Some v) w)) vs w)
        (include_array \<and> P actual \<or> list_ex (\<lambda>v. P (Some v)) vs)"
      by simp
  qed
  moreover have "scalar_or_members C actual exact include_array (p C) =
      (\<lambda>w. and_then (if include_array then p C actual w else Inr (False, w)) (\<lambda>(b, w).
        if b then Inr (True, w) else search True (\<lambda>v w. and_then (work_step C w) (\<lambda>w. p C (Some v) w)) vs w))" for C
    using vs by (intro ext) (simp add: scalar_or_members_def)
  moreover have "members_meaning actual exact include_array P
      \<longleftrightarrow> include_array \<and> P actual \<or> list_ex (\<lambda>v. P (Some v)) vs"
    using vs by (simp add: members_meaning_def)
  ultimately show ?thesis by simp
next
  case False
  then have "scalar_or_members C actual exact include_array (p C) w = p C actual w" for C w
    by (auto simp: scalar_or_members_def split: option.splits BsonValue.splits)
  moreover have "members_meaning actual exact include_array P = P actual"
    using False by (auto simp: members_meaning_def split: option.splits BsonValue.splits)
  ultimately show ?thesis using decides_ext [OF _ assms [of actual]] by simp
qed

lemma decides_equal: "decides E (\<lambda>C. equal_value C actual expected exact) (equal_meaning actual expected exact)"
proof (cases actual)
  case None
  show ?thesis unfolding None equal_value_def equal_meaning_def option.case
    by (intro decides_after_step decides_return)
next
  case (Some a)
  have member: "decides E (\<lambda>C w. and_then (work_step C w) (\<lambda>w. and_then (work_check C w) (\<lambda>w. Inr (bson_eq v expected, w))))
      (bson_eq v expected)" for v
    by (intro decides_after_step decides_after_check decides_return)
  have "decides E (\<lambda>C w. if bson_eq a expected then Inr (True, w)
      else if \<not> exact then
        (case a of
           Array vs \<Rightarrow>
             search True (\<lambda>v w.
               and_then (work_step C w) (\<lambda>w.
               and_then (work_check C w) (\<lambda>w. Inr (bson_eq v expected, w)))) vs w
         | _ \<Rightarrow> Inr (False, w))
      else Inr (False, w)) (equal_meaning actual expected exact)"
    using decides_search [of _ E "\<lambda>C v w. and_then (work_step C w) (\<lambda>w. and_then (work_check C w) (\<lambda>w. Inr (bson_eq v expected, w)))"
        "\<lambda>v. bson_eq v expected" True] member decides_return [of E True] decides_return [of E False] Some
    by (cases "bson_eq a expected"; cases exact; cases a) (simp_all add: equal_meaning_def)
  then show ?thesis unfolding equal_value_def Some option.case
    by (intro decides_after_step decides_after_check) 
qed

lemma decides_range: "decides E (\<lambda>C. range_predicate C operand upward inclusive v) (range_meaning operand upward inclusive v)"
proof -
  define u where "u = (case v of None \<Rightarrow> Null | Some v \<Rightarrow> v)"
  obtain ord where ord: "bson_cmp u operand = Some ord" by (simp add: bson_cmp_codes)
  define skip where "skip \<longleftrightarrow> \<not> (operand = MinKey \<or> operand = MaxKey) \<and> type_rank u \<noteq> type_rank operand
    \<or> canonical_number u \<noteq> None \<and> canonical_number operand \<noteq> None
      \<and> (canonical_number u = Some NaN) \<noteq> (canonical_number operand = Some NaN)"
  have result: "range_meaning operand upward inclusive v \<longleftrightarrow>
      \<not> skip \<and> (if ord = Equal then inclusive else if upward then ord = Greater else ord = Less)"
    unfolding range_meaning_def Let_def u_def [symmetric] skip_def
    using ord by (cases ord) (auto simp: bson_eq_cmp)
  have "range_predicate C operand upward inclusive v w = and_then (work_step C w) (\<lambda>w.
      if skip then Inr (False, w) else and_then (work_check C w) (\<lambda>w.
        Inr (if ord = Equal then inclusive else if upward then ord = Greater else ord = Less, w)))" for C w
    unfolding range_predicate_def Let_def u_def [symmetric] ord option.case
    by (rule and_then_cong [OF refl]) (simp only: skip_def split: if_split, blast)
  moreover have "decides E (\<lambda>C w. and_then (work_step C w) (\<lambda>w.
      if skip then Inr (False, w) else and_then (work_check C w) (\<lambda>w.
        Inr (if ord = Equal then inclusive else if upward then ord = Greater else ord = Less, w))))
      (range_meaning operand upward inclusive v)"
    unfolding result
    by (cases skip) (simp_all only: if_True if_False simp_thms, (intro decides_after_step decides_after_check decides_return)+)
  ultimately show ?thesis by (rule decides_ext)
qed

lemma decides_regex: "decides E (\<lambda>C. regex_evaluate C E regex actual exact) (members_meaning actual exact False (regex_meaning E regex))"
proof -
  have engine: "decides E (\<lambda>C w. and_then (case is_match E e s of Some b \<Rightarrow> Inr b | None \<Rightarrow> Inl MatchLimit) (\<lambda>b. Inr (b, w)))
      (is_match E e s = Some True)" for e s
  proof (cases "is_match E e s")
    case None
    then have "\<not> engine_total E" unfolding engine_total_def by blast
    then show ?thesis using None by (simp add: decides_def stopped_def)
  next
    case (Some b)
    then show ?thesis using decides_return [of E b] by simp
  qed
  have "decides E (\<lambda>C. regex_predicate C E regex v) (regex_meaning E regex v)" for v
    unfolding regex_predicate_def regex_meaning_def Let_def
    using engine decides_return
    by (intro decides_after_step decides_after_check) (auto split: option.split BsonValue.split)
  then show ?thesis unfolding regex_evaluate_def by (rule decides_members)
qed

section \<open>Paths\<close>

lemma decides_candidate: "decides E (\<lambda>C. candidate C out value indexed) (out @ [(value, indexed)])"
proof -
  have "candidate C out value indexed w = Inr (out @ [(value, indexed)], w)"
    if "Suc (length out) \<le> max_candidates C" for C :: control and w
    using that by (simp add: candidate_def)
  then show ?thesis
    unfolding decides_def by (auto simp: candidate_def stopped_def intro: exI [of _ "Suc (length out)"])
qed

lemma decides_find: "decides E (\<lambda>C. find_field C d part) (get_first d part)"
proof (induction d)
  case Nil
  show ?case using decides_return [of E None] by (simp add: decides_def)
next
  case (Cons x d)
  obtain name v where x: "x = (name, v)" by force
  show ?case
  proof (rule decides_ext)
    show "find_field C (x # d) part w = and_then (work_step C w)
        (\<lambda>w. if name = part then Inr (Some v, w) else find_field C d part w)" for C w
      using x by simp
    show "decides E (\<lambda>C w. and_then (work_step C w)
        (\<lambda>w. if name = part then Inr (Some v, w) else find_field C d part w)) (get_first (x # d) part)"
      using Cons x decides_return [of E "Some v"] by (intro decides_after_step) (cases "name = part"; simp)
  qed
qed

lemma decides_fold:
  fixes f :: "control \<Rightarrow> 'v \<Rightarrow> 'c list \<times> Work \<Rightarrow> MatchError + 'c list \<times> Work" and out :: "'c list"
  assumes "\<And>v out. v \<in> set vs \<Longrightarrow> decides E (\<lambda>C w. f C v (out, w)) (out @ g v)"
  shows "decides E (\<lambda>C w. fold_try (f C) vs (out, w)) (out @ concat (map g vs))"
  using assms
proof (induction vs arbitrary: out)
  case Nil
  show ?case using decides_return [of E out] by simp
next
  case (Cons v vs)
  have "decides E (\<lambda>C w. and_then (f C v (out, w)) (\<lambda>(out, w). fold_try (f C) vs (out, w)))
      ((out @ g v) @ concat (map g vs))"
  proof (rule decides_bind [where g = "\<lambda>out C w. fold_try (f C) vs (out, w)"])
    show "decides E (\<lambda>C w. f C v (out, w)) (out @ g v)" using Cons.prems by simp
    show "decides E (\<lambda>C w. fold_try (f C) vs (out @ g v, w)) ((out @ g v) @ concat (map g vs))"
      by (rule Cons.IH) (simp add: Cons.prems)
  qed
  then show ?case by simp
qed

definition through :: "bytes \<Rightarrow> bytes list \<Rightarrow> BsonDocument \<Rightarrow> Candidate list" where
  "through part remaining d = (case get_first d part of Some v \<Rightarrow> reached remaining v | None \<Rightarrow> [(None, False)])"

definition at_index :: "bytes \<Rightarrow> bytes list \<Rightarrow> BsonValue list \<Rightarrow> Candidate list" where
  "at_index part remaining vs =
    (case array_index part of
       Some i \<Rightarrow>
         if i < length vs then
           (if remaining = [] then [(Some (vs ! i), True)]
            else if is_container (vs ! i) then reached remaining (vs ! i) else [])
         else []
     | None \<Rightarrow> [])"

lemma reached_Cons:
  "reached (part # remaining) v =
    (case v of
       Document d \<Rightarrow> through part remaining d
     | Array vs \<Rightarrow> at_index part remaining vs
         @ concat (map (\<lambda>v. case v of Document d \<Rightarrow> through part remaining d | _ \<Rightarrow> []) vs)
     | _ \<Rightarrow> [(None, False)])"
proof -
  have "through part remaining = (\<lambda>d. case get_first d part of Some v \<Rightarrow> reached remaining v | None \<Rightarrow> [(None, False)])"
    by (rule ext) (simp add: through_def)
  then show ?thesis by (simp only: reached.simps Let_def at_index_def)
qed

declare reached.simps(2) [simp del]

lemma decides_resolve_document:
  assumes "\<And>v out. decides E (\<lambda>C. resolve C (RootValue v) remaining out) (out @ reached remaining v)"
  shows "decides E (\<lambda>C w.
      and_then (find_field C d part w) (\<lambda>(found, w).
      case found of Some v \<Rightarrow> resolve C (RootValue v) remaining out w | None \<Rightarrow> candidate C out None False w))
    (out @ through part remaining d)"
proof (rule decides_bind [OF decides_find, where g = "\<lambda>found C w.
      case found of Some v \<Rightarrow> resolve C (RootValue v) remaining out w | None \<Rightarrow> candidate C out None False w"])
  show "decides E (\<lambda>C w. case get_first d part of
        Some v \<Rightarrow> resolve C (RootValue v) remaining out w | None \<Rightarrow> candidate C out None False w)
      (out @ through part remaining d)"
    using assms decides_candidate [of E out None False] by (cases "get_first d part") (simp_all add: through_def)
qed

lemma decides_resolve:
  "parts \<noteq> [] \<or> (\<exists>v. node = RootValue v) \<Longrightarrow>
    decides E (\<lambda>C. resolve C node parts out) (out @ reached parts (node_value node))"
proof (induction parts arbitrary: node out)
  case Nil
  then obtain v where "node = RootValue v" by blast
  then show ?case
    by (intro decides_ext [OF resolve.simps] decides_after_step) (simp add: node_value_def decides_candidate)
next
  case (Cons part remaining)
  have ih: "decides E (\<lambda>C. resolve C (RootValue v) remaining out) (out @ reached remaining v)" for v out
    using Cons.IH [of "RootValue v" out] by (simp add: node_value_def)
  have document: "decides E (\<lambda>C. resolve C (RootDocument d) (part # remaining) out) (out @ through part remaining d)" for d out
    by (intro decides_ext [OF resolve.simps] decides_after_step)
      (simp add: decides_resolve_document [OF ih])
  have array: "decides E (\<lambda>C. resolve C (RootValue (Array vs)) (part # remaining) out)
      (out @ reached (part # remaining) (Array vs))" for vs
  proof -
    let ?first = "\<lambda>C w. case array_index part of
        Some i \<Rightarrow>
          (if i < length vs then
             let v = vs ! i in
             if remaining = [] then candidate C out (Some v) True w
             else (case v of
                 Document _ \<Rightarrow> resolve C (RootValue v) remaining out w
               | Array _ \<Rightarrow> resolve C (RootValue v) remaining out w
               | _ \<Rightarrow> Inr (out, w))
           else Inr (out, w))
      | None \<Rightarrow> Inr (out, w)"
    let ?loop = "\<lambda>C v (out, w). and_then (work_step C w) (\<lambda>w.
        case v of Document d \<Rightarrow> resolve C (RootDocument d) (part # remaining) out w | _ \<Rightarrow> Inr (out, w))"
    have first: "decides E ?first (out @ at_index part remaining vs)"
      unfolding at_index_def
      using ih decides_candidate [of E out _ True] decides_return [of E out]
      by (auto simp: Let_def is_container_def split: option.split BsonValue.split)
    have "decides E (\<lambda>C w. ?loop C v (out, w)) (out @ (case v of Document d \<Rightarrow> through part remaining d | _ \<Rightarrow> []))" for v out
      unfolding prod.case
      using document decides_return [of E out] by (intro decides_after_step) (simp split: BsonValue.split)
    then have loop: "decides E (\<lambda>C w. fold_try (?loop C) vs (out, w))
        (out @ concat (map (\<lambda>v. case v of Document d \<Rightarrow> through part remaining d | _ \<Rightarrow> []) vs))" for out
      by (rule decides_fold)
    have both: "decides E (\<lambda>C w. and_then (?first C w) (\<lambda>(out, w). fold_try (?loop C) vs (out, w)))
        ((out @ at_index part remaining vs)
          @ concat (map (\<lambda>v. case v of Document d \<Rightarrow> through part remaining d | _ \<Rightarrow> []) vs))"
      by (rule decides_bind [OF first, where g = "\<lambda>out C w. fold_try (?loop C) vs (out, w)"]) (rule loop)
    show ?thesis
    proof (rule decides_ext)
      show "resolve C (RootValue (Array vs)) (part # remaining) out w =
          and_then (work_step C w) (\<lambda>w. and_then (?first C w) (\<lambda>(out, w). fold_try (?loop C) vs (out, w)))" for C w
        by (subst resolve.simps) simp
      show "decides E (\<lambda>C w. and_then (work_step C w) (\<lambda>w. and_then (?first C w) (\<lambda>(out, w). fold_try (?loop C) vs (out, w))))
          (out @ reached (part # remaining) (Array vs))"
        using decides_after_step [OF both] by (simp only: reached_Cons BsonValue.case append_assoc)
    qed
  qed
  have other: "decides E (\<lambda>C. resolve C (RootValue v) (part # remaining) out) (out @ reached (part # remaining) v)"
    if "\<not> is_container v" for v
    using that
    by (intro decides_ext [OF resolve.simps] decides_after_step)
      (cases v; simp add: is_container_def reached_Cons decides_candidate)
  have value_document: "decides E (\<lambda>C. resolve C (RootValue (Document d)) (part # remaining) out) (out @ through part remaining d)" for d
    by (intro decides_ext [OF resolve.simps] decides_after_step)
      (simp add: decides_resolve_document [OF ih])
  show ?case
  proof (cases node)
    case (RootDocument d)
    then show ?thesis using document by (simp add: node_value_def reached_Cons)
  next
    case (RootValue v)
    then show ?thesis
      using array other [of v] value_document by (cases v) (simp_all add: node_value_def reached_Cons is_container_def)
  qed
qed

section \<open>Evaluation decides the meaning\<close>

lemma decides_field_candidates:
  assumes "path \<noteq> []"
  shows "decides E (\<lambda>C. field_candidates C node array_document path) (field_reached node array_document path)"
proof (cases "array_document \<and> is_value_array node \<and> array_index (hd path) = None")
  case True
  then have "field_candidates C node array_document path w = candidate C [] None False w" for C w
    using assms by (cases path) (simp_all add: field_candidates_def)
  then show ?thesis
    using True decides_ext [OF _ decides_candidate [of E "[]" None False]] by (simp add: field_reached_def)
next
  case False
  then have "field_candidates C node array_document path w = resolve C node path [] w" for C w
    using assms by (cases path) (auto simp: field_candidates_def)
  then show ?thesis
    using assms decides_ext [OF _ decides_resolve [of path node E "[]"]]
    unfolding field_reached_def if_not_P [OF False] by simp
qed

lemma decides_any_element:
  assumes "\<And>v. decides E (\<lambda>C. f C v) (P v)"
  shows "decides E (\<lambda>C. any_element C (f C) actual) (any_element_meaning P actual)"
proof (cases "\<exists>vs. actual = Some (Array vs)")
  case True
  then obtain vs where vs: "actual = Some (Array vs)" by blast
  have "decides E (\<lambda>C. search True (\<lambda>v w. and_then (work_step C w) (f C v)) vs) (list_ex P vs)"
    using decides_search [of vs E "\<lambda>C v w. and_then (work_step C w) (f C v)" P True] decides_after_step [OF assms]
    by simp
  moreover have "any_element C (f C) actual w = search True (\<lambda>v w. and_then (work_step C w) (f C v)) vs w" for C w
    by (simp add: vs any_element_def)
  moreover have "any_element_meaning P actual = list_ex P vs" by (simp add: vs any_element_meaning_def)
  ultimately show ?thesis by (simp only: decides_ext)
next
  case False
  then have "any_element C (f C) actual w = Inr (False, w)" for C w
    by (cases actual; cases "the actual") (simp_all add: any_element_def)
  moreover have "\<not> any_element_meaning P actual"
    using False by (cases actual; cases "the actual") (simp_all add: any_element_meaning_def)
  ultimately show ?thesis by (simp only: decides_ext [OF _ decides_return])
qed

text \<open>Loops over the evaluators of the parts of a query.\<close>

lemma decides_search_map:
  assumes "\<And>x. x \<in> set xs \<Longrightarrow> decides E (\<lambda>C. f C (ev C x)) (P (ho x))"
  shows "decides E (\<lambda>C. search stop (f C) (map (ev C) xs)) (if stop then list_ex P (map ho xs) else list_all P (map ho xs))"
proof -
  have "search stop (f C) (map (ev C) xs) w = search stop (\<lambda>x. f C (ev C x)) xs w" for C w
  proof (induction xs arbitrary: w)
    case (Cons x xs)
    then have "search stop (f C) (map (ev C) xs) = search stop (\<lambda>x. f C (ev C x)) xs" by (rule ext)
    then show ?case by (simp only: list.map search.simps)
  qed simp
  note eq = this
  have meaning: "(if stop then list_ex P (map ho xs) else list_all P (map ho xs))
      = (if stop then list_ex (\<lambda>x. P (ho x)) xs else list_all (\<lambda>x. P (ho x)) xs)"
    by (auto simp: list_ex_iff list_all_iff)
  show ?thesis unfolding meaning
    by (rule decides_ext [OF eq decides_search [of xs E "\<lambda>C x. f C (ev C x)" "\<lambda>x. P (ho x)" stop]]) (rule assms)
qed

lemma decides_field:
  assumes "path \<noteq> []"
    and "\<And>p value exact. p \<in> set ps \<Longrightarrow> decides E (\<lambda>C. predicate_evaluate C E p value exact) (predicate_holds E p value exact)"
  shows "decides E (\<lambda>C. clause_evaluate C E (Field path field_id ps) node exact_id array_document)
    (clause_holds E (Field path field_id ps) node exact_id array_document)"
proof -
  let ?cands = "field_reached node array_document path"
  have "decides E (\<lambda>C. search (\<not> negative p) (\<lambda>(value, indexed).
        predicate_evaluate C E p value (exact_id \<and> field_id \<or> indexed)) ?cands)
      (quantified (negative p) (\<lambda>(value, indexed). predicate_holds E p value (exact_id \<and> field_id \<or> indexed)) ?cands)"
    if "p \<in> set ps" for p
    using decides_search [of ?cands E "\<lambda>C (value, indexed). predicate_evaluate C E p value (exact_id \<and> field_id \<or> indexed)"
        "\<lambda>(value, indexed). predicate_holds E p value (exact_id \<and> field_id \<or> indexed)" "\<not> negative p"] assms(2) [OF that]
    by (cases "negative p") (auto simp: quantified_def)
  then have "decides E (\<lambda>C. search False (\<lambda>(p, evaluate).
        search (\<not> negative p) (\<lambda>(value, indexed). evaluate value (exact_id \<and> field_id \<or> indexed)) ?cands)
        (map (\<lambda>p. (p, predicate_evaluate C E p)) ps))
      (list_all (\<lambda>(p, holds).
        quantified (negative p) (\<lambda>(value, indexed). holds value (exact_id \<and> field_id \<or> indexed)) ?cands)
        (map (\<lambda>p. (p, predicate_holds E p)) ps))"
    using decides_search_map [of ps E
        "\<lambda>C (p, evaluate). search (\<not> negative p) (\<lambda>(value, indexed). evaluate value (exact_id \<and> field_id \<or> indexed)) ?cands"
        "\<lambda>C p. (p, predicate_evaluate C E p)"
        "\<lambda>(p, holds). quantified (negative p) (\<lambda>(value, indexed). holds value (exact_id \<and> field_id \<or> indexed)) ?cands"
        "\<lambda>p. (p, predicate_holds E p)" False]
    by simp
  from decides_bind [OF decides_field_candidates [OF assms(1)], where
      g = "\<lambda>candidates C. search False (\<lambda>(p, evaluate).
        search (\<not> negative p) (\<lambda>(value, indexed). evaluate value (exact_id \<and> field_id \<or> indexed)) candidates)
        (map (\<lambda>p. (p, predicate_evaluate C E p)) ps)", OF this]
  show ?thesis by simp
qed

lemma decides_all:
  assumes "\<And>m actual exact. m \<in> set ms \<Longrightarrow> decides E (\<lambda>C. member_evaluate C E m actual exact) (member_holds E m actual exact)"
  shows "decides E (\<lambda>C. predicate_evaluate C E (PAll ms) actual exact) (predicate_holds E (PAll ms) actual exact)"
proof -
  let ?ev = "\<lambda>(m, evaluate) value.
      case m of MElement _ \<Rightarrow> evaluate actual exact | MRegex _ \<Rightarrow> evaluate value exact | MLiteral _ \<Rightarrow> evaluate value True"
  have "decides E (\<lambda>C. ?ev (m, member_evaluate C E m) v) (?ev (m, member_holds E m) v)" if "m \<in> set ms" for m v
    using assms [OF that] by (cases m) simp_all
  then have "decides E (\<lambda>C. scalar_or_members C actual exact False (?ev (m, member_evaluate C E m)))
      (members_meaning actual exact False (?ev (m, member_holds E m)))" if "m \<in> set ms" for m
    using that by (intro decides_members)
  then have loop: "decides E (\<lambda>C. search False (\<lambda>(m, evaluate). scalar_or_members C actual exact False (?ev (m, evaluate)))
        (map (\<lambda>m. (m, member_evaluate C E m)) ms))
      (list_all (\<lambda>(m, holds). members_meaning actual exact False (?ev (m, holds))) (map (\<lambda>m. (m, member_holds E m)) ms))"
    using decides_search_map [of ms E "\<lambda>C (m, evaluate). scalar_or_members C actual exact False (?ev (m, evaluate))"
        "\<lambda>C m. (m, member_evaluate C E m)" "\<lambda>(m, holds). members_meaning actual exact False (?ev (m, holds))"
        "\<lambda>m. (m, member_holds E m)" False]
    by simp
  show ?thesis
    unfolding predicate_evaluate.simps predicate_holds.simps
    using loop decides_return [of E False] by (intro decides_after_step) (cases "ms = []"; simp)
qed

lemma decides_logical:
  assumes "\<And>m node exact_id array_document. m \<in> set ms \<Longrightarrow>
      decides E (\<lambda>C. matcher_evaluate C E m node exact_id array_document) (matcher_holds E m node exact_id array_document)"
  shows "decides E (\<lambda>C. clause_evaluate C E (LogicalClause kind ms) node exact_id array_document)
    (clause_holds E (LogicalClause kind ms) node exact_id array_document)"
proof -
  have loop: "decides E (\<lambda>C. search stop (\<lambda>m. m node exact_id array_document) (map (matcher_evaluate C E) ms))
      (if stop then list_ex (\<lambda>m. m node exact_id array_document) (map (matcher_holds E) ms)
       else list_all (\<lambda>m. m node exact_id array_document) (map (matcher_holds E) ms))" for stop
    by (rule decides_search_map [of ms E "\<lambda>C m. m node exact_id array_document" "\<lambda>C. matcher_evaluate C E"]) (rule assms)
  show ?thesis
    using loop [of False] loop [of True] decides_negate [OF loop [of True]]
    by (cases kind) (simp_all add: Let_def list_all_iff list_ex_iff)
qed

lemma decides_matcher_step:
  assumes "\<And>c node exact_id array_document. c \<in> set cs \<Longrightarrow>
      decides E (\<lambda>C. clause_evaluate C E c node exact_id array_document) (clause_holds E c node exact_id array_document)"
  shows "decides E (\<lambda>C. matcher_evaluate C E (DocumentMatcher cs rb) node exact_id array_document)
    (matcher_holds E (DocumentMatcher cs rb) node exact_id array_document)"
proof -
  have "decides E (\<lambda>C. search False (\<lambda>c w. and_then (work_step C w) (c node exact_id array_document)) (map (clause_evaluate C E) cs))
      (if False then list_ex (\<lambda>c. c node exact_id array_document) (map (clause_holds E) cs)
       else list_all (\<lambda>c. c node exact_id array_document) (map (clause_holds E) cs))"
    by (rule decides_search_map [of cs E "\<lambda>C c w. and_then (work_step C w) (c node exact_id array_document)" "\<lambda>C. clause_evaluate C E"])
      (intro decides_after_step assms)
  then show ?thesis unfolding matcher_evaluate.simps matcher_holds.simps if_False by (rule decides_after_step)
qed

lemma decides_in:
  assumes "\<And>m actual exact. m \<in> set ms \<Longrightarrow> decides E (\<lambda>C. member_evaluate C E m actual exact) (member_holds E m actual exact)"
  shows "decides E (\<lambda>C. predicate_evaluate C E (PIn ms neg) actual exact) (predicate_holds E (PIn ms neg) actual exact)"
proof -
  have loop: "decides E (\<lambda>C. search True (\<lambda>m. m actual exact) (map (member_evaluate C E) ms))
      (if True then list_ex (\<lambda>m. m actual exact) (map (member_holds E) ms) else list_all (\<lambda>m. m actual exact) (map (member_holds E) ms))"
    by (rule decides_search_map [of ms E "\<lambda>C m. m actual exact" "\<lambda>C. member_evaluate C E"]) (rule assms)
  show ?thesis
    unfolding predicate_evaluate.simps predicate_holds.simps
    using loop decides_negate [OF loop] by (intro decides_after_step) (cases neg; simp add: Let_def)
qed

lemma decides_fields:
  assumes "\<And>p actual exact. p \<in> set ps \<Longrightarrow> decides E (\<lambda>C. predicate_evaluate C E p actual exact) (predicate_holds E p actual exact)"
  shows "decides E (\<lambda>C. search False (\<lambda>q. q actual exact) (map (predicate_evaluate C E) ps))
    (list_all (\<lambda>q. q actual exact) (map (predicate_holds E) ps))"
  using decides_search_map [of ps E "\<lambda>C q. q actual exact" "\<lambda>C. predicate_evaluate C E" "\<lambda>q. q actual exact" "predicate_holds E" False] assms
  by simp

lemma evaluation_decides:
  "(matcher_ok m \<longrightarrow> (\<forall>node exact_id array_document.
      decides E (\<lambda>C. matcher_evaluate C E m node exact_id array_document) (matcher_holds E m node exact_id array_document)))
  \<and> (clause_ok c \<longrightarrow> (\<forall>node exact_id array_document.
      decides E (\<lambda>C. clause_evaluate C E c node exact_id array_document) (clause_holds E c node exact_id array_document)))
  \<and> (predicate_ok p \<longrightarrow> (\<forall>actual exact. decides E (\<lambda>C. predicate_evaluate C E p actual exact) (predicate_holds E p actual exact)))
  \<and> (member_ok b \<longrightarrow> (\<forall>actual exact. decides E (\<lambda>C. member_evaluate C E b actual exact) (member_holds E b actual exact)))
  \<and> (element_ok e \<longrightarrow> (\<forall>actual. decides E (\<lambda>C. element_evaluate C E e actual) (element_holds E e actual)))"
proof (rule DocumentMatcher_Clause_Predicate_Member_Element.induct)
  fix cs :: "'a Clause list" and rb
  assume "\<And>c. c \<in> set cs \<Longrightarrow> clause_ok c \<longrightarrow> (\<forall>node exact_id array_document.
      decides E (\<lambda>C. clause_evaluate C E c node exact_id array_document) (clause_holds E c node exact_id array_document))"
  then show "matcher_ok (DocumentMatcher cs rb) \<longrightarrow> (\<forall>node exact_id array_document.
      decides E (\<lambda>C. matcher_evaluate C E (DocumentMatcher cs rb) node exact_id array_document)
        (matcher_holds E (DocumentMatcher cs rb) node exact_id array_document))"
    using decides_matcher_step [of cs E rb] by (auto simp: list_all_iff simp del: matcher_evaluate.simps matcher_holds.simps)
next
  fix kind and ms :: "'a DocumentMatcher list"
  assume "\<And>m. m \<in> set ms \<Longrightarrow> matcher_ok m \<longrightarrow> (\<forall>node exact_id array_document.
      decides E (\<lambda>C. matcher_evaluate C E m node exact_id array_document) (matcher_holds E m node exact_id array_document))"
  then show "clause_ok (LogicalClause kind ms) \<longrightarrow> (\<forall>node exact_id array_document.
      decides E (\<lambda>C. clause_evaluate C E (LogicalClause kind ms) node exact_id array_document)
        (clause_holds E (LogicalClause kind ms) node exact_id array_document))"
    using decides_logical [of ms E kind] by (auto simp: list_all_iff simp del: clause_evaluate.simps clause_holds.simps)
next
  fix path field_id and ps :: "'a Predicate list"
  assume "\<And>p. p \<in> set ps \<Longrightarrow> predicate_ok p \<longrightarrow>
      (\<forall>actual exact. decides E (\<lambda>C. predicate_evaluate C E p actual exact) (predicate_holds E p actual exact))"
  then show "clause_ok (Field path field_id ps) \<longrightarrow> (\<forall>node exact_id array_document.
      decides E (\<lambda>C. clause_evaluate C E (Field path field_id ps) node exact_id array_document)
        (clause_holds E (Field path field_id ps) node exact_id array_document))"
    using decides_field [of path ps E field_id] by (auto simp: list_all_iff simp del: clause_evaluate.simps clause_holds.simps)
next
  fix ms :: "'a Member list" and neg
  assume "\<And>m. m \<in> set ms \<Longrightarrow> member_ok m \<longrightarrow>
      (\<forall>actual exact. decides E (\<lambda>C. member_evaluate C E m actual exact) (member_holds E m actual exact))"
  then show "predicate_ok (PIn ms neg) \<longrightarrow>
      (\<forall>actual exact. decides E (\<lambda>C. predicate_evaluate C E (PIn ms neg) actual exact) (predicate_holds E (PIn ms neg) actual exact))"
    using decides_in [of ms E neg] by (auto simp: list_all_iff simp del: predicate_evaluate.simps predicate_holds.simps)
next
  fix ms :: "'a Member list"
  assume "\<And>m. m \<in> set ms \<Longrightarrow> member_ok m \<longrightarrow>
      (\<forall>actual exact. decides E (\<lambda>C. member_evaluate C E m actual exact) (member_holds E m actual exact))"
  then show "predicate_ok (PAll ms) \<longrightarrow>
      (\<forall>actual exact. decides E (\<lambda>C. predicate_evaluate C E (PAll ms) actual exact) (predicate_holds E (PAll ms) actual exact))"
    using decides_all [of ms E] by (auto simp: list_all_iff simp del: predicate_evaluate.simps predicate_holds.simps)
next
  fix ps :: "'a Predicate list"
  assume ih: "\<And>p. p \<in> set ps \<Longrightarrow> predicate_ok p \<longrightarrow>
      (\<forall>actual exact. decides E (\<lambda>C. predicate_evaluate C E p actual exact) (predicate_holds E p actual exact))"
  show "predicate_ok (PNot ps) \<longrightarrow>
      (\<forall>actual exact. decides E (\<lambda>C. predicate_evaluate C E (PNot ps) actual exact) (predicate_holds E (PNot ps) actual exact))"
    unfolding predicate_evaluate.simps predicate_holds.simps
    by (intro impI allI decides_after_step decides_negate decides_fields) (use ih in \<open>auto simp: list_all_iff\<close>)
  show "element_ok (EFields ps) \<longrightarrow> (\<forall>actual. decides E (\<lambda>C. element_evaluate C E (EFields ps) actual) (element_holds E (EFields ps) actual))"
    unfolding element_evaluate.simps element_holds.simps
    by (intro impI allI decides_any_element decides_fields) (use ih in \<open>auto simp: list_all_iff\<close>)
next
  fix m :: "'a DocumentMatcher"
  assume "matcher_ok m \<longrightarrow> (\<forall>node exact_id array_document.
      decides E (\<lambda>C. matcher_evaluate C E m node exact_id array_document) (matcher_holds E m node exact_id array_document))"
  then show "element_ok (EDocument m) \<longrightarrow> (\<forall>actual. decides E (\<lambda>C. element_evaluate C E (EDocument m) actual) (element_holds E (EDocument m) actual))"
    using decides_return [of E False]
    unfolding element_evaluate.simps element_holds.simps element_ok.simps
    by (intro impI allI decides_any_element) (simp split: BsonValue.split)
next
  fix names
  have "decides E (\<lambda>C. types_predicate names v) (types_meaning names v)" for v
    using decides_return by (simp add: types_predicate_def types_meaning_def decides_def)
  then show "predicate_ok (PTypes names) \<longrightarrow> (\<forall>actual exact. decides E (\<lambda>C. predicate_evaluate C E (PTypes names) actual exact)
      (predicate_holds E (PTypes names) actual exact))"
    unfolding predicate_evaluate.simps predicate_holds.simps by (intro impI allI decides_after_step decides_members)
next
  fix d r
  have "decides E (\<lambda>C. mod_predicate d r v) (mod_meaning d r v)" for v
    using decides_return by (simp add: mod_predicate_def mod_meaning_def decides_def)
  then show "predicate_ok (PMod d r) \<longrightarrow> (\<forall>actual exact. decides E (\<lambda>C. predicate_evaluate C E (PMod d r) actual exact)
      (predicate_holds E (PMod d r) actual exact))"
    unfolding predicate_evaluate.simps predicate_holds.simps by (intro impI allI decides_after_step decides_members)
qed (unfold predicate_evaluate.simps predicate_holds.simps member_evaluate.simps member_holds.simps predicate_ok.simps member_ok.simps,
    auto intro!: decides_after_step decides_equal decides_negate decides_members decides_range decides_regex decides_return)

end
