(* ===== verification/Regex_Compat.thy ===== *)
theory Regex_Compat
  imports Bson_Matcher
begin

text \<open>
  Rewriting of regular expressions for the engine, \<^verbatim>\<open>document/matcher/regex_compat.rs\<close>: the pattern is parsed
  by the engine and rendered back with the Python meaning of anchors, word and space classes, and case
  folding.  Parsing, the engine's own spelling of a node and its compilation of a character class are
  fields of the engine.
\<close>

section \<open>Rendering\<close>

text \<open>Text is UTF-8: a character is a leading byte with its continuation bytes.\<close>

fun chars :: "bytes \<Rightarrow> bytes list" where
  "chars [] = []"
| "chars (b # bs) =
    (case chars bs of
       [] \<Rightarrow> [[b]]
     | c # cs \<Rightarrow> if 128 \<le> hd c \<and> hd c < 192 then (b # c) # cs else [b] # c # cs)"

fun decimal :: "nat \<Rightarrow> bytes" where
  "decimal n = (if n < 10 then [48 + of_nat n] else decimal (n div 10) @ [48 + of_nat (n mod 10)])"

declare decimal.simps [simp del]

text \<open>The byte 92 is the backslash; the capital I with a dot and the small one without have two bytes.\<close>

definition WORD :: bytes where
  "WORD = ascii ''['' @ [92] @ ascii ''p{L}'' @ [92] @ ascii ''p{N}_]''"

definition NON_WORD :: bytes where
  "NON_WORD = ascii ''[^'' @ [92] @ ascii ''p{L}'' @ [92] @ ascii ''p{N}_]''"

definition SPACE :: bytes where
  "SPACE = ascii ''['' @ [92] @ ascii ''p{White_Space}'' @ [92] @ ascii ''x1c-'' @ [92] @ ascii ''x1f]''"

definition NON_SPACE :: bytes where
  "NON_SPACE = ascii ''[^'' @ [92] @ ascii ''p{White_Space}'' @ [92] @ ascii ''x1c-'' @ [92] @ ascii ''x1f]''"

definition dotted_I :: bytes where "dotted_I = [196, 176]"
definition dotless_i :: bytes where "dotless_i = [196, 177]"
definition any_I :: bytes where "any_I = ascii ''[iI'' @ dotted_I @ dotless_i @ ascii '']''"

fun class_chars :: "bytes list \<Rightarrow> bytes" where
  "class_chars [] = []"
| "class_chars (ch # rest) =
    (if ch = [92] then
       case rest of
         [] \<Rightarrow> [92]
       | escaped # rest \<Rightarrow>
           (if escaped = ascii ''w'' then WORD
            else if escaped = ascii ''W'' then NON_WORD
            else if escaped = ascii ''s'' then SPACE
            else if escaped = ascii ''S'' then NON_SPACE
            else 92 # escaped) @ class_chars rest
     else ch @ class_chars rest)"

definition character_class :: "bytes \<Rightarrow> bytes" where
  "character_class source = class_chars (chars source)"

text \<open>What is written, the nodes counted and the calls of the request check.\<close>

type_synonym rendering = "bytes \<times> nat \<times> nat"

definition emit :: "bytes \<Rightarrow> rendering \<Rightarrow> rendering" where
  "emit s st = (fst st @ s, snd st)"

definition render_enter :: "(nat \<Rightarrow> EngineErrorKind option) \<Rightarrow> rendering \<Rightarrow> MatchError + rendering" where
  "render_enter check st =
    and_then (call check (snd (snd st))) (\<lambda>n.
    if fst (snd st) + 1 > MAX_QUERY_NODES \<or> length (fst st) > 256 * 1024 then Inl MatchLimit
    else Inr (fst st, fst (snd st) + 1, n))"

definition enclosed :: "bytes \<Rightarrow> (rendering \<Rightarrow> MatchError + rendering) \<Rightarrow> bytes \<Rightarrow> rendering \<Rightarrow> MatchError + rendering" where
  "enclosed lparen body rparen st = and_then (body (emit lparen st)) (\<lambda>st. Inr (emit rparen st))"

fun render_children :: "bytes \<Rightarrow> (rendering \<Rightarrow> MatchError + rendering) list \<Rightarrow> rendering \<Rightarrow> MatchError + rendering" where
  "render_children separator [] st = Inr st"
| "render_children separator [f] st = f st"
| "render_children separator (f # g # fs) st =
    and_then (f st) (\<lambda>st. render_children separator (g # fs) (emit separator st))"

definition folded_literal :: "'re RegexEngine \<Rightarrow> bytes \<Rightarrow> bytes" where
  "folded_literal E val =
    concat (map (\<lambda>ch. if ch \<in> {ascii ''i'', ascii ''I'', dotted_I, dotless_i} then any_I else to_str E (LiteralExpr ch False))
      (chars val))"

fun assertion_text :: "Assertion \<Rightarrow> MatchError + bytes" where
  "assertion_text StartText = Inr (92 # ascii ''A'')"
| "assertion_text EndText = Inr (ascii ''(?='' @ [92] @ ascii ''n?'' @ [92] @ ascii ''z)'')"
| "assertion_text (EndTextIgnoreTrailingNewlines False) = Inr (92 # ascii ''z'')"
| "assertion_text (StartLine False) = Inr (ascii ''(?m:^)'')"
| "assertion_text (EndLine False) = Inr (ascii ''(?m:$)'')"
| "assertion_text WordBoundary = Inr (ascii ''(?:(?<='' @ WORD @ ascii '')(?!'' @ WORD @ ascii '')|(?<!'' @ WORD
    @ ascii '')(?='' @ WORD @ ascii ''))'')"
| "assertion_text NotWordBoundary = Inr (ascii ''(?:(?<='' @ WORD @ ascii '')(?='' @ WORD @ ascii '')|(?<!'' @ WORD
    @ ascii '')(?!'' @ WORD @ ascii ''))'')"
| "assertion_text _ = Inl (QueryError 115)"

fun look_around_text :: "LookAround \<Rightarrow> bytes" where
  "look_around_text LookAhead = ascii ''(?=''"
| "look_around_text LookAheadNeg = ascii ''(?!''"
| "look_around_text LookBehind = ascii ''(?<=''"
| "look_around_text LookBehindNeg = ascii ''(?<!''"

definition repeat_text :: "nat \<Rightarrow> nat \<Rightarrow> bool \<Rightarrow> bytes" where
  "repeat_text lo hi greedy =
    (if hi = 2 ^ 64 - 1 then ascii ''{'' @ decimal lo @ ascii '',}''
     else ascii ''{'' @ decimal lo @ ascii '','' @ decimal hi @ ascii ''}'')
    @ (if greedy then [] else ascii ''?'')"

text \<open>Case folding of a character class also folds the dotted capital I and the dotless small one: they belong
  to the class if one of the three letters does, and to a negated class if all of them do.\<close>

definition delegate_text :: "'re RegexEngine \<Rightarrow> bytes \<Rightarrow> bool \<Rightarrow> MatchError + bytes" where
  "delegate_text E source casei =
    (let inner = character_class source in
     if casei then
       (case build_atom E inner of
          None \<Rightarrow> Inl (QueryError 51091)
        | Some atom \<Rightarrow>
            and_then (try_map (\<lambda>ch. case is_match E atom ch of Some b \<Rightarrow> Inr b | None \<Rightarrow> Inl MatchLimit)
              [ascii ''i'', dotted_I, dotless_i]) (\<lambda>membership.
            if (if take 2 inner = ascii ''[^'' then list_all id membership else list_ex id membership)
            then Inr (ascii ''(?i:'' @ inner @ ascii ''|'' @ any_I @ ascii '')'')
            else Inr (ascii ''(?i:(?!'' @ any_I @ ascii '')'' @ inner @ ascii '')'')))
     else Inr inner)"

definition emit_result :: "MatchError + bytes \<Rightarrow> rendering \<Rightarrow> MatchError + rendering" where
  "emit_result r st = and_then r (\<lambda>s. Inr (emit s st))"

fun condition_group :: "Expr \<Rightarrow> nat option" where
  "condition_group (BackrefExistsCondition gid None) = Some gid"
| "condition_group _ = None"

primrec render :: "(nat \<Rightarrow> EngineErrorKind option) \<Rightarrow> 're RegexEngine \<Rightarrow> Expr \<Rightarrow> rendering \<Rightarrow> MatchError + rendering" where
  "render check E EmptyExpr = (\<lambda>st. render_enter check st)"
| "render check E (AnyExpr a) = (\<lambda>st. and_then (render_enter check st) (\<lambda>st. Inr (emit (to_str E (AnyExpr a)) st)))"
| "render check E (LiteralExpr val casei) = (\<lambda>st. and_then (render_enter check st) (\<lambda>st.
    Inr (emit (if casei then ascii ''(?i:'' @ folded_literal E val @ ascii '')'' else to_str E (LiteralExpr val casei)) st)))"
| "render check E (AssertionExpr a) = (\<lambda>st. and_then (render_enter check st) (emit_result (assertion_text a)))"
| "render check E (Concat children) = (\<lambda>st. and_then (render_enter check st)
    (enclosed (ascii ''(?:'') (render_children [] (map (render check E) children)) (ascii '')'')))"
| "render check E (Alt children) = (\<lambda>st. and_then (render_enter check st)
    (enclosed (ascii ''(?:'') (render_children (ascii ''|'') (map (render check E) children)) (ascii '')'')))"
| "render check E (GroupExpr child) = (\<lambda>st. and_then (render_enter check st)
    (enclosed (ascii ''('') (render check E child) (ascii '')'')))"
| "render check E (LookAroundExpr child direction) = (\<lambda>st. and_then (render_enter check st)
    (enclosed (look_around_text direction) (render check E child) (ascii '')'')))"
| "render check E (Repeat child lo hi greedy) = (\<lambda>st. and_then (render_enter check st)
    (enclosed (ascii ''(?:'') (render check E child) (ascii '')'' @ repeat_text lo hi greedy)))"
| "render check E (Delegate inner casei) = (\<lambda>st. and_then (render_enter check st) (emit_result (delegate_text E inner casei)))"
| "render check E (Backref gid casei) = (\<lambda>st. and_then (render_enter check st) (\<lambda>st.
    Inr (emit (ascii ''(?'' @ ascii (if casei then ''i'' else ''-i'') @ ascii '':'' @ [92] @ decimal gid @ ascii '')'') st)))"
| "render check E (AtomicGroup child) = (\<lambda>st. and_then (render_enter check st)
    (enclosed (ascii ''(?>'') (render check E child) (ascii '')'')))"
| "render check E (Conditional condition true_branch false_branch) = (\<lambda>st. and_then (render_enter check st) (\<lambda>st.
    case condition_group condition of
      Some gid \<Rightarrow>
        enclosed (ascii ''(?('' @ decimal gid @ ascii '')'')
          (render_children (ascii ''|'') [render check E true_branch, render check E false_branch]) (ascii '')'') st
    | None \<Rightarrow> Inl (QueryError 115)))"
| "render check E (BackrefExistsCondition gid level) =
    (\<lambda>st. and_then (render_enter check st) (\<lambda>st. Inl (QueryError 115)))"
| "render check E (OtherExpr a) = (\<lambda>st. and_then (render_enter check st) (\<lambda>st. Inl (QueryError 115)))"

definition translate ::
    "(nat \<Rightarrow> EngineErrorKind option) \<Rightarrow> 're RegexEngine \<Rightarrow> bytes \<Rightarrow> bytes \<Rightarrow> nat \<Rightarrow> MatchError + bytes \<times> nat" where
  "translate check E pattern flags n =
    (let kept = filter (\<lambda>b. b \<in> set (ascii ''imsx'')) flags;
         source = (if kept = [] then pattern else ascii ''(?'' @ kept @ ascii '')'' @ pattern)
     in case parse_tree E source of
          None \<Rightarrow> Inl (QueryError 51091)
        | Some expr \<Rightarrow> and_then (render check E expr ([], 0, n)) (\<lambda>(buf, _, n). Inr (buf, n)))"

section \<open>Every node is counted and nothing written is taken back\<close>

primrec expr_nodes :: "Expr \<Rightarrow> nat" where
  "expr_nodes EmptyExpr = 1"
| "expr_nodes (AnyExpr _) = 1"
| "expr_nodes (LiteralExpr _ _) = 1"
| "expr_nodes (AssertionExpr _) = 1"
| "expr_nodes (Concat es) = Suc (sum_list (map expr_nodes es))"
| "expr_nodes (Alt es) = Suc (sum_list (map expr_nodes es))"
| "expr_nodes (GroupExpr e) = Suc (expr_nodes e)"
| "expr_nodes (LookAroundExpr e _) = Suc (expr_nodes e)"
| "expr_nodes (Repeat e _ _ _) = Suc (expr_nodes e)"
| "expr_nodes (Delegate _ _) = 1"
| "expr_nodes (Backref _ _) = 1"
| "expr_nodes (AtomicGroup e) = Suc (expr_nodes e)"
| "expr_nodes (Conditional _ t f) = Suc (expr_nodes t + expr_nodes f)"
| "expr_nodes (BackrefExistsCondition _ _) = 1"
| "expr_nodes (OtherExpr _) = 1"

text \<open>\<open>writes f k\<close>: the step \<open>f\<close> appends to the text and counts \<open>k\<close> nodes within the limit, or fails with an error
  that is not a panic.\<close>

definition writes :: "(rendering \<Rightarrow> MatchError + rendering) \<Rightarrow> nat \<Rightarrow> bool" where
  "writes f k \<longleftrightarrow> (\<forall>buf nodes n. nodes \<le> MAX_QUERY_NODES \<longrightarrow>
    (case f (buf, nodes, n) of
       Inl e \<Rightarrow> e \<noteq> MatchPanic
     | Inr (buf', nodes', n') \<Rightarrow> (\<exists>more. buf' = buf @ more) \<and> nodes' = nodes + k \<and> nodes' \<le> MAX_QUERY_NODES))"

lemma writesI:
  assumes "\<And>buf nodes n. nodes \<le> MAX_QUERY_NODES \<Longrightarrow> f (buf, nodes, n) \<noteq> Inl MatchPanic"
    and "\<And>buf nodes n buf' nodes' n'. nodes \<le> MAX_QUERY_NODES \<Longrightarrow> f (buf, nodes, n) = Inr (buf', nodes', n') \<Longrightarrow>
      (\<exists>more. buf' = buf @ more) \<and> nodes' = nodes + k \<and> nodes' \<le> MAX_QUERY_NODES"
  shows "writes f k"
  unfolding writes_def using assms by (auto split: sum.split)

lemma writesD:
  assumes "writes f k" "nodes \<le> MAX_QUERY_NODES"
  shows "f (buf, nodes, n) \<noteq> Inl MatchPanic"
    and "f (buf, nodes, n) = Inr (buf', nodes', n') \<Longrightarrow>
      (\<exists>more. buf' = buf @ more) \<and> nodes' = nodes + k \<and> nodes' \<le> MAX_QUERY_NODES"
proof -
  have "case f (buf, nodes, n) of
       Inl e \<Rightarrow> e \<noteq> MatchPanic
     | Inr (buf', nodes', n') \<Rightarrow> (\<exists>more. buf' = buf @ more) \<and> nodes' = nodes + k \<and> nodes' \<le> MAX_QUERY_NODES"
    using assms unfolding writes_def by blast
  then show "f (buf, nodes, n) \<noteq> Inl MatchPanic"
    and "f (buf, nodes, n) = Inr (buf', nodes', n') \<Longrightarrow>
      (\<exists>more. buf' = buf @ more) \<and> nodes' = nodes + k \<and> nodes' \<le> MAX_QUERY_NODES" by auto
qed

lemma writes_bind:
  assumes "writes f j" "writes g k"
  shows "writes (\<lambda>st. and_then (f st) g) (j + k)"
proof (rule writesI)
  fix buf nodes n
  assume nodes: "nodes \<le> MAX_QUERY_NODES"
  show "and_then (f (buf, nodes, n)) g \<noteq> Inl MatchPanic"
  proof (cases "f (buf, nodes, n)")
    case (Inl e)
    then show ?thesis using writesD(1) [OF assms(1) nodes, of buf n] by simp
  next
    case (Inr st)
    obtain buf1 nodes1 n1 where st: "st = (buf1, nodes1, n1)" by (cases st)
    have "nodes1 \<le> MAX_QUERY_NODES" using writesD(2) [OF assms(1) nodes] Inr st by blast
    from writesD(1) [OF assms(2) this] show ?thesis using Inr st by simp
  qed
next
  fix buf nodes n buf' nodes' n'
  assume nodes: "nodes \<le> MAX_QUERY_NODES" and r: "and_then (f (buf, nodes, n)) g = Inr (buf', nodes', n')"
  then obtain buf1 nodes1 n1 where f: "f (buf, nodes, n) = Inr (buf1, nodes1, n1)" and g: "g (buf1, nodes1, n1) = Inr (buf', nodes', n')"
    by (cases "f (buf, nodes, n)") auto
  note first = writesD(2) [OF assms(1) nodes f]
  note second = writesD(2) [OF assms(2) _ g]
  show "(\<exists>more. buf' = buf @ more) \<and> nodes' = nodes + (j + k) \<and> nodes' \<le> MAX_QUERY_NODES"
    using first second by force
qed

lemma writes_enter: "writes (render_enter check) 1"
  by (rule writesI) (auto simp: render_enter_def call_def split: option.splits if_splits)

lemma writes_emit: "writes (\<lambda>st. Inr (emit s st)) 0"
  by (rule writesI) (auto simp: emit_def)

lemma writes_result: "r \<noteq> Inl MatchPanic \<Longrightarrow> writes (emit_result r) 0"
  by (rule writesI) (auto simp: emit_result_def emit_def result_simps)

lemma writes_fail: "e \<noteq> MatchPanic \<Longrightarrow> writes (\<lambda>st. Inl e) k"
  by (rule writesI) auto

lemma writes_emit_then: "writes f k \<Longrightarrow> writes (\<lambda>st. f (emit s st)) k"
  using writes_bind [OF writes_emit, of f k s] by simp

lemma writes_enclosed: "writes f k \<Longrightarrow> writes (enclosed lparen f rparen) k"
  using writes_bind [OF writes_emit_then [of f k lparen] writes_emit [of rparen]] by (simp add: enclosed_def [abs_def])

lemma writes_children: "list_all2 writes fs ks \<Longrightarrow> writes (render_children separator fs) (sum_list ks)"
proof (induction fs arbitrary: ks)
  case Nil
  then show ?case by (intro writesI) auto
next
  case (Cons f fs)
  then obtain k ks' where ks: "ks = k # ks'" "writes f k" "list_all2 writes fs ks'" by (auto simp: list_all2_Cons1)
  show ?case
  proof (cases fs)
    case Nil
    then show ?thesis using ks by (simp add: writes_def)
  next
    case (Cons g gs)
    from writes_bind [OF ks(2) writes_emit_then [OF Cons.IH [OF ks(3)]]]
    show ?thesis using ks(1) Cons by simp
  qed
qed

lemma try_map_no_panic: "(\<And>x. f x \<noteq> Inl e) \<Longrightarrow> try_map f xs \<noteq> Inl e"
  by (induction xs) (auto simp: result_simps)

lemma texts_no_panic: "assertion_text a \<noteq> Inl MatchPanic" "delegate_text E source casei \<noteq> Inl MatchPanic"
proof -
  show "assertion_text a \<noteq> Inl MatchPanic" by (cases a rule: assertion_text.cases) auto
  have "try_map (\<lambda>ch. case is_match E atom ch of Some b \<Rightarrow> Inr b | None \<Rightarrow> Inl MatchLimit) cs \<noteq> Inl MatchPanic" for atom cs
    by (rule try_map_no_panic) (simp split: option.split)
  then show "delegate_text E source casei \<noteq> Inl MatchPanic"
    unfolding delegate_text_def Let_def by (auto simp: result_simps simp del: try_map.simps split: option.split)
qed

lemma writes_entered: "writes f k \<Longrightarrow> writes (\<lambda>st. and_then (render_enter check st) f) (Suc k)"
  using writes_bind [OF writes_enter] by simp

lemma render_writes: "writes (render check E e) (expr_nodes e)"
proof (induction e)
  case EmptyExpr
  show ?case using writes_enter by simp
next
  case (AnyExpr a)
  show ?case using writes_entered [OF writes_emit] by simp
next
  case (LiteralExpr val casei)
  show ?case using writes_entered [OF writes_emit] by simp
next
  case (AssertionExpr a)
  show ?case using writes_entered [OF writes_result [OF texts_no_panic(1)]] by simp
next
  case (Concat es)
  then have "list_all2 writes (map (render check E) es) (map expr_nodes es)" by (simp add: list_all2_conv_all_nth)
  from writes_entered [OF writes_enclosed [OF writes_children [OF this]]] show ?case by simp
next
  case (Alt es)
  then have "list_all2 writes (map (render check E) es) (map expr_nodes es)" by (simp add: list_all2_conv_all_nth)
  from writes_entered [OF writes_enclosed [OF writes_children [OF this]]] show ?case by simp
next
  case (GroupExpr e)
  from writes_entered [OF writes_enclosed [OF GroupExpr]] show ?case by simp
next
  case (LookAroundExpr e direction)
  from writes_entered [OF writes_enclosed [OF LookAroundExpr]] show ?case by simp
next
  case (Repeat e lo hi greedy)
  from writes_entered [OF writes_enclosed [OF Repeat]] show ?case by simp
next
  case (Delegate source casei)
  show ?case using writes_entered [OF writes_result [OF texts_no_panic(2)]] by simp
next
  case (Backref gid casei)
  show ?case using writes_entered [OF writes_emit] by simp
next
  case (AtomicGroup e)
  from writes_entered [OF writes_enclosed [OF AtomicGroup]] show ?case by simp
next
  case (Conditional c t f)
  have branches: "writes (render_children separator [render check E t, render check E f]) (expr_nodes t + expr_nodes f)" for separator
    using writes_children [of "[render check E t, render check E f]" "[expr_nodes t, expr_nodes f]"] Conditional by simp
  show ?case
  proof (cases "condition_group c")
    case None
    then show ?thesis using writes_entered [OF writes_fail, of "QueryError 115"] by simp
  next
    case (Some gid)
    from writes_entered [OF writes_enclosed [OF branches]] show ?thesis using Some by simp
  qed
next
  case (BackrefExistsCondition gid level)
  show ?case using writes_entered [OF writes_fail, of "QueryError 115"] by simp
next
  case (OtherExpr a)
  show ?case using writes_entered [OF writes_fail, of "QueryError 115"] by simp
qed

lemma translate_outcome:
  "translate check E pattern flags n \<noteq> Inl MatchPanic"
  "translate check E pattern flags n = Inr (buf, n') \<Longrightarrow>
    \<exists>source expr. parse_tree E source = Some expr \<and> expr_nodes expr \<le> MAX_QUERY_NODES"
proof -
  have "writes (render check E expr) (expr_nodes expr)" for expr by (rule render_writes)
  note w = writesD [OF this, of 0]
  show "translate check E pattern flags n \<noteq> Inl MatchPanic"
    using w(1) by (auto simp: translate_def Let_def result_simps split: option.split)
  assume "translate check E pattern flags n = Inr (buf, n')"
  then show "\<exists>source expr. parse_tree E source = Some expr \<and> expr_nodes expr \<le> MAX_QUERY_NODES"
    using w(2) by (fastforce simp: translate_def Let_def result_simps split: option.splits)
qed

end
