(* ===== verification/Bson_Query.thy ===== *)
theory Bson_Query
  imports Regex_Compat
begin

text \<open>
  Compilation of document queries, \<^verbatim>\<open>document/matcher.rs\<close>: every branch of a query is validated
  eagerly, with bounds on nodes, depth and regular expressions.  The encoder of the query document,
  which bounds its size, is a parameter.
\<close>

section \<open>Names\<close>

definition as_array :: "BsonValue \<Rightarrow> BsonValue list option" where
  "as_array v = (case v of Array values \<Rightarrow> Some values | _ \<Rightarrow> None)"

definition as_document :: "BsonValue \<Rightarrow> BsonDocument option" where
  "as_document v = (case v of Document d \<Rightarrow> Some d | _ \<Rightarrow> None)"

definition is_regex :: "BsonValue \<Rightarrow> bool" where
  "is_regex v = (case v of RegularExpression _ _ \<Rightarrow> True | _ \<Rightarrow> False)"

definition starts_with :: "bytes \<Rightarrow> string \<Rightarrow> bool" where
  "starts_with name s \<longleftrightarrow> take (length s) name = ascii s"

definition names :: "string list \<Rightarrow> bytes \<Rightarrow> bool" where
  "names ss name \<longleftrightarrow> name \<in> ascii ` set ss"

fun split_dots :: "bytes \<Rightarrow> bytes list" where
  "split_dots [] = [[]]"
| "split_dots (b # bs) =
    (if b = 46 then [] # split_dots bs
     else case split_dots bs of part # parts \<Rightarrow> (b # part) # parts | [] \<Rightarrow> [[b]])"

definition operator_document :: "BsonDocument \<Rightarrow> bool" where
  "operator_document document = list_ex (\<lambda>(key, _). starts_with key ''$'') document"

definition field_operator :: "bytes \<Rightarrow> bool" where
  "field_operator name = names [''$all'', ''$elemMatch'', ''$eq'', ''$exists'', ''$gt'', ''$gte'', ''$in'', ''$lt'',
    ''$lte'', ''$ne'', ''$nin'', ''$not'', ''$mod'', ''$options'', ''$regex'', ''$size'', ''$type''] name"

definition known_operator :: "bytes \<Rightarrow> bool" where
  "known_operator name \<longleftrightarrow> field_operator name \<or>
    names [''$and'', ''$or'', ''$nor'', ''$comment'', ''$bitsAllClear'', ''$bitsAllSet'', ''$bitsAnyClear'', ''$bitsAnySet'',
      ''$expr'', ''$geoIntersects'', ''$geoWithin'', ''$jsonSchema'', ''$near'', ''$nearSphere'', ''$text'', ''$where''] name"

section \<open>The compiler\<close>

record Compiler =
  nodes :: nat
  regexes :: nat
  checks :: nat

definition compiler_check :: "(nat \<Rightarrow> EngineErrorKind option) \<Rightarrow> Compiler \<Rightarrow> MatchError + Compiler" where
  "compiler_check check st = and_then (call check (checks st)) (\<lambda>n. Inr (st\<lparr>checks := n\<rparr>))"

definition compiler_step :: "(nat \<Rightarrow> EngineErrorKind option) \<Rightarrow> nat \<Rightarrow> Compiler \<Rightarrow> MatchError + Compiler" where
  "compiler_step check depth st =
    and_then (compiler_check check st) (\<lambda>st.
    if nodes st + 1 > MAX_QUERY_NODES \<or> depth > MAX_QUERY_DEPTH then Inl MatchLimit
    else Inr (st\<lparr>nodes := nodes st + 1\<rparr>))"

definition compile_regex ::
    "(nat \<Rightarrow> EngineErrorKind option) \<Rightarrow> 're RegexEngine \<Rightarrow> BsonValue \<Rightarrow> bytes \<Rightarrow> Compiler
      \<Rightarrow> MatchError + 're CompiledRegex \<times> Compiler" where
  "compile_regex check E operand options st =
    and_then (compiler_check check st) (\<lambda>st.
    and_then (check_that (list_all (\<lambda>b. b \<in> set (ascii ''imsux'')) options) (QueryError 51108)) (\<lambda>_.
    and_then
      (case operand of
         String pattern \<Rightarrow> Inr (pattern, options)
       | RegularExpression pattern flags \<Rightarrow>
           if options \<noteq> [] \<and> flags \<noteq> [] then Inl (QueryError 51075)
           else Inr (pattern, if options = [] then flags else options)
       | _ \<Rightarrow> Inl (QueryError 2)) (\<lambda>(pattern, flags).
    if 0 \<in> set pattern then Inl (QueryError 2)
    else if regexes st + 1 > MAX_REGEX_COUNT \<or> length pattern > MAX_REGEX_BYTES then Inl MatchLimit
    else
      let st = st\<lparr>regexes := regexes st + 1\<rparr> in
      case regex_new pattern flags of
        Inl _ \<Rightarrow> Inl (QueryError 2)
      | Inr ident \<Rightarrow>
          if 108 \<in> set flags then Inr (CompiledRegex ident None, st)
          else
            and_then (translate check E pattern flags (checks st)) (\<lambda>(translated, n).
            case build E translated of
              None \<Rightarrow> Inl (QueryError 51091)
            | Some program \<Rightarrow> Inr (CompiledRegex ident (Some program), st\<lparr>checks := n\<rparr>)))))"

definition lookup_type :: "(int \<times> bytes \<Rightarrow> bool) \<Rightarrow> MatchError + bytes" where
  "lookup_type matches = (case List.find matches TYPE_NAMES of Some (_, name) \<Rightarrow> Inr name | None \<Rightarrow> Inl (QueryError 2))"

definition type_operand :: "BsonValue \<Rightarrow> MatchError + bytes" where
  "type_operand v =
    (case v of
       String name \<Rightarrow>
         if name = ascii ''number'' then Inr name else lookup_type (\<lambda>(_, candidate). candidate = name)
     | _ \<Rightarrow>
         if canonical_number v \<noteq> None then
           (case integer v False of
              None \<Rightarrow> Inl (QueryError 2)
            | Some code \<Rightarrow> lookup_type (\<lambda>(candidate, _). candidate = code))
         else Inl (QueryError 14))"

definition types :: "(nat \<Rightarrow> EngineErrorKind option) \<Rightarrow> BsonValue \<Rightarrow> Compiler \<Rightarrow> MatchError + bytes list \<times> Compiler" where
  "types check operand st =
    (let values = (case as_array operand of Some values \<Rightarrow> values | None \<Rightarrow> [operand]) in
     if values = [] then Inl (QueryError 9)
     else if length values > MAX_QUERY_NODES then Inl MatchLimit
     else fold_try (\<lambda>v (result, st).
       and_then (compiler_check check st) (\<lambda>st.
       and_then (type_operand v) (\<lambda>name.
       Inr (if name \<in> set result then result else result @ [name], st)))) values ([], st))"

text \<open>The operators without nested queries; no predicate for \<^verbatim>\<open>$options\<close>, which \<^verbatim>\<open>$regex\<close> reads.\<close>

definition simple_operator ::
    "(nat \<Rightarrow> EngineErrorKind option) \<Rightarrow> 're RegexEngine \<Rightarrow> BsonDocument \<Rightarrow> bytes \<Rightarrow> BsonValue \<Rightarrow> Compiler
      \<Rightarrow> MatchError + 're Predicate list \<times> Compiler" where
  "simple_operator check E document operator operand st =
    (if names [''$eq''] operator then Inr ([PEqual operand], st)
     else if names [''$ne''] operator then
       (if is_regex operand then Inl (QueryError 2) else Inr ([PNotEqual operand], st))
     else if names [''$gt'', ''$gte'', ''$lt'', ''$lte''] operator then
       (if is_regex operand then Inl (QueryError 2)
        else Inr ([PRange operand (starts_with operator ''$g'') (last operator = 101)], st))
     else if names [''$exists''] operator then Inr ([PExists (truthy operand)], st)
     else if names [''$regex''] operator then
       and_then
         (case get_first document (ascii ''$options'') of
            Some (String options) \<Rightarrow> Inr options
          | None \<Rightarrow> Inr []
          | Some _ \<Rightarrow> Inl (QueryError 2)) (\<lambda>options.
       and_then (compile_regex check E operand options st) (\<lambda>(r, st). Inr ([PRegex r], st)))
     else if names [''$options''] operator then
       (if get_first document (ascii ''$regex'') = None then Inl (QueryError 2) else Inr ([], st))
     else if names [''$size''] operator then
       (case integer operand False of
          Some n \<Rightarrow> if 0 \<le> n \<and> n \<le> 2 ^ 31 - 1 then Inr ([PSize (nat n)], st) else Inl (QueryError 2)
        | None \<Rightarrow> Inl (QueryError 2))
     else if names [''$mod''] operator then
       (case as_array operand of
          Some [first, second] \<Rightarrow>
            (case integer first True of
               None \<Rightarrow> Inl (QueryError 2)
             | Some divisor \<Rightarrow>
                 if divisor = 0 then Inl (QueryError 2)
                 else case integer second True of
                     None \<Rightarrow> Inl (QueryError 2)
                   | Some remainder \<Rightarrow> Inr ([PMod divisor remainder], st))
        | _ \<Rightarrow> Inl (QueryError 2))
     else if names [''$type''] operator then
       and_then (types check operand st) (\<lambda>(ts, st). Inr ([PTypes ts], st))
     else Inl MatchPanic)"

definition logical_kind :: "bytes \<Rightarrow> Logical" where
  "logical_kind name = (if names [''$and''] name then LogicalAnd else if names [''$or''] name then LogicalOr else LogicalNor)"

lemma and_then_pair_cong [fundef_cong]:
  "m = m' \<Longrightarrow> (\<And>x y. m' = Inr (x, y) \<Longrightarrow> f (x, y) = f' (x, y)) \<Longrightarrow> and_then m f = and_then m' f'"
  by (cases m') auto

lemma compiler_step_depth [simp]: "compiler_step check depth st = Inr st' \<Longrightarrow> depth \<le> MAX_QUERY_DEPTH"
  by (auto simp: compiler_step_def result_simps split: if_splits)

function compile_document ::
      "(nat \<Rightarrow> EngineErrorKind option) \<Rightarrow> 're RegexEngine \<Rightarrow> BsonDocument \<Rightarrow> nat \<Rightarrow> bool \<Rightarrow> Compiler
        \<Rightarrow> MatchError + 're DocumentMatcher \<times> Compiler"
  and compile_predicates ::
      "(nat \<Rightarrow> EngineErrorKind option) \<Rightarrow> 're RegexEngine \<Rightarrow> BsonDocument \<Rightarrow> nat \<Rightarrow> bool \<Rightarrow> Compiler
        \<Rightarrow> MatchError + 're Predicate list \<times> Compiler"
  and compile_element ::
      "(nat \<Rightarrow> EngineErrorKind option) \<Rightarrow> 're RegexEngine \<Rightarrow> BsonValue \<Rightarrow> nat \<Rightarrow> Compiler
        \<Rightarrow> MatchError + 're Element \<times> Compiler" where
  "compile_document check E query depth inside_element st =
    and_then (compiler_step check depth st) (\<lambda>st.
    and_then
      (fold_try (\<lambda>(name, value) (cs, st).
        and_then (compiler_step check depth st) (\<lambda>st.
        if names [''$comment''] name then Inr (cs, st)
        else if names [''$and'', ''$or'', ''$nor''] name then
          (case as_array value of
             None \<Rightarrow> Inl (QueryError 2)
           | Some values \<Rightarrow>
               if values = [] then Inl (QueryError 2)
               else
                 and_then
                   (fold_try (\<lambda>child (ms, st).
                     case as_document child of
                       None \<Rightarrow> Inl (QueryError 14)
                     | Some d \<Rightarrow>
                         and_then (compile_document check E d (Suc depth) inside_element st) (\<lambda>(m, st).
                         Inr (ms @ [m], st))) values ([], st))
                   (\<lambda>(ms, st). Inr (cs @ [LogicalClause (logical_kind name) ms], st)))
        else if starts_with name ''$'' then
          Inl (QueryError (if inside_element \<and> (field_operator name \<or> \<not> known_operator name) then 2 else 115))
        else if length (split_dots name) > MAX_QUERY_DEPTH then Inl MatchLimit
        else
          and_then
            (case as_document value of
               Some document \<Rightarrow>
                 if operator_document document
                 then compile_predicates check E document (Suc depth) inside_element st
                 else Inr ([PEqual value], st)
             | None \<Rightarrow>
                 if is_regex value
                 then and_then (compile_regex check E value [] st) (\<lambda>(r, st). Inr ([PRegex r], st))
                 else Inr ([PEqual value], st))
            (\<lambda>(ps, st). Inr (cs @ [Field (split_dots name) (names [''_id''] name) ps], st)))) query ([], st))
      (\<lambda>(cs, st). Inr (DocumentMatcher cs 0, st)))"
| "compile_predicates check E document depth inside_element st =
    and_then (compiler_step check depth st) (\<lambda>st.
    fold_try (\<lambda>(operator, operand) (ps, st).
      and_then (compiler_step check depth st) (\<lambda>st.
      if \<not> field_operator operator then
        Inl (QueryError (if \<not> starts_with operator ''$'' \<or> names [''$comment''] operator
          \<or> (inside_element \<and> \<not> known_operator operator) then 2 else 115))
      else
        and_then
          (if names [''$in'', ''$nin'', ''$all''] operator then
             (case as_array operand of
                None \<Rightarrow> Inl (QueryError 2)
              | Some values \<Rightarrow>
                  and_then
                    (fold_try (\<lambda>value (ms, st).
                      and_then (compiler_step check depth st) (\<lambda>st.
                      and_then
                        (if is_regex value
                         then and_then (compile_regex check E value [] st) (\<lambda>(r, st). Inr (MRegex r, st))
                         else
                           case as_document value of
                             None \<Rightarrow> Inr (MLiteral value, st)
                           | Some d \<Rightarrow>
                               if operator_document d then
                                 (if \<not> names [''$all''] operator \<or> length d \<noteq> 1 then Inl (QueryError 2)
                                  else
                                    case get_first d (ascii ''$elemMatch'') of
                                      None \<Rightarrow> Inl (QueryError 2)
                                    | Some element \<Rightarrow>
                                        and_then (compile_element check E element (Suc depth) st) (\<lambda>(e, st).
                                        Inr (MElement e, st)))
                               else Inr (MLiteral value, st))
                        (\<lambda>(m, st). Inr (ms @ [m], st)))) values ([], st))
                    (\<lambda>(ms, st).
                      Inr ([if names [''$all''] operator then PAll ms else PIn ms (names [''$nin''] operator)], st)))
           else if names [''$elemMatch''] operator then
             and_then (compile_element check E operand (Suc depth) st) (\<lambda>(e, st). Inr ([PElement e], st))
           else if names [''$not''] operator then
             (if is_regex operand
              then and_then (compile_regex check E operand [] st) (\<lambda>(r, st). Inr ([PNot [PRegex r]], st))
              else
                case as_document operand of
                  None \<Rightarrow> Inl (QueryError 2)
                | Some d \<Rightarrow>
                    if d \<noteq> [] then
                      and_then (compile_predicates check E d (Suc depth) inside_element st) (\<lambda>(qs, st).
                      Inr ([PNot qs], st))
                    else Inl (QueryError 2))
           else simple_operator check E document operator operand st)
          (\<lambda>(qs, st). Inr (ps @ qs, st)))) document ([], st))"
| "compile_element check E operand depth st =
    (case as_document operand of
       None \<Rightarrow> Inl (QueryError 2)
     | Some d \<Rightarrow>
         if \<not> list_ex (\<lambda>(key, _). names [''$and'', ''$or'', ''$nor''] key) d \<and> list_ex (\<lambda>(key, _). field_operator key) d
         then and_then (compile_predicates check E d depth True st) (\<lambda>(ps, st). Inr (EFields ps, st))
         else and_then (compile_document check E d depth True st) (\<lambda>(m, st). Inr (EDocument m, st)))"
  by pat_completeness auto

termination
  by (relation "measure (case_sum (\<lambda>(check, E, query, depth, inside, st). 2 * (102 - depth))
      (case_sum (\<lambda>(check, E, document, depth, inside, st). 2 * (102 - depth))
        (\<lambda>(check, E, operand, depth, st). 2 * (102 - depth) + 1)))")
    (auto dest!: compiler_step_depth simp: MAX_QUERY_DEPTH_def)

declare compile_document.simps [simp del] compile_predicates.simps [simp del] compile_element.simps [simp del]

definition saturating_mul :: "nat \<Rightarrow> nat \<Rightarrow> nat" where
  "saturating_mul a b = min (a * b) (2 ^ 64 - 1)"

definition saturating_add :: "nat \<Rightarrow> nat \<Rightarrow> nat" where
  "saturating_add a b = min (a + b) (2 ^ 64 - 1)"

text \<open>\<open>encode\<close> is the bounded encoder of BSON documents: the encoded length, or its error as an engine error.\<close>

definition compile_with_check ::
    "(nat \<Rightarrow> EngineErrorKind option) \<Rightarrow> 're RegexEngine \<Rightarrow> (BsonDocument \<Rightarrow> nat \<Rightarrow> EngineErrorKind + nat) \<Rightarrow> BsonDocument
      \<Rightarrow> MatchError + 're DocumentMatcher" where
  "compile_with_check check E encode query =
    and_then (call check 0) (\<lambda>n.
    case encode query MAX_QUERY_BYTES of
      Inl e \<Rightarrow> Inl (Refused e)
    | Inr size_in_bytes \<Rightarrow>
        and_then (compile_document check E query 0 False \<lparr>nodes = 0, regexes = 0, checks = n\<rparr>) (\<lambda>(m, st).
        Inr (DocumentMatcher (clauses m)
          (saturating_add (saturating_add (saturating_mul size_in_bytes 16) (saturating_mul (nodes st) 128))
            (saturating_mul (regexes st) (1024 * 1024))))))"

definition compile_query ::
    "'re RegexEngine \<Rightarrow> (BsonDocument \<Rightarrow> nat \<Rightarrow> EngineErrorKind + nat) \<Rightarrow> BsonDocument \<Rightarrow> MatchError + 're DocumentMatcher" where
  "compile_query E encode query = compile_with_check (\<lambda>_. None) E encode query"

end
