(* ===== verification/Bson_Match_Properties.thy ===== *)
theory Bson_Match_Properties
  imports Bson_Match_Semantics Bson_Query
begin

text \<open>
  Compiled queries are well formed, so that matching a document decides the query; and what the index
  planner reads off a query is necessary for a match.
\<close>

section \<open>Compiled queries are well formed\<close>

definition yields :: "('a \<Rightarrow> bool) \<Rightarrow> MatchError + 'a \<times> 's \<Rightarrow> bool" where
  "yields P r \<longleftrightarrow> (case r of Inr (x, _) \<Rightarrow> P x | Inl e \<Rightarrow> e \<noteq> MatchPanic)"

lemma yields_simps [simp]: "yields P (Inr (x, st)) \<longleftrightarrow> P x" "yields P (Inl e) \<longleftrightarrow> e \<noteq> MatchPanic"
  by (simp_all add: yields_def)

lemma yields_bind: "yields P r \<Longrightarrow> (\<And>x st. P x \<Longrightarrow> yields Q (f (x, st))) \<Longrightarrow> yields Q (and_then r f)"
  by (cases r) auto

lemma yields_any: "yields P r \<Longrightarrow> yields (\<lambda>_. True) r"
  by (cases r) auto

lemma yields_if: "(b \<Longrightarrow> yields P x) \<Longrightarrow> (\<not> b \<Longrightarrow> yields P y) \<Longrightarrow> yields P (if b then x else y)"
  by simp

lemma yields_fold:
  assumes "\<And>x acc st. x \<in> set xs \<Longrightarrow> P acc \<Longrightarrow> yields P (f x (acc, st))" "P acc"
  shows "yields P (fold_try f xs (acc, st))"
  using assms
proof (induction xs arbitrary: acc st)
  case (Cons x xs)
  show ?case unfolding fold_try.simps
    by (rule yields_bind [where P = P]) (use Cons in auto)
qed simp

lemma yields_step:
  "(\<And>st'. depth \<le> MAX_QUERY_DEPTH \<Longrightarrow> yields P (f st')) \<Longrightarrow> yields P (and_then (compiler_step check depth st) f)"
  by (auto simp: compiler_step_def compiler_check_def call_def split: option.split)

lemma yields_check: "(\<And>st'. yields P (f st')) \<Longrightarrow> yields P (and_then (compiler_check check st) f)"
  by (auto simp: compiler_check_def call_def split: option.split)

lemma yields_plain: "r \<noteq> Inl MatchPanic \<Longrightarrow> (\<And>x. r = Inr x \<Longrightarrow> yields P (f x)) \<Longrightarrow> yields P (and_then r f)"
  by (cases r) auto

lemma yields_regex: "yields (\<lambda>_. True) (compile_regex check E operand options st)"
proof -
  have program: "yields (\<lambda>_. True) (and_then (translate check E pattern flags n) (\<lambda>(translated, n).
      case build E translated of
        None \<Rightarrow> Inl (QueryError 51091)
      | Some program \<Rightarrow> Inr (CompiledRegex ident (Some program), st\<lparr>checks := n\<rparr>)))" for pattern flags ident n and st :: Compiler
    by (intro yields_plain translate_outcome(1)) (auto split: option.split)
  show ?thesis
    unfolding compile_regex_def Let_def
    by (intro yields_check yields_plain) (auto simp: program check_that_def split: BsonValue.splits if_splits sum.split)
qed

lemma yields_types: "yields (\<lambda>_. True) (types check operand st)"
proof -
  have "type_operand v \<noteq> Inl MatchPanic" for v
    by (auto simp: type_operand_def lookup_type_def split: BsonValue.split option.split)
  then have "yields (\<lambda>_. True) (fold_try (\<lambda>v (result, st).
       and_then (compiler_check check st) (\<lambda>st.
       and_then (type_operand v) (\<lambda>name.
       Inr (if name \<in> set result then result else result @ [name], st)))) vs ([], st))" for vs
    by (intro yields_fold) (auto intro!: yields_check yields_plain)
  then show ?thesis by (simp add: types_def Let_def)
qed

lemma names_iff: "names ss name \<longleftrightarrow> name \<in> ascii ` set ss"
  by (simp add: names_def)

lemma yields_simple_operator:
  assumes "field_operator operator"
    and "\<not> names [''$in'', ''$nin'', ''$all''] operator" "\<not> names [''$elemMatch''] operator" "\<not> names [''$not''] operator"
  shows "yields (list_all predicate_ok) (simple_operator check E document operator operand st)"
proof -
  have options: "(case get_first document (ascii ''$options'') of
            Some (String options) \<Rightarrow> Inr options
          | None \<Rightarrow> Inr []
          | Some _ \<Rightarrow> Inl (QueryError 2)) \<noteq> Inl MatchPanic"
    by (auto split: option.split BsonValue.split)
  have regex: "yields (list_all predicate_ok) (and_then (compile_regex check E operand opts st) (\<lambda>(r, st). Inr ([PRegex r], st)))" for opts
    by (rule yields_bind [OF yields_regex]) simp
  have types: "yields (list_all predicate_ok) (and_then (types check operand st) (\<lambda>(ts, st). Inr ([PTypes ts], st)))"
    by (rule yields_bind [OF yields_types]) simp
  have chain: "names [''$eq''] operator \<or> names [''$ne''] operator \<or> names [''$gt'', ''$gte'', ''$lt'', ''$lte''] operator
      \<or> names [''$exists''] operator \<or> names [''$regex''] operator \<or> names [''$options''] operator
      \<or> names [''$size''] operator \<or> names [''$mod''] operator \<or> names [''$type''] operator"
    using assms unfolding field_operator_def names_iff set_simps image_insert image_empty insert_iff empty_iff by blast
  have size: "yields (list_all predicate_ok) (case integer operand False of
          Some n \<Rightarrow> if 0 \<le> n \<and> n \<le> 2 ^ 31 - 1 then Inr ([PSize (nat n)], st) else Inl (QueryError 2)
        | None \<Rightarrow> Inl (QueryError 2))"
    by (simp split: option.split)
  have modulus: "yields (list_all predicate_ok) (case as_array operand of
          Some [first, second] \<Rightarrow>
            (case integer first True of
               None \<Rightarrow> Inl (QueryError 2)
             | Some divisor \<Rightarrow>
                 if divisor = 0 then Inl (QueryError 2)
                 else case integer second True of
                     None \<Rightarrow> Inl (QueryError 2)
                   | Some remainder \<Rightarrow> Inr ([PMod divisor remainder], st))
        | _ \<Rightarrow> Inl (QueryError 2))"
    by (auto split: option.split list.split)
  show ?thesis
    unfolding simple_operator_def
    by (intro yields_if size modulus types yields_plain [OF options] regex) (use chain in simp_all)
qed

lemma split_dots_nonempty: "split_dots bs \<noteq> []"
  by (cases bs) (auto split: list.split)

definition compiles_at :: "(nat \<Rightarrow> EngineErrorKind option) \<Rightarrow> 're RegexEngine \<Rightarrow> nat \<Rightarrow> bool" where
  "compiles_at check E depth \<longleftrightarrow>
    (\<forall>query inside st. yields matcher_ok (compile_document check E query depth inside st))
    \<and> (\<forall>document inside st. yields (list_all predicate_ok) (compile_predicates check E document depth inside st))
    \<and> (\<forall>operand st. yields element_ok (compile_element check E operand depth st))"

lemma yields_document:
  assumes "depth \<le> MAX_QUERY_DEPTH \<Longrightarrow> compiles_at check E (Suc depth)"
  shows "yields matcher_ok (compile_document check E query depth inside st)"
  unfolding compile_document.simps [of check E query]
proof (rule yields_step, rule yields_bind [where P = "list_all clause_ok"], rule yields_fold)
  fix x :: "bytes \<times> BsonValue" and acc and st :: Compiler
  assume depth: "depth \<le> MAX_QUERY_DEPTH" and acc: "list_all clause_ok (acc :: 'a Clause list)"
  have ih: "yields matcher_ok (compile_document check E d (Suc depth) inside st)"
      "yields (list_all predicate_ok) (compile_predicates check E d (Suc depth) inside st)" for d st
    using assms [OF depth] by (simp_all add: compiles_at_def)
  obtain name v where x: "x = (name, v)" by force
  have children: "yields (list_all matcher_ok) (fold_try (\<lambda>child (ms, st).
       case as_document child of
         None \<Rightarrow> Inl (QueryError 14)
       | Some d \<Rightarrow>
           and_then (compile_document check E d (Suc depth) inside st) (\<lambda>(m, st). Inr (ms @ [m], st))) vs ([], st))" for vs and st :: Compiler
    by (rule yields_fold) (auto split: option.split intro!: yields_bind [OF ih(1)])
  have predicates: "yields (list_all predicate_ok)
      (case as_document v of
         Some document \<Rightarrow>
           if operator_document document then compile_predicates check E document (Suc depth) inside st
           else Inr ([PEqual v], st)
       | None \<Rightarrow>
           if is_regex v then and_then (compile_regex check E v [] st) (\<lambda>(r, st). Inr ([PRegex r], st))
           else Inr ([PEqual v], st))" for st
    by (auto simp: ih(2) split: option.split intro!: yields_bind [OF yields_regex])
  show "yields (list_all clause_ok) ((\<lambda>(name, value) (cs, st).
        and_then (compiler_step check depth st) (\<lambda>st.
        if names [''$comment''] name then Inr (cs, st)
        else if names [''$and'', ''$or'', ''$nor''] name then
          (case as_array value of
             None \<Rightarrow> Inl (QueryError 2)
           | Some vs \<Rightarrow>
               if vs = [] then Inl (QueryError 2)
               else
                 and_then
                   (fold_try (\<lambda>child (ms, st).
                     case as_document child of
                       None \<Rightarrow> Inl (QueryError 14)
                     | Some d \<Rightarrow>
                         and_then (compile_document check E d (Suc depth) inside st) (\<lambda>(m, st).
                         Inr (ms @ [m], st))) vs ([], st))
                   (\<lambda>(ms, st). Inr (cs @ [LogicalClause (logical_kind name) ms], st)))
        else if starts_with name ''$'' then
          Inl (QueryError (if inside \<and> (field_operator name \<or> \<not> known_operator name) then 2 else 115))
        else if length (split_dots name) > MAX_QUERY_DEPTH then Inl MatchLimit
        else
          and_then
            (case as_document value of
               Some document \<Rightarrow>
                 if operator_document document
                 then compile_predicates check E document (Suc depth) inside st
                 else Inr ([PEqual value], st)
             | None \<Rightarrow>
                 if is_regex value
                 then and_then (compile_regex check E value [] st) (\<lambda>(r, st). Inr ([PRegex r], st))
                 else Inr ([PEqual value], st))
            (\<lambda>(ps, st). Inr (cs @ [Field (split_dots name) (names [''_id''] name) ps], st)))) x (acc, st))"
    unfolding x prod.case
    by (intro yields_step yields_if yields_bind [OF predicates])
      (use acc split_dots_nonempty in \<open>auto simp: list_all_iff split: option.split intro!: yields_bind [OF children]\<close>)
qed (auto simp: list_all_iff)

lemma yields_member:
  assumes "\<And>element st. yields element_ok (compile_element check E element (Suc depth) st)"
  shows "yields member_ok
      (if is_regex value
       then and_then (compile_regex check E value [] st) (\<lambda>(r, st). Inr (MRegex r, st))
       else
         case as_document value of
           None \<Rightarrow> Inr (MLiteral value, st)
         | Some d \<Rightarrow>
             if operator_document d then
               (if \<not> names [''$all''] operator \<or> length d \<noteq> 1 then Inl (QueryError 2)
                else
                  case get_first d (ascii ''$elemMatch'') of
                    None \<Rightarrow> Inl (QueryError 2)
                  | Some element \<Rightarrow>
                      and_then (compile_element check E element (Suc depth) st) (\<lambda>(e, st). Inr (MElement e, st)))
             else Inr (MLiteral value, st))"
  by (auto split: option.split intro!: yields_bind [OF yields_regex] yields_bind [OF assms])

lemma yields_predicates:
  assumes "depth \<le> MAX_QUERY_DEPTH \<Longrightarrow> compiles_at check E (Suc depth)"
  shows "yields (list_all predicate_ok) (compile_predicates check E document depth inside st)"
  unfolding compile_predicates.simps [of check E document]
proof (rule yields_step, rule yields_fold)
  fix x :: "bytes \<times> BsonValue" and acc and st :: Compiler
  assume depth: "depth \<le> MAX_QUERY_DEPTH" and acc: "list_all predicate_ok (acc :: 'a Predicate list)"
  have ih: "yields (list_all predicate_ok) (compile_predicates check E d (Suc depth) inside st)"
      "yields element_ok (compile_element check E v (Suc depth) st)" for d v st
    using assms [OF depth] by (simp_all add: compiles_at_def)
  obtain operator operand where x: "x = (operator, operand)" by force
  have regex: "yields (\<lambda>_. True) (compile_regex check E operand [] st)" for st
    by (rule yields_regex)
  have members: "yields (list_all member_ok) (fold_try (\<lambda>value (ms, st).
      and_then (compiler_step check depth st) (\<lambda>st.
      and_then
        (if is_regex value
         then and_then (compile_regex check E value [] st) (\<lambda>(r, st). Inr (MRegex r, st))
         else
           case as_document value of
             None \<Rightarrow> Inr (MLiteral value, st)
           | Some d \<Rightarrow>
               if operator_document d then
                 (if \<not> names [''$all''] operator \<or> length d \<noteq> 1 then Inl (QueryError 2)
                  else
                    case get_first d (ascii ''$elemMatch'') of
                      None \<Rightarrow> Inl (QueryError 2)
                    | Some element \<Rightarrow>
                        and_then (compile_element check E element (Suc depth) st) (\<lambda>(e, st). Inr (MElement e, st)))
               else Inr (MLiteral value, st))
        (\<lambda>(m, st). Inr (ms @ [m], st)))) vs ([], st))" for vs and st :: Compiler
    by (rule yields_fold)
      (auto simp del: not_None_eq intro!: yields_step yields_bind [OF yields_member [OF ih(2)]])
  show "yields (list_all predicate_ok) ((\<lambda>(operator, operand) (ps, st).
      and_then (compiler_step check depth st) (\<lambda>st.
      if \<not> field_operator operator then
        Inl (QueryError (if \<not> starts_with operator ''$'' \<or> names [''$comment''] operator
          \<or> (inside \<and> \<not> known_operator operator) then 2 else 115))
      else
        and_then
          (if names [''$in'', ''$nin'', ''$all''] operator then
             (case as_array operand of
                None \<Rightarrow> Inl (QueryError 2)
              | Some vs \<Rightarrow>
                  and_then
                    (fold_try (\<lambda>value (ms, st).
                      and_then (compiler_step check depth st) (\<lambda>st.
                      and_then
                        (if is_regex value
                         then and_then (compile_regex check E value [] st) (\<lambda>(r, st). Inr (MRegex r, st))
                         else
                           case as_document value of
                             None \<Rightarrow> Inr (MLiteral value, st)
                           | Some d \<Rightarrow>
                               if operator_document d then
                                 (if \<not> names [''$all''] operator \<or> length d \<noteq> 1 then Inl (QueryError 2)
                                  else
                                    case get_first d (ascii ''$elemMatch'') of
                                      None \<Rightarrow> Inl (QueryError 2)
                                    | Some element \<Rightarrow>
                                        and_then (compile_element check E element (Suc depth) st) (\<lambda>(e, st).
                                        Inr (MElement e, st)))
                               else Inr (MLiteral value, st))
                        (\<lambda>(m, st). Inr (ms @ [m], st)))) vs ([], st))
                    (\<lambda>(ms, st).
                      Inr ([if names [''$all''] operator then PAll ms else PIn ms (names [''$nin''] operator)], st)))
           else if names [''$elemMatch''] operator then
             and_then (compile_element check E operand (Suc depth) st) (\<lambda>(e, st). Inr ([PElement e], st))
           else if names [''$not''] operator then
             (if is_regex operand
              then and_then (compile_regex check E operand [] st) (\<lambda>(r, st). Inr ([PNot [PRegex r]], st))
              else
                case as_document operand of
                  None \<Rightarrow> Inl (QueryError 2)
                | Some d \<Rightarrow>
                    if d \<noteq> [] then
                      and_then (compile_predicates check E d (Suc depth) inside st) (\<lambda>(qs, st).
                      Inr ([PNot qs], st))
                    else Inl (QueryError 2))
           else simple_operator check E document operator operand st)
          (\<lambda>(qs, st). Inr (ps @ qs, st)))) x (acc, st))"
    unfolding x prod.case
    by (intro yields_step yields_if yields_bind [where P = "list_all predicate_ok"])
      (use acc yields_simple_operator in \<open>auto split: option.split intro!: yields_bind [OF members] yields_bind [OF regex] yields_bind [OF ih(1)] yields_bind [OF ih(2)] simp: list_all_iff\<close>)
qed (simp add: list_all_iff)

lemma yields_element:
  assumes "\<And>query inside st. yields matcher_ok (compile_document check E query depth inside st)"
    and "\<And>document inside st. yields (list_all predicate_ok) (compile_predicates check E document depth inside st)"
  shows "yields element_ok (compile_element check E operand depth st)"
  unfolding compile_element.simps [of check E operand]
  by (auto split: option.split intro!: yields_bind [OF assms(1)] yields_bind [OF assms(2)] simp: list_all_iff)

lemma compiles: "compiles_at check E depth"
proof (induction "101 - depth" arbitrary: depth)
  case (0 depth)
  then have "\<not> depth \<le> MAX_QUERY_DEPTH" by (simp add: MAX_QUERY_DEPTH_def)
  then show ?case
    using yields_document yields_predicates yields_element
    unfolding compiles_at_def by metis
next
  case (Suc k)
  then have "compiles_at check E (Suc depth)" by simp
  then show ?case
    using yields_document yields_predicates yields_element
    unfolding compiles_at_def by metis
qed

lemma compile_with_check_ok:
  "(case compile_with_check check E encode query of Inr m \<Rightarrow> matcher_ok m | Inl e \<Rightarrow> e \<noteq> MatchPanic)"
proof -
  have "yields matcher_ok (compile_document check E query 0 False st)" for st
    using compiles [of check E 0] by (simp add: compiles_at_def)
  then have document: "case compile_document check E query 0 False st of Inr (m, _) \<Rightarrow> matcher_ok m | Inl e \<Rightarrow> e \<noteq> MatchPanic" for st
    by (simp add: yields_def)
  have ok: "matcher_ok m \<Longrightarrow> matcher_ok (DocumentMatcher (clauses m) rb)" for m :: "'a DocumentMatcher" and rb
    by (cases m) simp
  show ?thesis
    unfolding compile_with_check_def call_def
    using document [of "\<lparr>nodes = 0, regexes = 0, checks = Suc 0\<rparr>"] ok
    by (auto split: option.split sum.splits)
qed

section \<open>Conditions of a query are necessary\<close>

lemma first_some_found:
  "first_some f xs n = Inr (Some y, n') \<Longrightarrow> \<exists>x n1 n2. x \<in> set xs \<and> f x n1 = Inr (Some y, n2)"
proof (induction xs arbitrary: n)
  case (Cons x xs)
  then obtain r n1 where r: "f x n = Inr (r, n1)"
      "(case r of Some y \<Rightarrow> Inr (Some y, n1) | None \<Rightarrow> first_some f xs n1) = Inr (Some y, n')"
    by (auto simp: result_simps)
  show ?case
  proof (cases r)
    case None
    then obtain z m1 m2 where "z \<in> set xs" "f z m1 = Inr (Some y, m2)" using Cons.IH [of n1] r(2) by auto
    then show ?thesis by auto
  next
    case (Some z)
    then show ?thesis using r by auto
  qed
qed simp

definition necessary_at :: "'re RegexEngine \<Rightarrow> ('re Predicate \<Rightarrow> nat \<Rightarrow> MatchError + 'b option \<times> nat) \<Rightarrow> bytes list \<Rightarrow> Root \<Rightarrow> bool \<Rightarrow> 'b \<Rightarrow> bool" where
  "necessary_at E probe requested node exact_id y \<longleftrightarrow>
    (\<exists>p n1 n2 field_id. probe p n1 = Inr (Some y, n2)
      \<and> quantified (negative p) (\<lambda>(value, indexed). predicate_holds E p value (exact_id \<and> field_id \<or> indexed))
          (reached requested (node_value node)))"

lemma necessary_clause_field:
  assumes "necessary_clause check finish probe requested (Field path field_id ps) n = Inr (Some y, n')"
    and "clause_holds E (Field path field_id ps) node exact_id False"
  shows "necessary_at E probe requested node exact_id y"
proof -
  have path: "path = requested" and found: "first_some (\<lambda>p n. and_then (call check n) (probe p)) ps n = Inr (Some y, n')"
    using assms(1) by (auto split: if_splits)
  from first_some_found [OF found] obtain p n1 n2 where p: "p \<in> set ps" "probe p n1 = Inr (Some y, n2)"
    by (auto simp: result_simps)
  have "quantified (negative p) (\<lambda>(value, indexed). predicate_holds E p value (exact_id \<and> field_id \<or> indexed))
      (reached requested (node_value node))"
    using assms(2) p(1) path by (auto simp: list_all_iff field_reached_def)
  then show ?thesis using p(2) by (auto simp: necessary_at_def)
qed

lemma necessary_found:
  fixes E :: "'re RegexEngine" and m :: "'re DocumentMatcher" and c :: "'re Clause"
  shows
  "(\<forall>n n'. necessary check finish probe requested m n = Inr (Some y, n') \<longrightarrow> matcher_holds E m node exact_id False
      \<longrightarrow> necessary_at E probe requested node exact_id y)
  \<and> (\<forall>n n'. necessary_clause check finish probe requested c n = Inr (Some y, n') \<longrightarrow> clause_holds E c node exact_id False
      \<longrightarrow> necessary_at E probe requested node exact_id y)
  \<and> True \<and> True \<and> True"
proof (rule DocumentMatcher_Clause_Predicate_Member_Element.induct)
  fix cs :: "'re Clause list" and rb
  assume ih: "\<And>c. c \<in> set cs \<Longrightarrow> \<forall>n n'. necessary_clause check finish probe requested c n = Inr (Some y, n')
      \<longrightarrow> clause_holds E c node exact_id False \<longrightarrow> necessary_at E probe requested node exact_id y"
  show "\<forall>n n'. necessary check finish probe requested (DocumentMatcher cs rb) n = Inr (Some y, n')
      \<longrightarrow> matcher_holds E (DocumentMatcher cs rb) node exact_id False \<longrightarrow> necessary_at E probe requested node exact_id y"
  proof (intro allI impI)
    fix n n'
    assume "necessary check finish probe requested (DocumentMatcher cs rb) n = Inr (Some y, n')"
      and holds: "matcher_holds E (DocumentMatcher cs rb) node exact_id False"
    then obtain n1 where "first_some (\<lambda>c n. and_then (call check n) c) (map (necessary_clause check finish probe requested) cs) n = Inr (Some y, n1)"
      by (auto simp: result_simps split: option.splits)
    from first_some_found [OF this] obtain c n2 n3 where "c \<in> set cs" "necessary_clause check finish probe requested c n2 = Inr (Some y, n3)"
      by (auto simp: result_simps)
    then show "necessary_at E probe requested node exact_id y" using ih holds by (auto simp: list_all_iff)
  qed
next
  fix path field_id and ps :: "'re Predicate list"
  show "\<forall>n n'. necessary_clause check finish probe requested (Field path field_id ps) n = Inr (Some y, n')
      \<longrightarrow> clause_holds E (Field path field_id ps) node exact_id False \<longrightarrow> necessary_at E probe requested node exact_id y"
    by (intro allI impI) (rule necessary_clause_field)
next
  fix kind and ms :: "'re DocumentMatcher list"
  assume ih: "\<And>m. m \<in> set ms \<Longrightarrow> \<forall>n n'. necessary check finish probe requested m n = Inr (Some y, n')
      \<longrightarrow> matcher_holds E m node exact_id False \<longrightarrow> necessary_at E probe requested node exact_id y"
  show "\<forall>n n'. necessary_clause check finish probe requested (LogicalClause kind ms) n = Inr (Some y, n')
      \<longrightarrow> clause_holds E (LogicalClause kind ms) node exact_id False \<longrightarrow> necessary_at E probe requested node exact_id y"
  proof (intro allI impI)
    fix n n'
    assume found: "necessary_clause check finish probe requested (LogicalClause kind ms) n = Inr (Some y, n')"
      and holds: "clause_holds E (LogicalClause kind ms) node exact_id False"
    then have kind: "kind = LogicalAnd" "first_some (\<lambda>m. m) (map (necessary check finish probe requested) ms) n = Inr (Some y, n')"
      by (auto split: if_splits)
    from first_some_found [OF kind(2)] obtain m n2 n3 where "m \<in> set ms" "necessary check finish probe requested m n2 = Inr (Some y, n3)"
      by auto
    then show "necessary_at E probe requested node exact_id y" using ih holds kind(1) by (auto simp: list_all_iff Let_def)
  qed
qed simp_all

lemma equal_meaning_mono: "equal_meaning a v exact \<Longrightarrow> equal_meaning a v False"
  by (auto simp: equal_meaning_def split: option.splits)

lemma literals_found:
  "literals check ms vs n = Inr (ws, n') \<Longrightarrow> ws \<noteq> [] \<Longrightarrow> \<exists>us. ms = map MLiteral us \<and> ws = vs @ us"
proof (induction ms arbitrary: vs n)
  case (Cons m ms)
  obtain k where k: "(case m of MLiteral v \<Rightarrow> literals check ms (vs @ [v]) k | _ \<Rightarrow> Inr ([], k)) = Inr (ws, n')"
    using Cons.prems(1) by (auto simp: result_simps)
  then obtain v where m: "m = MLiteral v" using Cons.prems(2) by (cases m) auto
  then obtain us where "ms = map MLiteral us" "ws = (vs @ [v]) @ us" using Cons.IH [of "vs @ [v]" k] k Cons.prems(2) by auto
  then show ?case using m by (intro exI [of _ "v # us"]) simp
qed simp

lemma equality_necessary:
  assumes "necessary_at E (\<lambda>p n. Inr (case p of PEqual v \<Rightarrow> Some v | _ \<Rightarrow> None, n)) path node exact_id v"
  shows "\<exists>a indexed. (a, indexed) \<in> set (reached path (node_value node)) \<and> equal_meaning a v False"
proof -
  obtain p field_id where p: "(case p of PEqual v \<Rightarrow> Some v | _ \<Rightarrow> None) = Some v"
      "quantified (negative p) (\<lambda>(value, indexed). predicate_holds E p value (exact_id \<and> field_id \<or> indexed))
        (reached path (node_value node))"
    using assms by (auto simp: necessary_at_def)
  then have "p = PEqual v" by (cases p) simp_all
  then show ?thesis using p(2) equal_meaning_mono by (fastforce simp: quantified_def list_ex_iff)
qed

lemma membership_necessary:
  assumes "necessary_at E (membership_probe check max_values) path node exact_id vs"
  shows "length vs \<le> max_values
    \<and> (\<exists>a indexed u. (a, indexed) \<in> set (reached path (node_value node)) \<and> u \<in> set vs \<and> equal_meaning a u False)"
proof -
  obtain p n1 n2 field_id where p: "membership_probe check max_values p n1 = Inr (Some vs, n2)"
      "quantified (negative p) (\<lambda>(value, indexed). predicate_holds E p value (exact_id \<and> field_id \<or> indexed))
        (reached path (node_value node))"
    using assms by (auto simp: necessary_at_def)
  then obtain ms where ms: "p = PIn ms False" by (auto simp: membership_probe_def split: Predicate.splits bool.splits)
  then have "length ms \<le> max_values" "\<exists>k k'. literals check ms [] k = Inr (vs, k') \<and> vs \<noteq> []"
    using p(1) by (auto simp: membership_probe_def result_simps split: if_splits)
  moreover from this(2) have "ms = map MLiteral vs" using literals_found by fastforce
  ultimately show ?thesis
    using p(2) ms equal_meaning_mono by (fastforce simp: quantified_def list_ex_iff)
qed

lemma existence_necessary:
  assumes "necessary_at E (\<lambda>p n. Inr (if p = PExists True then Some () else None, n)) path node exact_id ()"
  shows "\<exists>a indexed. (a, indexed) \<in> set (reached path (node_value node)) \<and> a \<noteq> None"
  using assms by (fastforce simp: necessary_at_def quantified_def list_ex_iff split: if_splits)

lemma absence_necessary:
  assumes "necessary_at E (\<lambda>p n. Inr (if p = PExists False then Some () else None, n)) path node exact_id ()"
  shows "fst ` set (reached path (node_value node)) \<subseteq> {None}"
  using assms by (fastforce simp: necessary_at_def quantified_def list_all_iff split: if_splits)

lemma members_meaning_mono: "members_meaning a exact True P \<Longrightarrow> members_meaning a False True P"
  by (auto simp: members_meaning_def split: option.splits BsonValue.splits if_splits)

lemma range_necessary:
  assumes "necessary_at E (\<lambda>p n. Inr (string_range_probe p, n)) path node exact_id (u, up, incl)"
  shows "(\<exists>s. u = String s)
    \<and> (\<exists>a indexed. (a, indexed) \<in> set (reached path (node_value node)) \<and> members_meaning a False True (range_meaning u up incl))"
proof -
  obtain p field_id where p: "string_range_probe p = Some (u, up, incl)"
      "quantified (negative p) (\<lambda>(value, indexed). predicate_holds E p value (exact_id \<and> field_id \<or> indexed))
        (reached path (node_value node))"
    using assms by (auto simp: necessary_at_def)
  then obtain s where "p = PRange (String s) up incl" "u = String s"
    by (auto simp: string_range_probe_def split: Predicate.splits BsonValue.splits)
  then show ?thesis using p(2) members_meaning_mono by (fastforce simp: quantified_def list_ex_iff)
qed

section \<open>Properties\<close>

text \<open>What matching with the limits of the code returns, and that large enough limits give an answer.\<close>

lemma matches_decided:
  assumes "matcher_ok m"
  shows "case matches_with_check check E m d of
      Inr b \<Rightarrow> b = matcher_holds E m (RootDocument d) True False
    | Inl e \<Rightarrow> e = MatchLimit \<or> (\<exists>n k. check n = Some k \<and> e = Refused k)"
proof -
  have dec: "decides E (\<lambda>C. matcher_evaluate C E m (RootDocument d) True False) (matcher_holds E m (RootDocument d) True False)"
    using evaluation_decides [of m E] assms by blast
  let ?C = "\<lparr>request_check = check, max_steps = MAX_MATCH_STEPS, max_candidates = MAX_PATH_CANDIDATES\<rparr>"
  have "case matcher_evaluate ?C E m (RootDocument d) True False \<lparr>steps = 0, calls = 0\<rparr> of
      Inr (b, _) \<Rightarrow> b = matcher_holds E m (RootDocument d) True False | Inl e \<Rightarrow> stopped ?C e"
    using dec unfolding decides_def by blast
  then show ?thesis
    unfolding matches_with_check_def stopped_def
    by (cases "matcher_evaluate ?C E m (RootDocument d) True False \<lparr>steps = 0, calls = 0\<rparr>") auto
qed

lemma compiled_ok: "compile_with_check check E encode query = Inr m \<Longrightarrow> matcher_ok m"
  using compile_with_check_ok [of check E encode query] by simp

text \<open>C4: Matching a document against a compiled query decides the query.  An answer is the meaning of the
  query, in which positive predicates hold of some value a path reaches and negative ones of all of
  them; a failure is a resource limit or a refusal of the request check, never a panic.  With limits
  that are large enough for the query and the document, and a request check that never refuses,
  evaluation answers.\<close>

theorem query_match_correct:
  assumes "compile_with_check compile_check E encode query = Inr m"
  shows "(case matches_with_check check E m d of
        Inr b \<Rightarrow> b = matcher_holds E m (RootDocument d) True False
      | Inl e \<Rightarrow> e = MatchLimit \<or> (\<exists>n k. check n = Some k \<and> e = Refused k))
    \<and> (engine_total E \<longrightarrow> (\<exists>n. \<forall>C w. free C \<and> steps w + n \<le> max_steps C \<and> n \<le> max_candidates C \<longrightarrow>
        (\<exists>v. matcher_evaluate C E m (RootDocument d) True False w = Inr (matcher_holds E m (RootDocument d) True False, v))))"
proof -
  have ok: "matcher_ok m" using assms by (rule compiled_ok)
  then have "decides E (\<lambda>C. matcher_evaluate C E m (RootDocument d) True False) (matcher_holds E m (RootDocument d) True False)"
    using evaluation_decides [of m E] by blast
  then show ?thesis using matches_decided [OF ok, of check E d] unfolding decides_def by meson
qed

text \<open>C10: What the index planner reads off a query is necessary for a match.  If a document matches, then the
  requested path reaches a value equal to the equality the planner found, a value equal to one of the
  members of the list it found, a string in the range it found, and some value, or no value, where it
  found that existence, or absence, is required.  An index that holds the values a path reaches loses no match.\<close>

theorem index_conditions_necessary:
  assumes "matcher_holds E m (RootDocument d) True False"
  shows "(equality_for_index_path check path m n = Inr (Some v, n1) \<longrightarrow>
        (\<exists>a indexed. (a, indexed) \<in> set (reached path (Document d)) \<and> equal_meaning a v False))
    \<and> (membership_for_index_path check path max_values m n = Inr (Some vs, n2) \<longrightarrow>
        length vs \<le> max_values \<and>
        (\<exists>a indexed u. (a, indexed) \<in> set (reached path (Document d)) \<and> u \<in> set vs \<and> equal_meaning a u False))
    \<and> (requires_index_path_existence check path True m n = Inr (True, n3) \<longrightarrow>
        (\<exists>a indexed. (a, indexed) \<in> set (reached path (Document d)) \<and> a \<noteq> None))
    \<and> (requires_index_path_existence check path False m n = Inr (True, n4) \<longrightarrow>
        fst ` set (reached path (Document d)) \<subseteq> {None})
    \<and> (string_range_for_index_path check path m n = Inr (Some (u, up, incl), n5) \<longrightarrow>
        (\<exists>s. u = String s) \<and>
        (\<exists>a indexed. (a, indexed) \<in> set (reached path (Document d)) \<and> members_meaning a False True (range_meaning u up incl)))"
proof -
  have found: "necessary_at E probe path (RootDocument d) True y" if "necessary check finish probe path m n = Inr (Some y, n')" for finish probe y n'
    using necessary_found [of check finish probe path m y E "RootDocument d" True] assms that by blast
  show ?thesis
    unfolding equality_for_index_path_def membership_for_index_path_def requires_index_path_existence_def
      string_range_for_index_path_def
    using equality_necessary [OF found] membership_necessary [OF found]
      existence_necessary [OF found] absence_necessary [OF found] range_necessary [OF found]
    by (auto simp: node_value_def result_simps)
qed

text \<open>C40: Compiling a query document gives a well-formed matcher, or an engine error: it never panics.  The paths
  of the matcher are not empty, its divisors are not zero, and the memory it is charged for is a
  64-bit number.\<close>

theorem compiled_query_well_formed:
  "case compile_with_check check E encode query of
     Inr m \<Rightarrow> matcher_ok m \<and> retained_bytes m < 2 ^ 64
   | Inl e \<Rightarrow> error_kind e \<noteq> None"
proof (cases "compile_with_check check E encode query")
  case (Inl e)
  then have "e \<noteq> MatchPanic" using compile_with_check_ok [of check E encode query] by simp
  then show ?thesis using Inl by (cases e) simp_all
next
  case (Inr m)
  then have "matcher_ok m" by (rule compiled_ok)
  moreover have "retained_bytes m < 2 ^ 64"
    using Inr by (cases "encode query MAX_QUERY_BYTES")
      (auto simp: compile_with_check_def saturating_add_def min_def result_simps)
  ultimately show ?thesis using Inr by simp
qed

definition sample_engine :: "unit RegexEngine" where
  "sample_engine = \<lparr>parse_tree = (\<lambda>pattern. Some (LiteralExpr pattern False)), to_str = (\<lambda>_. []),
    build = (\<lambda>_. Some ()), build_atom = (\<lambda>_. Some ()), is_match = (\<lambda>_ _. Some True)\<rparr>"

definition sample_query :: BsonDocument where
  "sample_query = [(ascii ''a'', Document [(ascii ''$gte'', Boolean True)]), (ascii ''b'', String [120])]"

definition sample_matcher :: "unit DocumentMatcher" where
  "sample_matcher = DocumentMatcher
    [Field [ascii ''a''] False [PRange (Boolean True) True True], Field [ascii ''b''] False [PEqual (String [120])]] 640"

lemmas compiler_simps =
  compiler_step_def compiler_check_def call_def MAX_QUERY_NODES_def MAX_QUERY_DEPTH_def names_def ascii_def starts_with_def
  as_document_def is_regex_def operator_document_def field_operator_def simple_operator_def

lemma sample_predicates:
  "compile_predicates (\<lambda>_. None) sample_engine [(ascii ''$gte'', Boolean True)] (Suc 0) False
      \<lparr>nodes = Suc (Suc 0), regexes = 0, checks = Suc (Suc (Suc 0))\<rparr>
    = Inr ([PRange (Boolean True) True True], \<lparr>nodes = 4, regexes = 0, checks = 5\<rparr>)"
  by (subst compile_predicates.simps) (simp add: compiler_simps)

lemma sample_compiled: "compile_with_check (\<lambda>_. None) sample_engine (\<lambda>_ _. Inr 0) sample_query = Inr sample_matcher"
  unfolding compile_with_check_def sample_query_def
  by (subst compile_document.simps)
    (simp add: sample_predicates [unfolded ascii_def, simplified] compiler_simps sample_matcher_def saturating_add_def saturating_mul_def)

lemma resolve_field:
  "resolve C (RootDocument d) (part # rest) out w =
    and_then (work_step C w) (\<lambda>w. and_then (find_field C d part w) (\<lambda>(found, w).
      case found of Some v \<Rightarrow> resolve C (RootValue v) rest out w | None \<Rightarrow> candidate C out None False w))"
  "resolve C (RootValue v) [] out w = and_then (work_step C w) (candidate C out (Some v) False)"
  by (subst resolve.simps; simp)+

lemmas evaluation_simps =
  sample_matcher_def matches_with_check_def field_candidates_def resolve_field work_step_def work_check_def candidate_def
  MAX_MATCH_STEPS_def MAX_PATH_CANDIDATES_def ascii_def equal_value_def scalar_or_members_def range_predicate_def
  bson_eq.simps bson_cmp.simps

theorem query_match_correct_witness:
  "matches_with_check (\<lambda>_. None) sample_engine sample_matcher
      [(ascii ''b'', Array [Null, String [120]]), (ascii ''a'', Boolean True)] = Inr True
    \<and> matcher_holds sample_engine sample_matcher
      (RootDocument [(ascii ''b'', Array [Null, String [120]]), (ascii ''a'', Boolean True)]) True False"
proof -
  have "matches_with_check (\<lambda>_. None) sample_engine sample_matcher
      [(ascii ''b'', Array [Null, String [120]]), (ascii ''a'', Boolean True)] = Inr True"
    by (simp add: evaluation_simps)
  moreover note query_match_correct [OF sample_compiled, THEN conjunct1, of "\<lambda>_. None"
      "[(ascii ''b'', Array [Null, String [120]]), (ascii ''a'', Boolean True)]"]
  ultimately show ?thesis by simp
qed

theorem index_conditions_necessary_witness:
  "\<exists>a indexed. (a, indexed) \<in> set (reached [ascii ''b''] (Document [(ascii ''b'', String [120]), (ascii ''a'', Boolean True)]))
    \<and> equal_meaning a (String [120]) False"
proof -
  have "matcher_holds sample_engine sample_matcher
      (RootDocument [(ascii ''b'', String [120]), (ascii ''a'', Boolean True)]) True False"
    by (simp add: evaluation_simps field_reached_def node_value_def is_value_array_def reached_Cons through_def quantified_def
        members_meaning_def range_meaning_def equal_meaning_def)
  moreover have "equality_for_index_path (\<lambda>_. None) [ascii ''b''] sample_matcher 0 = Inr (Some (String [120]), 3)"
    by (simp add: evaluation_simps equality_for_index_path_def call_def)
  ultimately show ?thesis
    using index_conditions_necessary [of sample_engine sample_matcher
        "[(ascii ''b'', String [120]), (ascii ''a'', Boolean True)]" "\<lambda>_. None" "[ascii ''b'']" 0] by blast
qed

end
