(* ===== verification/Bson_Index_Budget.thy ===== *)
theory Bson_Index_Budget
  imports Bson_Match_Properties
begin

text \<open>
  The shared work budget of index key generation, \<^verbatim>\<open>document/index_keys.rs\<close>, and the heap charges of values,
  \<^verbatim>\<open>document/memory.rs\<close>.  Every step of a budget calls the request check once, so that the number of steps is
  also the number of calls: the closures that the code makes from a budget are \<open>budget_check\<close>.
\<close>

definition MAX_KEYS :: nat where "MAX_KEYS = 16384"
definition MAX_STEPS :: nat where "MAX_STEPS = 1000000"
definition MAX_VALUE_BYTES :: nat where "MAX_VALUE_BYTES = 8 * 1024 * 1024"
definition MAX_WORK_BYTES :: nat where "MAX_WORK_BYTES = 64 * 1024 * 1024"

record Budget =
  budget_steps :: nat
  budget_bytes :: nat
  budget_keys :: nat

definition budget_new :: Budget where
  "budget_new = \<lparr>budget_steps = 0, budget_bytes = 0, budget_keys = 0\<rparr>"

definition budget_check :: "(nat \<Rightarrow> EngineErrorKind option) \<Rightarrow> nat \<Rightarrow> EngineErrorKind option" where
  "budget_check check n =
    (case check n of
       Some e \<Rightarrow> Some e
     | None \<Rightarrow> if n + 1 > MAX_STEPS then Some LimitExceeded else None)"

definition budget_step :: "(nat \<Rightarrow> EngineErrorKind option) \<Rightarrow> Budget \<Rightarrow> MatchError + Budget" where
  "budget_step check b = and_then (call (budget_check check) (budget_steps b)) (\<lambda>n. Inr (b\<lparr>budget_steps := n\<rparr>))"

definition budget_charge :: "nat \<Rightarrow> Budget \<Rightarrow> MatchError + Budget" where
  "budget_charge amount b =
    (if budget_bytes b + amount \<le> MAX_WORK_BYTES then Inr (b\<lparr>budget_bytes := budget_bytes b + amount\<rparr>)
     else Inl MatchLimit)"

definition take_keys :: "nat \<Rightarrow> Budget \<Rightarrow> MatchError + Budget" where
  "take_keys amount b =
    (if budget_keys b + amount \<le> MAX_KEYS then Inr (b\<lparr>budget_keys := budget_keys b + amount\<rparr>)
     else Inl MatchLimit)"

section \<open>Heap charges of values\<close>

definition charge_add :: "nat \<Rightarrow> nat \<Rightarrow> nat \<Rightarrow> MatchError + nat" where
  "charge_add maximum amount size_in_bytes =
    (if size_in_bytes + amount \<le> maximum then Inr (size_in_bytes + amount) else Inl MatchLimit)"

fun charge_value :: "(nat \<Rightarrow> EngineErrorKind option) \<Rightarrow> nat \<Rightarrow> BsonValue \<Rightarrow> nat \<Rightarrow> nat \<Rightarrow> MatchError + nat \<times> nat"
  and charge_entries :: "(nat \<Rightarrow> EngineErrorKind option) \<Rightarrow> nat \<Rightarrow> BsonDocument \<Rightarrow> nat \<Rightarrow> nat \<Rightarrow> MatchError + nat \<times> nat"
  and charge_items :: "(nat \<Rightarrow> EngineErrorKind option) \<Rightarrow> nat \<Rightarrow> BsonValue list \<Rightarrow> nat \<Rightarrow> nat \<Rightarrow> MatchError + nat \<times> nat" where
  "charge_value check maximum v used n =
    and_then (call check n) (\<lambda>n.
    and_then (charge_add maximum 128 used) (\<lambda>used.
    case v of
      String s \<Rightarrow> and_then (charge_add maximum (length s) used) (\<lambda>used. Inr (used, n))
    | Document d \<Rightarrow> and_then (charge_add maximum 128 used) (\<lambda>used. charge_entries check maximum d used n)
    | Array vs \<Rightarrow> charge_items check maximum vs used n
    | Binary _ bs \<Rightarrow> and_then (charge_add maximum (length bs) used) (\<lambda>used. Inr (used, n))
    | RegularExpression p opts \<Rightarrow>
        and_then (charge_add maximum (length p) used) (\<lambda>used.
        and_then (charge_add maximum (length opts) used) (\<lambda>used. Inr (used, n)))
    | JavaScript c scope \<Rightarrow>
        and_then (charge_add maximum (length c) used) (\<lambda>used.
        case scope of
          Some d \<Rightarrow> and_then (charge_add maximum 128 used) (\<lambda>used. charge_entries check maximum d used n)
        | None \<Rightarrow> Inr (used, n))
    | _ \<Rightarrow> Inr (used, n)))"
| "charge_entries check maximum [] used n = Inr (used, n)"
| "charge_entries check maximum ((name, v) # rest) used n =
    and_then (charge_add maximum (length name) used) (\<lambda>used.
    and_then (charge_value check maximum v used n) (\<lambda>(used, n). charge_entries check maximum rest used n))"
| "charge_items check maximum [] used n = Inr (used, n)"
| "charge_items check maximum (v # vs) used n =
    and_then (charge_value check maximum v used n) (\<lambda>(used, n). charge_items check maximum vs used n)"

declare charge_value.simps [simp del]

definition value_bytes :: "(nat \<Rightarrow> EngineErrorKind option) \<Rightarrow> BsonValue \<Rightarrow> nat \<Rightarrow> nat \<Rightarrow> MatchError + nat \<times> nat" where
  "value_bytes check v maximum n = charge_value check maximum v 0 n"

definition document_bytes :: "(nat \<Rightarrow> EngineErrorKind option) \<Rightarrow> BsonDocument \<Rightarrow> nat \<Rightarrow> nat \<Rightarrow> MatchError + nat \<times> nat" where
  "document_bytes check d maximum n =
    and_then (charge_add maximum 128 0) (\<lambda>used. charge_entries check maximum d used n)"

text \<open>The result of a charge is the used of the value, with 128 bytes for every value and every document.\<close>

fun heap_size :: "BsonValue \<Rightarrow> nat"
  and entries_size :: "BsonDocument \<Rightarrow> nat"
  and items_size :: "BsonValue list \<Rightarrow> nat" where
  "heap_size v = 128 +
    (case v of
       String s \<Rightarrow> length s
     | Document d \<Rightarrow> 128 + entries_size d
     | Array vs \<Rightarrow> items_size vs
     | Binary _ bs \<Rightarrow> length bs
     | RegularExpression p opts \<Rightarrow> length p + length opts
     | JavaScript c scope \<Rightarrow> length c + (case scope of Some d \<Rightarrow> 128 + entries_size d | None \<Rightarrow> 0)
     | _ \<Rightarrow> 0)"
| "entries_size [] = 0"
| "entries_size ((name, v) # rest) = length name + heap_size v + entries_size rest"
| "items_size [] = 0"
| "items_size (v # vs) = heap_size v + items_size vs"

declare heap_size.simps [simp del]

lemma charge_add_Inr: "charge_add maximum amount used = Inr used' \<longleftrightarrow> used' = used + amount \<and> used' \<le> maximum"
  by (auto simp: charge_add_def)

lemma charges_size:
  "charge_value check maximum v used n = Inr (used', n') \<Longrightarrow> used' = used + heap_size v \<and> used' \<le> maximum"
  "charge_entries check maximum d used n = Inr (used', n') \<Longrightarrow> used' = used + entries_size d \<and> (d \<noteq> [] \<longrightarrow> used' \<le> maximum)"
  "charge_items check maximum vs used n = Inr (used', n') \<Longrightarrow> used' = used + items_size vs \<and> (vs \<noteq> [] \<longrightarrow> used' \<le> maximum)"
proof (induction check maximum v used n and check maximum d used n and check maximum vs used n
    arbitrary: used' n' and used' n' and used' n' rule: charge_value_charge_entries_charge_items.induct)
  case (1 check maximum v used n)
  from 1(4) obtain n0 where n0: "call check n = Inr n0" and start: "charge_add maximum 128 used = Inr (used + 128)"
    by (auto simp: charge_value.simps [of check maximum v] result_simps charge_add_Inr)
  have document: "used' = used1 + 128 + entries_size d \<and> used' \<le> maximum"
    if "charge_add maximum 128 used1 = Inr (used1 + 128)" "charge_entries check maximum d (used1 + 128) n0 = Inr (used', n')"
      "v = Document d \<and> used1 = used + 128 \<or> (\<exists>c. v = JavaScript c (Some d) \<and> charge_add maximum (length c) (used + 128) = Inr used1)"
    for d used1
    using 1(1) [OF n0 start, of d] 1(3) [OF n0 start, of _ _ _ d] that by (cases "d = []") (auto simp: charge_add_Inr)
  note charged = 1(4) [unfolded charge_value.simps [of check maximum v]]
  show ?case
  proof (cases v)
    case (Document d)
    then show ?thesis using charged n0 start document [of "used + 128" d]
      by (auto simp: heap_size.simps result_simps charge_add_Inr)
  next
    case (Array vs)
    then show ?thesis using charged n0 start 1(2) [OF n0 start Array]
      by (cases "vs = []") (auto simp: heap_size.simps result_simps charge_add_Inr)
  next
    case (JavaScript c scope)
    then show ?thesis using charged n0 start document [of "used + 128 + length c" "the scope"]
      by (cases scope) (auto simp: heap_size.simps result_simps charge_add_Inr)
  qed (use charged n0 start in \<open>auto simp: heap_size.simps result_simps charge_add_Inr\<close>)
next
  case (3 check maximum name v rest used n)
  from 3(3) obtain used1 n1 where first: "charge_value check maximum v (used + length name) n = Inr (used1, n1)"
      "charge_entries check maximum rest used1 n1 = Inr (used', n')" "charge_add maximum (length name) used = Inr (used + length name)"
    by (auto simp: result_simps charge_add_Inr)
  from 3(1) [OF first(3,1)] 3(2) [OF first(3,1) refl first(2)] show ?case by (cases "rest = []") auto
next
  case (5 check maximum v vs used n)
  from 5(3) obtain used1 n1 where first: "charge_value check maximum v used n = Inr (used1, n1)"
      "charge_items check maximum vs used1 n1 = Inr (used', n')"
    by (auto simp: result_simps)
  from 5(1) [OF first(1)] 5(2) [OF first(1) refl first(2)] show ?case by (cases "vs = []") auto
qed auto

end
