(* ===== verification/Bson_Index_Conditions.thy ===== *)
theory Bson_Index_Conditions
  imports Bson_Index_Budget
begin

text \<open>
  Finite alternatives for one index path, \<^verbatim>\<open>document/matcher/index_alternatives.rs\<close>, and the proof that a query
  implies the filter of a partial index, \<^verbatim>\<open>document/matcher/index_partial.rs\<close>.  Both are given a budget as
  their control: its steps, its allocations and its compared bytes are charged there.
\<close>

section \<open>Alternatives\<close>

primrec has_index_alternatives :: "(nat \<Rightarrow> EngineErrorKind option) \<Rightarrow> 're DocumentMatcher \<Rightarrow> nat \<Rightarrow> MatchError + bool \<times> nat"
  and has_clause_alternatives :: "(nat \<Rightarrow> EngineErrorKind option) \<Rightarrow> 're Clause \<Rightarrow> nat \<Rightarrow> MatchError + bool \<times> nat" where
  "has_index_alternatives check (DocumentMatcher cs rb) =
    search True (\<lambda>c n. and_then (call check n) c) (map (has_clause_alternatives check) cs)"
| "has_clause_alternatives check (Field path field_id predicates) = (\<lambda>n. Inr (False, n))"
| "has_clause_alternatives check (LogicalClause kind children) = (\<lambda>n.
    case kind of
      LogicalOr \<Rightarrow> Inr (True, n)
    | LogicalAnd \<Rightarrow> search True (\<lambda>m. m) (map (has_index_alternatives check) children) n
    | LogicalNor \<Rightarrow> Inr (False, n))"

record Witness =
  collected :: "BsonValue list"
  remaining :: nat
  control_budget :: Budget

definition witness_step :: "(nat \<Rightarrow> EngineErrorKind option) \<Rightarrow> Witness \<Rightarrow> MatchError + Witness" where
  "witness_step check st = and_then (budget_step check (control_budget st)) (\<lambda>b. Inr (st\<lparr>control_budget := b\<rparr>))"

definition witness_reserve :: "(nat \<Rightarrow> EngineErrorKind option) \<Rightarrow> nat \<Rightarrow> Witness \<Rightarrow> MatchError + bool \<times> Witness" where
  "witness_reserve check count st =
    and_then (witness_step check st) (\<lambda>st.
    if count = 0 \<or> count > remaining st then Inr (False, st)
    else
      and_then (budget_charge (32 + count * 8) (control_budget st)) (\<lambda>b.
      Inr (True, st\<lparr>remaining := remaining st - count, control_budget := b\<rparr>)))"

definition witness_push :: "BsonValue \<Rightarrow> Witness \<Rightarrow> Witness" where
  "witness_push v st = st\<lparr>collected := collected st @ [v]\<rparr>"

definition witness_cut :: "nat \<Rightarrow> Witness \<Rightarrow> Witness" where
  "witness_cut start st = st\<lparr>collected := take start (collected st)\<rparr>"

fun push_literals :: "(nat \<Rightarrow> EngineErrorKind option) \<Rightarrow> 're Member list \<Rightarrow> Witness \<Rightarrow> MatchError + bool \<times> Witness" where
  "push_literals check [] st = Inr (True, st)"
| "push_literals check (m # ms) st =
    and_then (witness_step check st) (\<lambda>st.
    case m of MLiteral v \<Rightarrow> push_literals check ms (witness_push v st) | _ \<Rightarrow> Inr (False, st))"

definition collect_one :: "(nat \<Rightarrow> EngineErrorKind option) \<Rightarrow> BsonValue \<Rightarrow> Witness \<Rightarrow> MatchError + bool \<times> Witness" where
  "collect_one check v st =
    and_then (witness_reserve check 1 st) (\<lambda>(reserved, st).
    Inr (if reserved then (True, witness_push v st) else (False, st)))"

definition collect_predicate ::
    "(nat \<Rightarrow> EngineErrorKind option) \<Rightarrow> nat \<Rightarrow> 're Predicate \<Rightarrow> Witness \<Rightarrow> MatchError + bool \<times> Witness" where
  "collect_predicate check start p st =
    (case p of
       PEqual v \<Rightarrow> collect_one check v st
     | PExists False \<Rightarrow> collect_one check Null st
     | PIn members False \<Rightarrow>
         and_then (witness_reserve check (length members) st) (\<lambda>(reserved, st).
         if \<not> reserved then Inr (False, st)
         else
           and_then (push_literals check members st) (\<lambda>(literal, st).
           Inr (if literal then (True, st) else (False, witness_cut start st))))
     | _ \<Rightarrow> Inr (False, st))"

primrec collect :: "(nat \<Rightarrow> EngineErrorKind option) \<Rightarrow> bytes list \<Rightarrow> 're DocumentMatcher \<Rightarrow> Witness \<Rightarrow> MatchError + bool \<times> Witness"
  and collect_clause :: "(nat \<Rightarrow> EngineErrorKind option) \<Rightarrow> bytes list \<Rightarrow> 're Clause \<Rightarrow> nat \<Rightarrow> Witness \<Rightarrow> MatchError + bool \<times> Witness" where
  "collect check requested (DocumentMatcher cs rb) = (\<lambda>st.
    search True (\<lambda>c st'. and_then (witness_step check st') (c (length (collected st))))
      (map (collect_clause check requested) cs) st)"
| "collect_clause check requested (Field path field_id predicates) = (\<lambda>start st.
    if path = requested
    then search True (\<lambda>p st. and_then (witness_step check st) (collect_predicate check start p)) predicates st
    else Inr (False, st))"
| "collect_clause check requested (LogicalClause kind children) = (\<lambda>start st.
    case kind of
      LogicalAnd \<Rightarrow> search True (\<lambda>m. m) (map (collect check requested) children) st
    | LogicalOr \<Rightarrow>
        and_then (search False (\<lambda>m. m) (map (collect check requested) children) st) (\<lambda>(every, st).
        Inr (if children \<noteq> [] \<and> every then (True, st) else (False, witness_cut start st)))
    | LogicalNor \<Rightarrow> Inr (False, st))"

definition alternatives_for_index_path ::
    "(nat \<Rightarrow> EngineErrorKind option) \<Rightarrow> bytes list \<Rightarrow> nat \<Rightarrow> 're DocumentMatcher \<Rightarrow> Budget
      \<Rightarrow> MatchError + BsonValue list option \<times> Budget" where
  "alternatives_for_index_path check requested max_values m b =
    and_then (budget_step check b) (\<lambda>b.
    and_then (collect check requested m \<lparr>collected = [], remaining = max_values, control_budget = b\<rparr>) (\<lambda>(found, st).
    Inr (if found then Some (collected st) else None, control_budget st)))"

section \<open>Implication of a partial filter\<close>

definition partial_scalar :: "BsonValue \<Rightarrow> bool" where
  "partial_scalar v =
    (case v of Array _ \<Rightarrow> False | Document _ \<Rightarrow> False | JavaScript _ _ \<Rightarrow> False | RegularExpression _ _ \<Rightarrow> False | _ \<Rightarrow> True)"

definition scalar_bytes :: "BsonValue \<Rightarrow> nat" where
  "scalar_bytes v = (case v of String s \<Rightarrow> length s | Binary _ bs \<Rightarrow> length bs | _ \<Rightarrow> 0)"

fun same_parts :: "(nat \<Rightarrow> EngineErrorKind option) \<Rightarrow> bytes list \<Rightarrow> bytes list \<Rightarrow> Budget \<Rightarrow> MatchError + bool \<times> Budget" where
  "same_parts check (l # ls) (r # rs) b =
    and_then (budget_step check b) (\<lambda>b.
    and_then (budget_charge (length l + length r) b) (\<lambda>b.
    if l \<noteq> r then Inr (False, b) else same_parts check ls rs b))"
| "same_parts check _ _ b = Inr (True, b)"

definition same_path :: "(nat \<Rightarrow> EngineErrorKind option) \<Rightarrow> bytes list \<Rightarrow> bytes list \<Rightarrow> Budget \<Rightarrow> MatchError + bool \<times> Budget" where
  "same_path check left right b =
    (if length left \<noteq> length right then Inr (False, b) else same_parts check left right b)"

definition same_fact :: "(nat \<Rightarrow> EngineErrorKind option) \<Rightarrow> 're Predicate \<Rightarrow> 're Predicate \<Rightarrow> Budget \<Rightarrow> MatchError + bool \<times> Budget" where
  "same_fact check required p b =
    (case (required, p) of
       (PExists True, PExists True) \<Rightarrow> Inr (True, b)
     | (PEqual left, PEqual right) \<Rightarrow>
         if partial_scalar right then
           and_then (budget_charge (256 + scalar_bytes left + scalar_bytes right) b) (\<lambda>b.
           and_then (budget_step check b) (\<lambda>b. Inr (representation_eq left right, b)))
         else Inr (False, b)
     | _ \<Rightarrow> Inr (False, b))"

definition partial_fact :: "'re Predicate \<Rightarrow> bool" where
  "partial_fact p = (case p of PEqual v \<Rightarrow> partial_scalar v | PExists expected \<Rightarrow> expected | _ \<Rightarrow> False)"

primrec requires_partial_fact ::
      "(nat \<Rightarrow> EngineErrorKind option) \<Rightarrow> bytes list \<Rightarrow> bool \<Rightarrow> 're Predicate \<Rightarrow> 're DocumentMatcher \<Rightarrow> Budget
        \<Rightarrow> MatchError + bool \<times> Budget"
  and clause_requires ::
      "(nat \<Rightarrow> EngineErrorKind option) \<Rightarrow> bytes list \<Rightarrow> bool \<Rightarrow> 're Predicate \<Rightarrow> 're Clause \<Rightarrow> Budget
        \<Rightarrow> MatchError + bool \<times> Budget" where
  "requires_partial_fact check requested exact_id required (DocumentMatcher cs rb) = (\<lambda>b.
    and_then (budget_step check b) (\<lambda>b.
    if \<not> partial_fact required then Inr (False, b)
    else
      and_then
        (search True (\<lambda>c b. and_then (budget_step check b) c)
          (map (clause_requires check requested exact_id required) cs) b) (\<lambda>(found, b).
      if found then Inr (True, b) else and_then (budget_step check b) (\<lambda>b. Inr (False, b)))))"
| "clause_requires check requested exact_id required (Field path field_id predicates) = (\<lambda>b.
    if field_id = exact_id then
      and_then (same_path check path requested b) (\<lambda>(same, b).
      if same then
        search True (\<lambda>p b. and_then (budget_step check b) (same_fact check required p)) predicates b
      else Inr (False, b))
    else Inr (False, b))"
| "clause_requires check requested exact_id required (LogicalClause kind children) = (\<lambda>b.
    case kind of
      LogicalAnd \<Rightarrow> search True (\<lambda>m. m) (map (requires_partial_fact check requested exact_id required) children) b
    | LogicalOr \<Rightarrow>
        and_then (search False (\<lambda>m. m) (map (requires_partial_fact check requested exact_id required) children) b) (\<lambda>(every, b).
        Inr (children \<noteq> [] \<and> every, b))
    | LogicalNor \<Rightarrow> Inr (False, b))"

primrec is_implied_by_index_query ::
      "(nat \<Rightarrow> EngineErrorKind option) \<Rightarrow> 're DocumentMatcher \<Rightarrow> 're DocumentMatcher \<Rightarrow> Budget \<Rightarrow> MatchError + bool \<times> Budget"
  and clause_implied ::
      "(nat \<Rightarrow> EngineErrorKind option) \<Rightarrow> 're DocumentMatcher \<Rightarrow> 're Clause \<Rightarrow> Budget \<Rightarrow> MatchError + bool \<times> Budget" where
  "is_implied_by_index_query check query (DocumentMatcher cs rb) = (\<lambda>b.
    and_then (budget_step check b) (\<lambda>b.
    and_then
      (search False (\<lambda>c b. and_then (budget_step check b) c) (map (clause_implied check query) cs) b) (\<lambda>(every, b).
    if every then and_then (budget_step check b) (\<lambda>b. Inr (True, b)) else Inr (False, b))))"
| "clause_implied check query (Field path field_id predicates) =
    search False (\<lambda>p b. and_then (budget_step check b) (requires_partial_fact check path field_id p query)) predicates"
| "clause_implied check query (LogicalClause kind children) = (\<lambda>b.
    case kind of
      LogicalAnd \<Rightarrow> search False (\<lambda>m. m) (map (is_implied_by_index_query check query) children) b
    | LogicalOr \<Rightarrow> search True (\<lambda>m. m) (map (is_implied_by_index_query check query) children) b
    | LogicalNor \<Rightarrow> Inr (False, b))"

section \<open>Alternatives are necessary\<close>

text \<open>A list of values covers a path of a document if the path reaches a value equal to one of them, or if
  null is one of them and the path reaches nothing.\<close>

definition covers :: "bytes list \<Rightarrow> BsonValue \<Rightarrow> BsonValue list \<Rightarrow> bool" where
  "covers path v us \<longleftrightarrow>
    (\<exists>a indexed u. (a, indexed) \<in> set (reached path v) \<and> u \<in> set us \<and> equal_meaning a u False)
    \<or> Null \<in> set us \<and> fst ` set (reached path v) \<subseteq> {None}"

lemma covers_append: "covers path v us \<or> covers path v ws \<Longrightarrow> covers path v (us @ ws)"
  by (auto simp: covers_def)

text \<open>A step that answers yes adds a list with a property, within the values that remain, and one that answers no
  leaves the list as it is.\<close>

definition gathers :: "(BsonValue list \<Rightarrow> bool) \<Rightarrow> Witness \<Rightarrow> bool \<Rightarrow> Witness \<Rightarrow> bool" where
  "gathers P st yes st' \<longleftrightarrow>
    (if yes then \<exists>ws. collected st' = collected st @ ws \<and> P ws \<and> length ws + remaining st' \<le> remaining st
     else collected st' = collected st \<and> remaining st' \<le> remaining st)"

definition collects :: "(BsonValue list \<Rightarrow> bool) \<Rightarrow> nat \<Rightarrow> (Witness \<Rightarrow> MatchError + bool \<times> Witness) \<Rightarrow> bool" where
  "collects P start f \<longleftrightarrow>
    (\<forall>st yes st'. f st = Inr (yes, st') \<and> length (collected st) = start \<longrightarrow> gathers P st yes st')"

lemma gathers_same:
  assumes "collected st1 = collected st" "remaining st1 \<le> remaining st" "gathers P st1 yes st'"
  shows "gathers P st yes st'"
  using assms by (auto simp: gathers_def split: if_splits)

lemma gathers_False: "gathers P st False st' \<longleftrightarrow> collected st' = collected st \<and> remaining st' \<le> remaining st"
  by (simp add: gathers_def)

lemma collectsD: "collects P start f \<Longrightarrow> f st = Inr (yes, st') \<Longrightarrow> length (collected st) = start \<Longrightarrow> gathers P st yes st'"
  by (simp add: collects_def)

lemma collectsI: "(\<And>st yes st'. f st = Inr (yes, st') \<Longrightarrow> length (collected st) = start \<Longrightarrow> gathers P st yes st') \<Longrightarrow> collects P start f"
  by (simp add: collects_def)

lemma witness_step_same: "witness_step check st = Inr st' \<Longrightarrow> collected st' = collected st \<and> remaining st' = remaining st"
  by (auto simp: witness_step_def result_simps)

lemma collects_step: "collects P start f \<Longrightarrow> collects P start (\<lambda>st. and_then (witness_step check st) f)"
proof (rule collectsI)
  fix st yes st'
  assume f: "collects P start f" and run: "and_then (witness_step check st) f = Inr (yes, st')" and start: "length (collected st) = start"
  then obtain st1 where st1: "witness_step check st = Inr st1" "f st1 = Inr (yes, st')" by (auto simp: result_simps)
  show "gathers P st yes st'"
    by (rule gathers_same [OF _ _ collectsD [OF f st1(2)]]) (use witness_step_same [OF st1(1)] start in simp_all)
qed

lemma collects_search_some:
  "(\<And>f. f \<in> set fs \<Longrightarrow> collects P start (g f)) \<Longrightarrow> collects P start (search True g fs)"
proof (induction fs)
  case Nil
  show ?case by (simp add: collects_def gathers_def)
next
  case (Cons f fs)
  show ?case
  proof (rule collectsI)
    fix st yes st'
    assume run: "search True g (f # fs) st = Inr (yes, st')" and start: "length (collected st) = start"
    then obtain b st1 where f: "g f st = Inr (b, st1)"
        and rest: "(if b then Inr (True, st1) else search True g fs st1) = Inr (yes, st')"
      by (auto simp: result_simps)
    have first: "gathers P st b st1" by (rule collectsD [OF Cons.prems f start]) simp
    show "gathers P st yes st'"
    proof (cases b)
      case True
      then show ?thesis using first rest by simp
    next
      case False
      then have same: "collected st1 = collected st" "remaining st1 \<le> remaining st" using first by (simp_all add: gathers_False)
      have "collects P start (search True g fs)" using Cons by simp
      from gathers_same [OF same collectsD [OF this]] rest False same start show ?thesis by simp
    qed
  qed
qed

lemma search_every:
  assumes "\<And>m start. m \<in> set ms \<Longrightarrow> collects (P m) start (F m)" "search False (\<lambda>f. f) (map F ms) st = Inr (every, st')"
    and mono: "\<And>m us vs. P m us \<or> P m vs \<Longrightarrow> P m (us @ vs)"
  shows "\<exists>ws. collected st' = collected st @ ws
    \<and> (if every then length ws + remaining st' \<le> remaining st \<and> (\<forall>m \<in> set ms. P m ws) else remaining st' \<le> remaining st)"
  using assms(1,2)
proof (induction ms arbitrary: st)
  case (Cons m ms)
  then obtain b st1 where f: "F m st = Inr (b, st1)"
      and rest: "(if b then search False (\<lambda>f. f) (map F ms) st1 else Inr (False, st1)) = Inr (every, st')"
    by (auto simp: result_simps split: if_splits)
  have first: "gathers (P m) st b st1" by (rule collectsD [OF Cons.prems(1) f]) simp_all
  show ?case
  proof (cases b)
    case True
    then obtain us where us: "collected st1 = collected st @ us" "P m us" "length us + remaining st1 \<le> remaining st"
      using first by (auto simp: gathers_def)
    have "\<exists>ws. collected st' = collected st1 @ ws
      \<and> (if every then length ws + remaining st' \<le> remaining st1 \<and> (\<forall>m \<in> set ms. P m ws) else remaining st' \<le> remaining st1)"
      by (rule Cons.IH) (use Cons.prems(1) rest True in auto)
    then obtain ws where ws: "collected st' = collected st1 @ ws"
        "if every then length ws + remaining st' \<le> remaining st1 \<and> (\<forall>m \<in> set ms. P m ws) else remaining st' \<le> remaining st1"
      by blast
    show ?thesis by (rule exI [of _ "us @ ws"]) (use us ws mono in auto)
  next
    case False
    then show ?thesis using first rest by (auto simp: gathers_False)
  qed
qed simp

lemma witness_reserve_cases:
  "witness_reserve check count st = Inr (reserved, st') \<Longrightarrow>
    collected st' = collected st \<and> remaining st' \<le> remaining st \<and> (reserved \<longrightarrow> count + remaining st' = remaining st \<and> count \<noteq> 0)"
  by (auto simp: witness_reserve_def result_simps dest!: witness_step_same split: if_splits)

lemma push_literals_cases:
  "push_literals check ms st = Inr (literal, st') \<Longrightarrow>
    remaining st' = remaining st \<and> (\<exists>ws. collected st' = collected st @ ws \<and> (literal \<longrightarrow> ms = map MLiteral ws))"
proof (induction ms arbitrary: st)
  case (Cons m ms)
  then obtain st1 where st1: "witness_step check st = Inr st1"
      "(case m of MLiteral v \<Rightarrow> push_literals check ms (witness_push v st1) | _ \<Rightarrow> Inr (False, st1)) = Inr (literal, st')"
    by (auto simp: result_simps)
  show ?case
  proof (cases m)
    case (MLiteral v)
    then have "push_literals check ms (witness_push v st1) = Inr (literal, st')" using st1(2) by simp
    from Cons.IH [OF this] obtain ws where ws: "remaining st' = remaining st1" "collected st' = collected st1 @ v # ws"
        "literal \<longrightarrow> ms = map MLiteral ws"
      by (auto simp: witness_push_def)
    then show ?thesis using witness_step_same [OF st1(1)] MLiteral by (auto intro!: exI [of _ "v # ws"])
  qed (use st1 witness_step_same [OF st1(1)] in auto)
qed simp

lemma collects_one: "P [v] \<Longrightarrow> collects P start (collect_one check v)"
  by (rule collectsI)
    (auto simp: collect_one_def result_simps gathers_def witness_push_def dest!: witness_reserve_cases split: if_splits)

definition predicate_covers :: "'re RegexEngine \<Rightarrow> bytes list \<Rightarrow> BsonValue \<Rightarrow> bool \<Rightarrow> bool \<Rightarrow> 're Predicate \<Rightarrow> BsonValue list \<Rightarrow> bool" where
  "predicate_covers E path v exact_id field_id p us \<longleftrightarrow>
    (quantified (negative p) (\<lambda>(value, indexed). predicate_holds E p value (exact_id \<and> field_id \<or> indexed)) (reached path v)
      \<longrightarrow> covers path v us)"

lemma collects_predicate: "collects (predicate_covers E path v exact_id field_id p) start (collect_predicate check start p)"
proof -
  have equal: "predicate_covers E path v exact_id field_id (PEqual u) [u]" for u
    using equal_meaning_mono by (fastforce simp: predicate_covers_def covers_def quantified_def list_ex_iff)
  have absent: "predicate_covers E path v exact_id field_id (PExists False) [Null]"
    by (fastforce simp: predicate_covers_def covers_def quantified_def list_all_iff)
  have members: "predicate_covers E path v exact_id field_id (PIn (map MLiteral us) False) us" for us
    using equal_meaning_mono by (fastforce simp: predicate_covers_def covers_def quantified_def list_ex_iff)
  have among: "collects (predicate_covers E path v exact_id field_id (PIn ms False)) start
      (collect_predicate check start (PIn ms False))" for ms
  proof (rule collectsI)
    fix st yes st'
    assume run: "collect_predicate check start (PIn ms False) st = Inr (yes, st')" and start: "length (collected st) = start"
    then obtain reserved st1 where r: "witness_reserve check (length ms) st = Inr (reserved, st1)"
      and rest: "(if \<not> reserved then Inr (False, st1)
         else and_then (push_literals check ms st1) (\<lambda>(literal, st).
           Inr (if literal then (True, st) else (False, witness_cut start st)))) = Inr (yes, st')"
      by (auto simp: collect_predicate_def result_simps)
    note reserve = witness_reserve_cases [OF r]
    show "gathers (predicate_covers E path v exact_id field_id (PIn ms False)) st yes st'"
    proof (cases reserved)
      case False
      then show ?thesis using rest reserve by (auto simp: gathers_False)
    next
      case True
      then obtain literal st2 where l: "push_literals check ms st1 = Inr (literal, st2)"
          "(if literal then (True, st2) else (False, witness_cut start st2)) = (yes, st')"
        using rest by (auto simp: result_simps)
      from push_literals_cases [OF l(1)] obtain ws where ws: "remaining st2 = remaining st1" "collected st2 = collected st1 @ ws"
          "literal \<longrightarrow> ms = map MLiteral ws"
        by blast
      show ?thesis
      proof (cases literal)
        case True
        then show ?thesis using l(2) ws reserve \<open>reserved\<close> members [of ws] by (auto simp: gathers_def)
      next
        case False
        then show ?thesis using l(2) ws reserve \<open>reserved\<close> start by (auto simp: gathers_False witness_cut_def)
      qed
    qed
  qed
  have other: "collects P start (collect_predicate check start q)"
    if "\<And>st. collect_predicate check start q st = Inr (False, st)" for P q
    using that by (simp add: collects_def gathers_False)
  show ?thesis
  proof (cases p)
    case (PEqual u)
    have "collect_predicate check start p = collect_one check u" unfolding PEqual by (simp add: fun_eq_iff collect_predicate_def)
    then show ?thesis unfolding PEqual by (simp only:) (rule collects_one, rule equal)
  next
    case (PExists expected)
    show ?thesis
    proof (cases expected)
      case False
      then have "collect_predicate check start p = collect_one check Null" unfolding PExists by (simp add: fun_eq_iff collect_predicate_def)
      then show ?thesis using False unfolding PExists by (simp only:) (rule collects_one, rule absent)
    qed (rule other, simp add: PExists collect_predicate_def)
  next
    case (PIn ms neg)
    show ?thesis
    proof (cases neg)
      case False
      then show ?thesis using among [of ms] PIn by simp
    qed (rule other, simp add: PIn collect_predicate_def)
  qed (rule other, simp add: collect_predicate_def)+
qed

definition matcher_covers :: "'re RegexEngine \<Rightarrow> bytes list \<Rightarrow> Root \<Rightarrow> bool \<Rightarrow> 're DocumentMatcher \<Rightarrow> BsonValue list \<Rightarrow> bool" where
  "matcher_covers E path node exact_id m us \<longleftrightarrow>
    (matcher_holds E m node exact_id False \<longrightarrow> covers path (node_value node) us)"

definition clause_covers :: "'re RegexEngine \<Rightarrow> bytes list \<Rightarrow> Root \<Rightarrow> bool \<Rightarrow> 're Clause \<Rightarrow> BsonValue list \<Rightarrow> bool" where
  "clause_covers E path node exact_id c us \<longleftrightarrow>
    (clause_holds E c node exact_id False \<longrightarrow> covers path (node_value node) us)"

lemma collects_weaken: "collects P start f \<Longrightarrow> (\<And>us. P us \<Longrightarrow> Q us) \<Longrightarrow> collects Q start f"
  unfolding collects_def gathers_def by (metis (mono_tags, lifting))

lemma collects_false: "collects P start (\<lambda>st. Inr (False, st))"
  by (simp add: collects_def gathers_False)

lemma collects_field:
  "collects (clause_covers E path node exact_id (Field path field_id ps)) start
    (search True (\<lambda>p st. and_then (witness_step check st) (collect_predicate check start p)) ps)"
proof (rule collects_search_some, rule collects_step)
  fix p
  assume "p \<in> set ps"
  then have "clause_covers E path node exact_id (Field path field_id ps) us"
    if "predicate_covers E path (node_value node) exact_id field_id p us" for us
    using that by (auto simp: predicate_covers_def clause_covers_def list_all_iff field_reached_def)
  from collects_weaken [OF collects_predicate this]
  show "collects (clause_covers E path node exact_id (Field path field_id ps)) start (collect_predicate check start p)" .
qed

lemma collects_or:
  assumes "\<And>m start. m \<in> set ms \<Longrightarrow> collects (matcher_covers E path node exact_id m) start (collect check path m)"
  shows "collects (clause_covers E path node exact_id (LogicalClause LogicalOr ms)) start
    (\<lambda>st. and_then (search False (\<lambda>m. m) (map (collect check path) ms) st) (\<lambda>(every, st).
      Inr (if ms \<noteq> [] \<and> every then (True, st) else (False, witness_cut start st))))"
proof (rule collectsI)
  fix st yes st'
  assume run: "and_then (search False (\<lambda>m. m) (map (collect check path) ms) st) (\<lambda>(every, st).
      Inr (if ms \<noteq> [] \<and> every then (True, st) else (False, witness_cut start st))) = Inr (yes, st')"
    and start: "length (collected st) = start"
  then obtain every st1 where s: "search False (\<lambda>m. m) (map (collect check path) ms) st = Inr (every, st1)"
      "(if ms \<noteq> [] \<and> every then (True, st1) else (False, witness_cut start st1)) = (yes, st')"
    by (auto simp: result_simps)
  have mono: "matcher_covers E path node exact_id m (us @ vs)"
    if "matcher_covers E path node exact_id m us \<or> matcher_covers E path node exact_id m vs" for m us vs
    using that covers_append by (auto simp: matcher_covers_def)
  from search_every [of ms "matcher_covers E path node exact_id", OF assms s(1) mono]
  obtain ws where ws: "collected st1 = collected st @ ws"
      "if every then length ws + remaining st1 \<le> remaining st \<and> (\<forall>m \<in> set ms. matcher_covers E path node exact_id m ws)
        else remaining st1 \<le> remaining st"
    by blast
  show "gathers (clause_covers E path node exact_id (LogicalClause LogicalOr ms)) st yes st'"
  proof (cases "ms \<noteq> [] \<and> every")
    case True
    then have "clause_covers E path node exact_id (LogicalClause LogicalOr ms) ws"
      using ws(2) by (auto simp: clause_covers_def matcher_covers_def list_ex_iff Let_def)
    then show ?thesis using True s(2) ws by (auto simp: gathers_def)
  next
    case False
    then have "yes = False" "st' = witness_cut start st1" using s(2) by (auto split: if_splits)
    then show ?thesis using ws start by (auto simp: gathers_False witness_cut_def split: if_splits)
  qed
qed

lemma collect_covers:
  fixes E :: "'re RegexEngine" and m :: "'re DocumentMatcher" and c :: "'re Clause"
  shows "(\<forall>start. collects (matcher_covers E path node exact_id m) start (collect check path m))
    \<and> (\<forall>start. collects (clause_covers E path node exact_id c) start (collect_clause check path c start))
    \<and> True \<and> True \<and> True"
proof (rule DocumentMatcher_Clause_Predicate_Member_Element.induct)
  fix cs :: "'re Clause list" and rb
  assume ih: "\<And>c. c \<in> set cs \<Longrightarrow> \<forall>start. collects (clause_covers E path node exact_id c) start (collect_clause check path c start)"
  have "collects (matcher_covers E path node exact_id (DocumentMatcher cs rb)) start
      (search True (\<lambda>c st'. and_then (witness_step check st') (c start)) (map (collect_clause check path) cs))" for start
  proof (rule collects_search_some, rule collects_step)
    fix f
    assume "f \<in> set (map (collect_clause check path) cs)"
    then obtain c where c: "c \<in> set cs" "f = collect_clause check path c" by auto
    have "matcher_covers E path node exact_id (DocumentMatcher cs rb) us" if "clause_covers E path node exact_id c us" for us
      using that c by (auto simp: clause_covers_def matcher_covers_def list_all_iff)
    from collects_weaken [OF ih [OF c(1), rule_format] this]
    show "collects (matcher_covers E path node exact_id (DocumentMatcher cs rb)) start (f start)" unfolding c(2) .
  qed
  then show "\<forall>start. collects (matcher_covers E path node exact_id (DocumentMatcher cs rb)) start
      (collect check path (DocumentMatcher cs rb))"
    by (simp add: collects_def)
next
  fix path' field_id and ps :: "'re Predicate list"
  show "\<forall>start. collects (clause_covers E path node exact_id (Field path' field_id ps)) start
      (collect_clause check path (Field path' field_id ps) start)"
  proof (cases "path' = path")
    case True
    then have "collect_clause check path (Field path' field_id ps) start
        = search True (\<lambda>p st. and_then (witness_step check st) (collect_predicate check start p)) ps" for start
      by (simp add: fun_eq_iff)
    then show ?thesis using collects_field True by metis
  qed (use collects_false in simp)
next
  fix kind and ms :: "'re DocumentMatcher list"
  assume ih: "\<And>m. m \<in> set ms \<Longrightarrow> \<forall>start. collects (matcher_covers E path node exact_id m) start (collect check path m)"
  have every: "collects (clause_covers E path node exact_id (LogicalClause LogicalAnd ms)) start
      (search True (\<lambda>m. m) (map (collect check path) ms))" for start
  proof (rule collects_search_some)
    fix f
    assume "f \<in> set (map (collect check path) ms)"
    then obtain m where m: "m \<in> set ms" "f = collect check path m" by auto
    have "clause_covers E path node exact_id (LogicalClause LogicalAnd ms) us" if "matcher_covers E path node exact_id m us" for us
      using that m by (auto simp: clause_covers_def matcher_covers_def list_all_iff Let_def)
    from collects_weaken [OF ih [OF m(1), rule_format] this]
    show "collects (clause_covers E path node exact_id (LogicalClause LogicalAnd ms)) start f" unfolding m(2) .
  qed
  have some: "collects (clause_covers E path node exact_id (LogicalClause LogicalOr ms)) start
    (\<lambda>st. and_then (search False (\<lambda>m. m) (map (collect check path) ms) st) (\<lambda>(every, st).
      Inr (if ms \<noteq> [] \<and> every then (True, st) else (False, witness_cut start st))))" for start
    by (rule collects_or) (use ih in blast)
  show "\<forall>start. collects (clause_covers E path node exact_id (LogicalClause kind ms)) start
      (collect_clause check path (LogicalClause kind ms) start)"
  proof (cases kind)
    case LogicalAnd
    then have "collect_clause check path (LogicalClause kind ms) start = search True (\<lambda>m. m) (map (collect check path) ms)" for start
      by (simp add: fun_eq_iff)
    then show ?thesis using every LogicalAnd by metis
  next
    case LogicalOr
    then show ?thesis using some by (simp add: case_prod_unfold)
  next
    case LogicalNor
    then show ?thesis using collects_false by simp
  qed
qed simp_all

lemma alternatives_cover:
  assumes "alternatives_for_index_path check path max_values m b = Inr (Some us, b')" "matcher_holds E m (RootDocument d) True False"
  shows "covers path (Document d) us \<and> length us \<le> max_values"
proof -
  from assms(1) obtain b1 st where st: "collect check path m \<lparr>collected = [], remaining = max_values, control_budget = b1\<rparr> = Inr (True, st)"
      "us = collected st"
    by (auto simp: alternatives_for_index_path_def result_simps split: if_splits)
  have "collects (matcher_covers E path (RootDocument d) True m) 0 (collect check path m)"
    using collect_covers [of E path "RootDocument d" True m check] by blast
  from collectsD [OF this st(1)] show ?thesis using assms(2) st(2) by (auto simp: gathers_def matcher_covers_def node_value_def)
qed

section \<open>An implied filter holds\<close>

text \<open>A search that answers yes.\<close>

lemma search_True: "search True g fs w = Inr (True, w') \<Longrightarrow> \<exists>f w1 w2. f \<in> set fs \<and> g f w1 = Inr (True, w2)"
proof (induction fs arbitrary: w)
  case (Cons f fs)
  then obtain b w1 where "g f w = Inr (b, w1)" "(if b then Inr (True, w1) else search True g fs w1) = Inr (True, w')"
    by (auto simp: result_simps)
  then show ?case using Cons.IH [of w1] by (cases b) auto
qed simp

lemma search_False: "search False g fs w = Inr (True, w') \<Longrightarrow> f \<in> set fs \<Longrightarrow> \<exists>w1 w2. g f w1 = Inr (True, w2)"
proof (induction fs arbitrary: w)
  case (Cons h fs)
  then obtain b w1 where "g h w = Inr (b, w1)" "(if b then search False g fs w1 else Inr (False, w1)) = Inr (True, w')"
    by (auto simp: result_simps split: if_splits)
  then show ?case using Cons.IH [of w1] Cons.prems(2) by (cases b) auto
qed simp

lemma same_path_True: "same_path check left right b = Inr (True, b') \<Longrightarrow> left = right"
proof -
  have "same_parts check left right b = Inr (True, b') \<Longrightarrow> length left = length right \<Longrightarrow> left = right" for b
    by (induction check left right b rule: same_parts.induct) (auto simp: result_simps split: if_splits)
  then show "same_path check left right b = Inr (True, b') \<Longrightarrow> left = right"
    by (simp add: same_path_def split: if_splits)
qed

lemma same_fact_True:
  assumes "same_fact check required p b = Inr (True, b')" "partial_fact required"
  shows "p = required"
  using assms unfolding same_fact_def partial_fact_def
  by (auto simp: result_simps representation_identity split: Predicate.splits bool.splits if_splits)

definition fact_holds :: "'re RegexEngine \<Rightarrow> bytes list \<Rightarrow> bool \<Rightarrow> 're Predicate \<Rightarrow> Root \<Rightarrow> bool \<Rightarrow> bool" where
  "fact_holds E path field_id p node exact_id \<longleftrightarrow>
    quantified (negative p) (\<lambda>(value, indexed). predicate_holds E p value (exact_id \<and> field_id \<or> indexed))
      (reached path (node_value node))"

lemma clause_facts: "clause_holds E (Field path field_id ps) node exact_id False \<longleftrightarrow>
    (\<forall>p \<in> set ps. fact_holds E path field_id p node exact_id)"
  by (auto simp: fact_holds_def list_all_iff field_reached_def)

lemma required_facts:
  fixes E :: "'re RegexEngine" and m :: "'re DocumentMatcher" and c :: "'re Clause"
  shows "(\<forall>b b'. requires_partial_fact check path field_id p m b = Inr (True, b') \<longrightarrow> matcher_holds E m node exact_id False
      \<longrightarrow> fact_holds E path field_id p node exact_id)
  \<and> (\<forall>b b'. clause_requires check path field_id p c b = Inr (True, b') \<longrightarrow> partial_fact p \<longrightarrow> clause_holds E c node exact_id False
      \<longrightarrow> fact_holds E path field_id p node exact_id)
  \<and> True \<and> True \<and> True"
proof (rule DocumentMatcher_Clause_Predicate_Member_Element.induct)
  fix cs :: "'re Clause list" and rb
  assume ih: "\<And>c. c \<in> set cs \<Longrightarrow> \<forall>b b'. clause_requires check path field_id p c b = Inr (True, b') \<longrightarrow> partial_fact p
      \<longrightarrow> clause_holds E c node exact_id False \<longrightarrow> fact_holds E path field_id p node exact_id"
  show "\<forall>b b'. requires_partial_fact check path field_id p (DocumentMatcher cs rb) b = Inr (True, b')
      \<longrightarrow> matcher_holds E (DocumentMatcher cs rb) node exact_id False \<longrightarrow> fact_holds E path field_id p node exact_id"
  proof (intro allI impI)
    fix b b'
    assume run: "requires_partial_fact check path field_id p (DocumentMatcher cs rb) b = Inr (True, b')"
      and holds: "matcher_holds E (DocumentMatcher cs rb) node exact_id False"
    then obtain b1 b2 where fact: "partial_fact p"
        and "search True (\<lambda>c b. and_then (budget_step check b) c) (map (clause_requires check path field_id p) cs) b1 = Inr (True, b2)"
      by (auto simp: result_simps split: if_splits)
    from search_True [OF this(2)] obtain c b3 b4 where "c \<in> set cs" "clause_requires check path field_id p c b3 = Inr (True, b4)"
      by (auto simp: result_simps)
    then show "fact_holds E path field_id p node exact_id" using ih fact holds by (auto simp: list_all_iff)
  qed
next
  fix path' field_id' and ps :: "'re Predicate list"
  show "\<forall>b b'. clause_requires check path field_id p (Field path' field_id' ps) b = Inr (True, b') \<longrightarrow> partial_fact p
      \<longrightarrow> clause_holds E (Field path' field_id' ps) node exact_id False \<longrightarrow> fact_holds E path field_id p node exact_id"
  proof (intro allI impI)
    fix b b'
    assume run: "clause_requires check path field_id p (Field path' field_id' ps) b = Inr (True, b')" and fact: "partial_fact p"
      and holds: "clause_holds E (Field path' field_id' ps) node exact_id False"
    from run obtain b1 where same: "field_id' = field_id" "same_path check path' path b = Inr (True, b1)"
        and s: "search True (\<lambda>q b. and_then (budget_step check b) (same_fact check p q)) ps b1 = Inr (True, b')"
      by (auto simp: result_simps split: if_splits)
    from search_True [OF s] obtain q b3 b4 where "q \<in> set ps" "same_fact check p q b3 = Inr (True, b4)"
      by (auto simp: result_simps)
    moreover from same_fact_True [OF this(2) fact] have "q = p" .
    ultimately show "fact_holds E path field_id p node exact_id"
      using holds same(1) same_path_True [OF same(2)] unfolding clause_facts by blast
  qed
next
  fix kind and ms :: "'re DocumentMatcher list"
  assume ih: "\<And>m. m \<in> set ms \<Longrightarrow> \<forall>b b'. requires_partial_fact check path field_id p m b = Inr (True, b')
      \<longrightarrow> matcher_holds E m node exact_id False \<longrightarrow> fact_holds E path field_id p node exact_id"
  show "\<forall>b b'. clause_requires check path field_id p (LogicalClause kind ms) b = Inr (True, b') \<longrightarrow> partial_fact p
      \<longrightarrow> clause_holds E (LogicalClause kind ms) node exact_id False \<longrightarrow> fact_holds E path field_id p node exact_id"
  proof (intro allI impI)
    fix b b'
    assume run: "clause_requires check path field_id p (LogicalClause kind ms) b = Inr (True, b')"
      and holds: "clause_holds E (LogicalClause kind ms) node exact_id False"
    show "fact_holds E path field_id p node exact_id"
    proof (cases kind)
      case LogicalAnd
      then have "search True (\<lambda>m. m) (map (requires_partial_fact check path field_id p) ms) b = Inr (True, b')" using run by simp
      from search_True [OF this] obtain m b1 b2 where "m \<in> set ms" "requires_partial_fact check path field_id p m b1 = Inr (True, b2)"
        by auto
      then show ?thesis using ih holds LogicalAnd by (auto simp: list_all_iff Let_def)
    next
      case LogicalOr
      then obtain b1 where "search False (\<lambda>m. m) (map (requires_partial_fact check path field_id p) ms) b = Inr (True, b1)"
        using run by (auto simp: result_simps)
      note every = search_False [OF this]
      obtain m where m: "m \<in> set ms" "matcher_holds E m node exact_id False"
        using holds LogicalOr by (auto simp: list_ex_iff Let_def)
      with every [of "requires_partial_fact check path field_id p m"] ih [OF m(1)] show ?thesis by auto
    next
      case LogicalNor
      then show ?thesis using run by simp
    qed
  qed
qed simp_all

lemma implied_filter_holds:
  fixes E :: "'re RegexEngine" and m :: "'re DocumentMatcher" and c :: "'re Clause"
  assumes query: "matcher_holds E query node exact_id False"
  shows "(\<forall>b b'. is_implied_by_index_query check query m b = Inr (True, b') \<longrightarrow> matcher_holds E m node exact_id False)
  \<and> (\<forall>b b'. clause_implied check query c b = Inr (True, b') \<longrightarrow> clause_holds E c node exact_id False)
  \<and> True \<and> True \<and> True"
proof (rule DocumentMatcher_Clause_Predicate_Member_Element.induct)
  fix cs :: "'re Clause list" and rb
  assume ih: "\<And>c. c \<in> set cs \<Longrightarrow> \<forall>b b'. clause_implied check query c b = Inr (True, b') \<longrightarrow> clause_holds E c node exact_id False"
  show "\<forall>b b'. is_implied_by_index_query check query (DocumentMatcher cs rb) b = Inr (True, b')
      \<longrightarrow> matcher_holds E (DocumentMatcher cs rb) node exact_id False"
  proof (intro allI impI)
    fix b b'
    assume "is_implied_by_index_query check query (DocumentMatcher cs rb) b = Inr (True, b')"
    then obtain b1 b2 where
        s: "search False (\<lambda>c b. and_then (budget_step check b) c) (map (clause_implied check query) cs) b1 = Inr (True, b2)"
      by (auto simp: result_simps split: if_splits)
    have "clause_holds E c node exact_id False" if c: "c \<in> set cs" for c
      using search_False [OF s, of "clause_implied check query c"] ih [OF c] c by (auto simp: result_simps)
    then show "matcher_holds E (DocumentMatcher cs rb) node exact_id False" by (simp add: list_all_iff)
  qed
next
  fix path field_id and ps :: "'re Predicate list"
  show "\<forall>b b'. clause_implied check query (Field path field_id ps) b = Inr (True, b')
      \<longrightarrow> clause_holds E (Field path field_id ps) node exact_id False"
  proof (intro allI impI)
    fix b b'
    assume "clause_implied check query (Field path field_id ps) b = Inr (True, b')"
    then have s: "search False (\<lambda>p b. and_then (budget_step check b) (requires_partial_fact check path field_id p query)) ps b = Inr (True, b')"
      by simp
    have "fact_holds E path field_id p node exact_id" if p: "p \<in> set ps" for p
    proof -
      obtain b1 b2 where "requires_partial_fact check path field_id p query b1 = Inr (True, b2)"
        using search_False [OF s p] by (auto simp: result_simps)
      then show ?thesis using required_facts [of check path field_id p query E node exact_id] query by blast
    qed
    then show "clause_holds E (Field path field_id ps) node exact_id False" unfolding clause_facts by blast
  qed
next
  fix kind and ms :: "'re DocumentMatcher list"
  assume ih: "\<And>m. m \<in> set ms \<Longrightarrow> \<forall>b b'. is_implied_by_index_query check query m b = Inr (True, b') \<longrightarrow> matcher_holds E m node exact_id False"
  show "\<forall>b b'. clause_implied check query (LogicalClause kind ms) b = Inr (True, b')
      \<longrightarrow> clause_holds E (LogicalClause kind ms) node exact_id False"
  proof (intro allI impI)
    fix b b'
    assume run: "clause_implied check query (LogicalClause kind ms) b = Inr (True, b')"
    show "clause_holds E (LogicalClause kind ms) node exact_id False"
    proof (cases kind)
      case LogicalAnd
      then have s: "search False (\<lambda>m. m) (map (is_implied_by_index_query check query) ms) b = Inr (True, b')" using run by simp
      have "matcher_holds E m node exact_id False" if m: "m \<in> set ms" for m
        using search_False [OF s, of "is_implied_by_index_query check query m"] ih [OF m] m by auto
      then show ?thesis using LogicalAnd by (simp add: list_all_iff Let_def)
    next
      case LogicalOr
      then have "search True (\<lambda>m. m) (map (is_implied_by_index_query check query) ms) b = Inr (True, b')" using run by simp
      from search_True [OF this] obtain m b1 b2 where "m \<in> set ms" "is_implied_by_index_query check query m b1 = Inr (True, b2)"
        by auto
      then show ?thesis using ih LogicalOr by (auto simp: list_ex_iff Let_def)
    next
      case LogicalNor
      then show ?thesis using run by simp
    qed
  qed
qed simp_all

end
