(* ===== verification/Bson_Index_Properties.thy ===== *)
theory Bson_Index_Properties
  imports Bson_Index_Conditions
begin

text \<open>
  What the alternatives of a query and the implication of a partial filter mean for the documents that a
  query matches.
\<close>

section \<open>Samples\<close>

definition either_query :: BsonDocument where
  "either_query = [(ascii ''$or'', Array [Document [(ascii ''b'', String [120])], Document [(ascii ''b'', String [121])]])]"

definition b_matcher :: "bytes \<Rightarrow> nat \<Rightarrow> unit DocumentMatcher" where
  "b_matcher s rb = DocumentMatcher [Field [ascii ''b''] False [PEqual (String s)]] rb"

definition either_matcher :: "unit DocumentMatcher" where
  "either_matcher = DocumentMatcher [LogicalClause LogicalOr [b_matcher [120] 0, b_matcher [121] 0]] 768"

lemma b_compiled:
  "n \<le> 100 \<Longrightarrow> depth \<le> 1 \<Longrightarrow>
    compile_document (\<lambda>_. None) sample_engine [(ascii ''b'', String s)] depth False \<lparr>nodes = n, regexes = 0, checks = k\<rparr>
    = Inr (b_matcher s 0, \<lparr>nodes = n + 2, regexes = 0, checks = k + 2\<rparr>)"
  by (subst compile_document.simps) (simp add: compiler_simps b_matcher_def)

lemma b_filter_compiled:
  "compile_with_check (\<lambda>_. None) sample_engine (\<lambda>_ _. Inr 0) [(ascii ''b'', String [120])] = Inr (b_matcher [120] 256)"
  unfolding compile_with_check_def by (simp add: call_def b_compiled) (simp add: b_matcher_def saturating_add_def saturating_mul_def)

lemma either_compiled: "compile_with_check (\<lambda>_. None) sample_engine (\<lambda>_ _. Inr 0) either_query = Inr either_matcher"
  unfolding compile_with_check_def either_query_def
  by (subst compile_document.simps)
    (simp add: b_compiled [unfolded ascii_def, simplified] compiler_simps as_array_def logical_kind_def either_matcher_def
      saturating_add_def saturating_mul_def)

lemmas index_simps =
  alternatives_for_index_path_def witness_step_def witness_reserve_def witness_push_def witness_cut_def collect_one_def
  collect_predicate_def budget_step_def budget_charge_def budget_check_def budget_new_def call_def MAX_STEPS_def MAX_WORK_BYTES_def
  partial_fact_def partial_scalar_def same_path_def same_fact_def scalar_bytes_def representation_eq.simps

section \<open>Properties\<close>

text \<open>C11: The alternatives that the index planner collects for a path cover every match.  If a compiled query
  matches a document, the path reaches a value equal to one of the alternatives, or null is one of them and
  the path reaches nothing; and there are at most as many as the planner allows.\<close>

theorem index_alternatives_cover:
  assumes "compile_with_check compile_check E encode query = Inr m" "matches_with_check check E m d = Inr True"
    and "alternatives_for_index_path index_check path max_values m budget = Inr (Some us, budget')"
  shows "length us \<le> max_values \<and>
    ((\<exists>a indexed u. (a, indexed) \<in> set (reached path (Document d)) \<and> u \<in> set us \<and> equal_meaning a u False)
      \<or> Null \<in> set us \<and> fst ` set (reached path (Document d)) \<subseteq> {None})"
proof -
  have "matcher_holds E m (RootDocument d) True False"
    using matches_decided [OF compiled_ok [OF assms(1)], of check E d] assms(2) by simp
  from alternatives_cover [OF assms(3) this] show ?thesis by (simp add: covers_def)
qed

text \<open>C12: A partial index that the planner uses for a query holds every match of the query.  If the planner
  finds the filter of the index implied by the query, the filter is never found to reject a document that
  the query matches: testing it answers yes, or stops at a limit or a refused request check.\<close>

theorem partial_filter_implied:
  assumes "compile_with_check compile_check E encode query = Inr m" "compile_with_check filter_check E encode partial_query = Inr p"
    and "is_implied_by_index_query index_check m p budget = Inr (True, budget')"
    and "matches_with_check check E m d = Inr True"
  shows "matcher_holds E p (RootDocument d) True False \<and> matches_with_check partial_check E p d \<noteq> Inr False"
proof -
  have "matcher_holds E m (RootDocument d) True False"
    using matches_decided [OF compiled_ok [OF assms(1)], of check E d] assms(4) by simp
  then have holds: "matcher_holds E p (RootDocument d) True False"
    using implied_filter_holds [of E m "RootDocument d" True index_check p] assms(3) by blast
  then show ?thesis using matches_decided [OF compiled_ok [OF assms(2)], of partial_check E d] by auto
qed

section \<open>Witnesses\<close>

theorem index_alternatives_cover_witness:
  "\<exists>a indexed u. (a, indexed) \<in> set (reached [ascii ''b''] (Document [(ascii ''b'', Array [Null, String [121]])]))
    \<and> u \<in> {String [120], String [121]} \<and> equal_meaning a u False"
proof -
  have "matches_with_check (\<lambda>_. None) sample_engine either_matcher [(ascii ''b'', Array [Null, String [121]])] = Inr True"
    by (simp add: either_matcher_def b_matcher_def evaluation_simps)
  moreover obtain budget' where "alternatives_for_index_path (\<lambda>_. None) [ascii ''b''] 8 either_matcher budget_new
      = Inr (Some [String [120], String [121]], budget')"
    by (simp add: either_matcher_def b_matcher_def index_simps)
  ultimately show ?thesis using index_alternatives_cover [OF either_compiled] by fastforce
qed

theorem partial_filter_implied_witness:
  "matcher_holds sample_engine (b_matcher [120] 256) (RootDocument [(ascii ''b'', String [120]), (ascii ''a'', Boolean True)]) True False"
proof -
  have "matches_with_check (\<lambda>_. None) sample_engine sample_matcher [(ascii ''b'', String [120]), (ascii ''a'', Boolean True)] = Inr True"
    by (simp add: evaluation_simps)
  moreover have "\<exists>budget'. is_implied_by_index_query (\<lambda>_. None) sample_matcher (b_matcher [120] 256) budget_new = Inr (True, budget')"
    by (simp add: sample_matcher_def b_matcher_def index_simps ascii_def)
  ultimately show ?thesis
    using partial_filter_implied [OF sample_compiled b_filter_compiled] by blast
qed

end
