(* ===== verification/Spec2Isabelle.thy ===== *)
theory Spec2Isabelle
  imports Prelude Search Ordered_Code Float64 Types Routing Manifest_Routing Generated_Id Hilo Index_Key
    Byte_Buffer Isam_Format Isam_Tree Isam_Read Isam_Page Isam_Plan Isam_Write Isam_Store Isam_Commit Isam_History
    Bson_Number Bson_Value Bson_Order Bson_Key Bson_Key_Identity
    Bson_Matcher Bson_Match_Semantics Regex_Compat Bson_Query Bson_Match_Properties
    Bson_Index_Budget Bson_Index_Conditions Bson_Index_Properties
begin

text \<open>
  Verification of the core of BriskDB, a sharded SQLite database with a document store and an ISAM record
  file.  Source paths below are relative to \<^verbatim>\<open>src/src/\<close>.

  \<^bold>\<open>The program.\<close>  A request is routed by the hash of its key to one of the physical shards.  The manifest
  database holds the routing rows and hands out blocks of identifiers.  Rows are found through canonical
  index keys, byte strings that order like the values.  Documents are BSON values; queries over them are
  compiled to matchers, and the index planner reads conditions off a matcher.  The ISAM store is a
  copy-on-write B+ tree in one file that several processes read and write.

  \<^bold>\<open>How code becomes definitions.\<close>  A fallible function returns \<^verbatim>\<open>error + result\<close>, and the operator \<^verbatim>\<open>?\<close> is
  \<open>and_then\<close>.  A panic is a value of its own: \<open>None\<close>, or the last constructor of an error type.  Machine
  integers are words, or naturals with the bound written out.  Text is its UTF-8 bytes, floats are their
  bits.  State is a record that is passed along.  A request check, a closure that may refuse at each of its
  calls, is a function of the number of calls made before.  Code outside the sources is a parameter: the
  blake3 digest and the regular expression engine.  Two measuring functions of the sources are parameters
  too: the heap size of a cached node and the encoder that measures a query document.  Allocation is taken
  to succeed.

  \<^bold>\<open>Theories.\<close>
  \<^item> \<open>Prelude\<close>, \<open>Search\<close>, \<open>Byte_Buffer\<close>, \<open>Float64\<close>, \<open>Types\<close>: error kinds (\<^verbatim>\<open>core/error.rs\<close>), results, big- and
    little-endian bytes, \<open>Ordering\<close> and binary search of the Rust library, files as byte arrays, doubles as
    bits, the value enumeration of \<^verbatim>\<open>core/types.rs\<close>.
  \<^item> \<open>Ordered_Code\<close>: the locale of order-preserving prefix-free encodings, interpreted in \<open>Index_Key\<close> on the
    encodings of strings, integers and values.
  \<^item> \<open>Routing\<close> (\<^verbatim>\<open>core/routing.rs\<close>) and \<open>Manifest_Routing\<close> (the routing part of \<^verbatim>\<open>storage/manifest.rs\<close>): catalogs,
    virtual buckets, startup validation and the migration from version 2 to 3.
  \<^item> \<open>Generated_Id\<close> (\<^verbatim>\<open>core/generated_id.rs\<close>): identifier formats behind the locale \<open>id_codec\<close>, their
    classification, and allocation-owner maps.
  \<^item> \<open>Hilo\<close> (\<^verbatim>\<open>storage/hilo.rs\<close> and \<open>reserve_hilo_v1_block\<close>): the allocator over durable leases behind the locale
    \<open>lease_provider\<close>, and processes that allocate, restart and race as a step relation.
  \<^item> \<open>Index_Key\<close> (\<^verbatim>\<open>core/index_key.rs\<close>): encoding, decoding and validation of canonical index keys.
  \<^item> \<open>Isam_Format\<close> (\<^verbatim>\<open>storage/isam/format.rs\<close>), \<open>Isam_Tree\<close> and \<open>Isam_Page\<close> (\<^verbatim>\<open>storage/isam/tree.rs\<close>), \<open>Isam_Store\<close>
    (\<^verbatim>\<open>storage/isam/mod.rs\<close>): root slots, pages, the page cache, lookups, range scans, verification, batch
    planning, page writing, opening and read batches.  \<open>Isam_Read\<close>, \<open>Isam_Plan\<close> and \<open>Isam_Write\<close> hold their
    correctness.  \<open>Isam_Commit\<close> is the step relation of concurrent writers, readers and crashes with its
    invariant, and \<open>Isam_History\<close> what holds in every history.
  \<^item> \<open>Bson_Number\<close> (\<^verbatim>\<open>document/number.rs\<close>), \<open>Bson_Value\<close> (\<^verbatim>\<open>document/value.rs\<close>), \<open>Bson_Order\<close>: numbers in an exact
    canonical form, values with their equalities, comparison and hash, and the laws of these.
  \<^item> \<open>Bson_Key\<close> and \<open>Bson_Key_Identity\<close> (\<^verbatim>\<open>document/key.rs\<close>): canonical identity keys and their validator.
  \<^item> \<open>Bson_Matcher\<close>, \<open>Bson_Query\<close> (\<^verbatim>\<open>document/matcher.rs\<close>, \<^verbatim>\<open>matcher/index_range.rs\<close>) and \<open>Regex_Compat\<close>
    (\<^verbatim>\<open>matcher/regex_compat.rs\<close>): evaluation, compilation and pattern rewriting, with all their limits.
    \<open>Bson_Match_Semantics\<close> gives the meaning of a compiled query and shows that evaluation decides it.
  \<^item> \<open>Bson_Index_Budget\<close> (\<^verbatim>\<open>document/memory.rs\<close> and the budget of \<^verbatim>\<open>document/index_keys.rs\<close>) and
    \<open>Bson_Index_Conditions\<close> (\<^verbatim>\<open>matcher/index_alternatives.rs\<close>, \<^verbatim>\<open>matcher/index_partial.rs\<close>): what the index
    planner infers from a query.

  \<^bold>\<open>What is shown.\<close>
  \<^item> Routing: every manifest that passes validation routes every key like version one, the migration
    validates, buckets are balanced and all reached.
  \<^item> Identifiers: no identifier is handed out twice by processes that crash and race, the formats are
    bijections on disjoint intervals, owner maps are exact.
  \<^item> Index keys: byte order is value order, keys decode to what was encoded, and exactly the canonical byte
    strings are accepted.
  \<^item> ISAM: lookups, scans and verification are exact, the cache is invisible, a batch writes exactly its
    effect behind the snapshots in use; every history is serializable, readers keep their snapshot, a crash
    keeps a prefix of the commits that holds all acknowledged ones, outcomes are honest, and a write on the
    current root commits when nothing interferes.
  \<^item> BSON: comparison is a linear order that agrees with equality and hash, numbers compare by their exact
    values, keys identify values up to equality, stored keys validate.
  \<^item> Queries: compiled queries are well formed, matching returns the meaning of the query or stops at a limit
    or a refused check, and the conditions, alternatives and partial filters that the planner infers never
    lose a match.

  \<^bold>\<open>Bounds.\<close>  Loops of the code that may run long are bounded in the code, and the model keeps these bounds:
  the steps and candidates of a match, the nodes, depth and regular expressions of a query, the steps and
  bytes of a budget, the nesting and size of keys.  The theorem on matching also states that large enough
  limits give an answer.  Recursion that the code bounds by depth (query compilation, key validation, the
  descent in the tree) terminates by that depth; no fuel is used.

  \<^bold>\<open>Not modelled.\<close>  SQLite statements, connections and virtual tables, the asynchronous engine, the SQL front
  end and planner (they work on third-party syntax trees), network protocols, servers, importers, the object
  store overlay and security records.  Of the manifest, the tables other than routing and identifier leases.
  Of the ISAM store, the pipelined protocol of format 4, lock deadlines, operation counters, file locks and
  the catalog over several files; a root write that is torn without a crash is not considered.  Of the
  document store, the byte codec, updates, aggregation, sorting, projection, index definitions and the
  extraction, framing and probing of secondary index keys, and the accounting hooks of the updater in the
  matcher.  Shard merging, summaries, idempotency records and the engine life cycle.
\<close>

end
